(* ===== verification/VK_Prelude.thy ===== *)
theory VK_Prelude
  imports Main "HOL-Library.Sublist"
begin

text \<open>
  The prelude of the development: the pieces of the Go runtime and standard library that the
  program calls (byte strings, \<^verbatim>\<open>strconv\<close>, \<^verbatim>\<open>net.SplitHostPort\<close>, 64-bit durations) and
  the generic lemmas on lists, options and maps that several components share.
  A Go string is a list of bytes, \<^typ>\<open>string\<close>. The case mapping and the white space of
  \<^verbatim>\<open>strings.ToLower\<close> and \<^verbatim>\<open>strings.TrimSpace\<close> are modelled on ASCII, the alphabet of Kubernetes
  kinds and label keys.
\<close>

named_theorems go_simps \<open>equations of the modelled Go library functions\<close>

type_synonym gtime = int
type_synonym duration = int
type_synonym err = string

subsection \<open>Strings\<close>

definition cmp_or :: "string \<Rightarrow> string \<Rightarrow> string" where
  "cmp_or a b = (if a \<noteq> '''' then a else b)"

definition has_suffix :: "string \<Rightarrow> string \<Rightarrow> bool" where
  "has_suffix s suf = (length suf \<le> length s \<and> drop (length s - length suf) s = suf)"

definition to_lower_char :: "char \<Rightarrow> char" where
  "to_lower_char c =
     (let n = of_char c :: nat in if 65 \<le> n \<and> n \<le> 90 then char_of (n + 32) else c)"

definition to_lower :: "string \<Rightarrow> string" where
  "to_lower s = map to_lower_char s"

definition cut_at :: "char \<Rightarrow> string \<Rightarrow> string \<times> string \<times> bool" where
  "cut_at c s =
     (if c \<in> set s then (takeWhile (\<lambda>x. x \<noteq> c) s, tl (dropWhile (\<lambda>x. x \<noteq> c) s), True)
      else (s, '''', False))"

fun split_on :: "char \<Rightarrow> string \<Rightarrow> string list" where
  "split_on c [] = [[]]"
| "split_on c (x # xs) =
     (if x = c then [] # split_on c xs
      else case split_on c xs of [] \<Rightarrow> [[x]] | w # ws \<Rightarrow> (x # w) # ws)"

definition is_space :: "char \<Rightarrow> bool" where
  "is_space c = (c = CHR '' '' \<or> (let n = of_char c :: nat in 9 \<le> n \<and> n \<le> 13))"

definition trim_right :: "(char \<Rightarrow> bool) \<Rightarrow> string \<Rightarrow> string" where
  "trim_right q s = rev (dropWhile q (rev s))"

definition trim_space :: "string \<Rightarrow> string" where
  "trim_space s = trim_right is_space (dropWhile is_space s)"

fun index_of :: "char \<Rightarrow> string \<Rightarrow> nat option" where
  "index_of c [] = None"
| "index_of c (x # xs) = (if x = c then Some 0 else map_option Suc (index_of c xs))"

fun last_index_of :: "char \<Rightarrow> string \<Rightarrow> nat option" where
  "last_index_of c [] = None"
| "last_index_of c (x # xs) =
     (case last_index_of c xs of
        Some i \<Rightarrow> Some (Suc i)
      | None \<Rightarrow> if x = c then Some 0 else None)"

subsection \<open>Integers: strconv and 64-bit durations\<close>

definition digit_val :: "char \<Rightarrow> nat option" where
  "digit_val c = (let n = of_char c :: nat in if 48 \<le> n \<and> n \<le> 57 then Some (n - 48) else None)"

fun digits_val :: "nat \<Rightarrow> string \<Rightarrow> nat option" where
  "digits_val acc [] = Some acc"
| "digits_val acc (c # cs) =
     (case digit_val c of None \<Rightarrow> None | Some d \<Rightarrow> digits_val (10 * acc + d) cs)"

definition parse_uint :: "string \<Rightarrow> nat option" where
  "parse_uint s = (if s = '''' then None else digits_val 0 s)"

text \<open>
  \<^verbatim>\<open>strconv.ParseInt(s, 10, bits)\<close>: an optional sign, at least one decimal digit, and a
  value of the signed \<open>bits\<close>-bit range; every other string is an error.
\<close>

definition parse_int :: "nat \<Rightarrow> string \<Rightarrow> int option" where
  "parse_int bits s =
     (let neg = (s \<noteq> '''' \<and> hd s = CHR ''-'');
          body = (if s \<noteq> '''' \<and> (hd s = CHR ''-'' \<or> hd s = CHR ''+'') then tl s else s)
      in case parse_uint body of
           None \<Rightarrow> None
         | Some u \<Rightarrow>
             if neg then (if u \<le> 2 ^ (bits - 1) then Some (- int u) else None)
             else (if u < 2 ^ (bits - 1) then Some (int u) else None))"

definition atoi :: "string \<Rightarrow> int option" where
  "atoi s = parse_int 64 s"

definition wrap64 :: "int \<Rightarrow> int" where
  "wrap64 x = (x + 2 ^ 63) mod 2 ^ 64 - 2 ^ 63"

definition nanosecond :: duration where "nanosecond = 1"

definition second :: duration where "second = 1000000000"

definition minute :: duration where "minute = 60 * second"

lemma wrap64_id: "- (2 ^ 63) \<le> x \<Longrightarrow> x < 2 ^ 63 \<Longrightarrow> wrap64 x = x"
  by (simp add: wrap64_def)

subsection \<open>net.SplitHostPort\<close>

datatype addr_error = MissingPort | TooManyColons | MissingBracket | UnexpectedBracket

definition split_tail :: "string \<Rightarrow> string \<Rightarrow> nat \<Rightarrow> nat \<Rightarrow> nat \<Rightarrow> addr_error + (string \<times> string)" where
  "split_tail hp host i j k =
     (if CHR ''['' \<in> set (drop j hp) then Inl UnexpectedBracket
      else if CHR '']'' \<in> set (drop k hp) then Inl UnexpectedBracket
      else Inr (host, drop (Suc i) hp))"

definition split_host_port :: "string \<Rightarrow> addr_error + (string \<times> string)" where
  "split_host_port hp =
     (case last_index_of CHR '':'' hp of
        None \<Rightarrow> Inl MissingPort
      | Some i \<Rightarrow>
          if hd hp = CHR ''['' then
            (case index_of CHR '']'' hp of
               None \<Rightarrow> Inl MissingBracket
             | Some e \<Rightarrow>
                 if Suc e = length hp then Inl MissingPort
                 else if Suc e = i then split_tail hp (take (e - 1) (drop 1 hp)) i 1 (Suc e)
                 else if hp ! Suc e = CHR '':'' then Inl TooManyColons
                 else Inl MissingPort)
          else if CHR '':'' \<in> set (take i hp) then Inl TooManyColons
          else split_tail hp (take i hp) i 0 0)"

lemma last_index_of_none: "last_index_of c xs = None \<longleftrightarrow> c \<notin> set xs"
  by (induction xs) (auto split: option.splits)

lemma last_index_of_last: "c \<notin> set ys \<Longrightarrow> last_index_of c (xs @ c # ys) = Some (length xs)"
  by (induction xs) (auto simp: last_index_of_none [THEN iffD2])

lemma index_of_first: "c \<notin> set xs \<Longrightarrow> index_of c (xs @ c # ys) = Some (length xs)"
  by (induction xs) auto

text \<open>What \<^verbatim>\<open>net.JoinHostPort\<close> writes, \<^verbatim>\<open>net.SplitHostPort\<close> takes apart.\<close>

lemma split_host_port_plain:
  assumes "CHR '':'' \<notin> set host" "CHR ''['' \<notin> set host" "CHR '']'' \<notin> set host"
    and "CHR '':'' \<notin> set port" "CHR ''['' \<notin> set port" "CHR '']'' \<notin> set port"
  shows "split_host_port (host @ '':'' @ port) = Inr (host, port)"
proof -
  have "hd (host @ CHR '':'' # port) \<noteq> CHR ''[''" using assms(2) by (cases host) auto
  with assms show ?thesis
    by (simp add: split_host_port_def last_index_of_last split_tail_def)
qed

lemma split_host_port_bracketed:
  assumes "CHR ''['' \<notin> set host" "CHR '']'' \<notin> set host"
    and "CHR '':'' \<notin> set port" "CHR ''['' \<notin> set port" "CHR '']'' \<notin> set port"
  shows "split_host_port (''['' @ host @ '']:'' @ port) = Inr (host, port)"
proof -
  have "last_index_of CHR '':'' (''['' @ host @ '']:'' @ port) = Some (Suc (Suc (length host)))"
    using last_index_of_last [OF assms(3), of "''['' @ host @ '']''"] by simp
  moreover have "index_of CHR '']'' (''['' @ host @ '']:'' @ port) = Some (Suc (length host))"
    using index_of_first [of "CHR '']''" "''['' @ host" "'':'' @ port"] assms(2) by simp
  ultimately show ?thesis using assms by (simp add: split_host_port_def split_tail_def)
qed

subsection \<open>Decimal numerals\<close>

text \<open>The decimal numeral of a number.\<close>

definition digit_char :: "nat \<Rightarrow> char" where
  "digit_char d = char_of (48 + d)"

fun decimal :: "nat \<Rightarrow> string" where
  "decimal n = (if n < 10 then [digit_char n] else decimal (n div 10) @ [digit_char (n mod 10)])"

declare decimal.simps [simp del]

lemma digit_val_char: "d < 10 \<Longrightarrow> digit_val (digit_char d) = Some d"
  by (simp add: digit_val_def digit_char_def)

lemma digits_val_snoc:
  "digits_val acc (cs @ [c]) =
     (case digits_val acc cs of None \<Rightarrow> None | Some v \<Rightarrow> map_option (\<lambda>d. 10 * v + d) (digit_val c))"
  by (induction acc cs rule: digits_val.induct) (auto split: option.splits)

lemma digits_val_decimal: "digits_val 0 (decimal n) = Some n"
proof (induction n rule: decimal.induct)
  case (1 n)
  then show ?case
    by (cases "n < 10") (simp_all add: decimal.simps [of n] digit_val_char digits_val_snoc)
qed

lemma decimal_digits: "c \<in> set (decimal n) \<Longrightarrow> \<exists>d < 10. c = digit_char d"
proof (induction n rule: decimal.induct)
  case (1 n)
  consider "c = digit_char (n mod 10)" | "\<not> n < 10" "c \<in> set (decimal (n div 10))"
    using 1(2) by (auto simp: decimal.simps [of n] split: if_splits)
  then show ?case using 1(1) by cases (auto intro!: exI [of _ "n mod 10"])
qed

lemma decimal_nonempty [simp]: "decimal n \<noteq> []"
  by (subst decimal.simps) simp

lemma digit_char_inj: "d < 10 \<Longrightarrow> digit_char d = c \<Longrightarrow> of_char c = 48 + d"
  by (auto simp: digit_char_def)

text \<open>\<^verbatim>\<open>strconv.ParseInt\<close> reads numerals back, and refuses those outside its range.\<close>

lemma parse_int_decimal:
  "parse_int bits (decimal n) = (if n < 2 ^ (bits - 1) then Some (int n) else None)"
proof -
  have "hd (decimal n) \<in> set (decimal n)" by simp
  then obtain d where "d < 10" "hd (decimal n) = digit_char d" using decimal_digits by blast
  then have "of_char (hd (decimal n)) = 48 + d" by (auto dest: digit_char_inj)
  then have "hd (decimal n) \<noteq> CHR ''-''" "hd (decimal n) \<noteq> CHR ''+''" by auto
  then show ?thesis by (simp add: parse_int_def parse_uint_def digits_val_decimal)
qed

lemma parse_int_range:
  assumes "parse_int bits s = Some v"
  shows "- (2 ^ (bits - 1)) \<le> v \<and> v < 2 ^ (bits - 1)"
proof -
  let ?b = "2 ^ (bits - 1) :: nat"
  obtain u where u: "v = int u \<and> u < ?b \<or> v = - int u \<and> u \<le> ?b"
    using assms by (auto simp: parse_int_def Let_def split: option.splits if_splits)
  have b: "int ?b = 2 ^ (bits - 1)" "0 < int ?b" by simp_all
  from u have "- int ?b \<le> v \<and> v < int ?b" using b(2) by linarith
  with b(1) show ?thesis by simp
qed

subsection \<open>Lists\<close>

lemma set_map_filter_iff: "y \<in> set (List.map_filter f xs) \<longleftrightarrow> (\<exists>x \<in> set xs. f x = Some y)"
  by (induction xs) (auto simp: List.map_filter_simps split: option.splits)

lemma distinct_map_filter_inj:
  "distinct xs \<Longrightarrow> (\<And>x x' y. x \<in> set xs \<Longrightarrow> x' \<in> set xs \<Longrightarrow> f x = Some y \<Longrightarrow> f x' = Some y \<Longrightarrow> x = x') \<Longrightarrow>
     distinct (List.map_filter f xs)"
  by (induction xs) (auto simp: List.map_filter_simps set_map_filter_iff split: option.splits)

end
