(* ===== verification/Kube_Model.thy ===== *)
theory Kube_Model
  imports VK_Prelude
begin

text \<open>
  The data of the program: the Kubernetes objects and sandboxd messages it reads, as records of
  exactly the fields it uses, the claim and the provider of \<^verbatim>\<open>provider/provider.go\<close>, the
  errors its handlers return, and the calls it makes to the outside (sandboxd, the apiserver, the
  file system, the clock), as events of a trace.
  Times are nanoseconds since Go's zero time, so the zero \<^verbatim>\<open>metav1.Time\<close> is \<open>0\<close>.
\<close>

named_theorems model_simps \<open>definitions that only name a projection or a constant\<close>

subsection \<open>Kubernetes objects\<close>

record container =
  ctr_name :: string
  ctr_image :: string

record owner_ref =
  or_apiVersion :: string
  or_kind :: string
  or_name :: string
  or_uid :: string

datatype pod_phase = PodPending | PodRunning | PodFailed | PodPhase string

datatype container_state =
    StateRunning gtime
  | StateTerminated int string gtime
  | StateNone

record container_status =
  cs_name :: string
  cs_ready :: bool
  cs_state :: container_state
  cs_image :: string
  cs_imageID :: string

record pod_status =
  ps_phase :: pod_phase
  ps_reason :: string
  ps_message :: string
  ps_hostIP :: string
  ps_podIP :: string
  ps_podIPs :: "string list"
  ps_startTime :: "gtime option"
  ps_conditions :: "(string \<times> string) list"
  ps_containerStatuses :: "container_status list"

text \<open>
  \<open>pod_controller\<close> is the reference \<^verbatim>\<open>metav1.GetControllerOf\<close> returns for the Pod,
  \<^const>\<open>None\<close> for a bare Pod.
\<close>

record pod =
  pod_namespace :: string
  pod_name :: string
  pod_uid :: string
  pod_annotations :: "string \<rightharpoonup> string"
  pod_controller :: "owner_ref option"
  pod_containers :: "container list"
  pod_status :: pod_status

text \<open>
  What a dynamic-client Get returns: the error as the two questions the code asks of it
  (\<^verbatim>\<open>IsNotFound\<close>; the \<^verbatim>\<open>APIStatus\<close> it wraps, if any, with the \<^verbatim>\<open>Details.Name\<close> if it has
  details), or the object as its deletion timestamp, its UID and the slice
  \<^verbatim>\<open>NestedSlice(obj, "status", "conditions")\<close>, empty when absent or malformed.
\<close>

record api_error =
  ae_notFound :: bool
  ae_status :: "string option option"
  ae_text :: string

datatype any_val = AnyString string | AnyOther

datatype condition_val = CondMap "string \<rightharpoonup> any_val" | CondOther

record owner_obj =
  oo_deletionTimestamp :: "gtime option"
  oo_uid :: string
  oo_conditions :: "condition_val list"

record gvr =
  gvr_group :: string
  gvr_version :: string
  gvr_resource :: string

subsection \<open>sandboxd messages\<close>

record claim_spec =
  sp_template :: string
  sp_net :: string
  sp_size :: string
  sp_ttlSeconds :: int
  sp_claimRef :: string

record claim_result =
  cr_id :: string
  cr_token :: string
  cr_ownerAddr :: string
  cr_deadline :: gtime

record sandbox_summary =
  ss_id :: string
  ss_claimRef :: string
  ss_deadline :: gtime

subsection \<open>The claims table\<close>

record claim =
  cl_id :: string
  cl_token :: string
  cl_address :: string
  cl_podUID :: string
  cl_authority :: "string option"
  cl_claimedAt :: gtime
  cl_deadline :: gtime
  cl_owner :: "owner_ref option"

record state_file =
  sf_claims :: "string \<rightharpoonup> claim"
  sf_releasing :: "claim list"

record owner_recheck =
  rc_at :: gtime
  rc_delay :: duration

text \<open>
  The provider. The Go interfaces that may be nil are recorded as whether they are set; a set of
  keys is what \<^verbatim>\<open>map[string]struct{}\<close> holds.
\<close>

record provider =
  pv_lister :: bool
  pv_dyn :: bool
  pv_statePath :: string
  pv_pods :: "string \<rightharpoonup> pod"
  pv_claims :: "string \<rightharpoonup> claim"
  pv_notifier :: bool
  pv_tentative :: "string set"
  pv_quarantined :: "string set"
  pv_releasing :: "claim list"
  pv_orphanVerdicts :: "string \<rightharpoonup> string"
  pv_ownerRechecks :: "string \<rightharpoonup> owner_recheck"

text \<open>
  What the code takes from other modules without effects: \<^verbatim>\<open>schema.ParseGroupVersion\<close>,
  \<^verbatim>\<open>Time.Format(time.RFC3339)\<close>, the selector keys of \<^verbatim>\<open>scale\<close> and the condition names of
  \<^verbatim>\<open>sandboxv1beta1\<close>.
\<close>

record ext =
  parse_group_version :: "string \<Rightarrow> (string \<times> string) option"
  format_rfc3339 :: "gtime \<Rightarrow> string"
  selector_template_key :: string
  selector_net_key :: string
  selector_size_key :: string
  sandbox_condition_ready :: string
  sandbox_reason_expired :: string

subsection \<open>Errors\<close>

datatype save_error =
    MkdirFailed err
  | WriteFailed err
  | RenameFailed err

datatype pod_error =
    ErrRuntime string string
  | ErrUnverified string
  | ErrExpiredUnlistable string string err
  | ErrStranded string string err
  | ErrInvalidTTL string string
  | ErrMissingTemplate string
  | ErrClaim string string err
  | ErrPersist string save_error
  | ErrPersistAndRelease string save_error string err
  | ErrRelease string string err

datatype new_error =
    ErrReadState err
  | ErrDecodeState
  | ErrNotWritable save_error

subsection \<open>JSON values and the state file\<close>

datatype json =
    JNull
  | JString string
  | JTime int
  | JArray "json list"
  | JObject "(string \<times> json) list"
  | JInvalid

subsection \<open>The outside world\<close>

datatype call_ctx = CallerCtx | DetachedCtx

datatype fsop = MkdirAll | WriteTmp json | RenameTmp

datatype event =
    EvNow gtime
  | EvRange "string list"
  | EvClaim claim_spec "err + claim_result"
  | EvRelease call_ctx string string "err option"
  | EvList "err + sandbox_summary list"
  | EvGet gvr string string "api_error + owner_obj"
  | EvFs fsop "err option"
  | EvRead "err option"
  | EvNotify pod

text \<open>
  The services the program talks to, each a function of the history of everything that has been
  asked of the outside so far and of the request. A stateful service that answers the same
  request differently over time is such a function, and a theorem for all \<^typ>\<open>event\<close> histories
  and all services is one for every behaviour of the outside.
  \<open>svc_range\<close> is the order in which the Go runtime enumerates the keys of a map.
\<close>

record services =
  svc_now :: "event list \<Rightarrow> gtime"
  svc_range :: "event list \<Rightarrow> string set \<Rightarrow> string list"
  svc_claim :: "event list \<Rightarrow> claim_spec \<Rightarrow> err + claim_result"
  svc_release :: "event list \<Rightarrow> call_ctx \<Rightarrow> string \<Rightarrow> string \<Rightarrow> err option"
  svc_list :: "event list \<Rightarrow> err + sandbox_summary list"
  svc_get :: "event list \<Rightarrow> gvr \<Rightarrow> string \<Rightarrow> string \<Rightarrow> api_error + owner_obj"
  svc_fs :: "event list \<Rightarrow> fsop \<Rightarrow> err option"
  svc_read :: "event list \<Rightarrow> err option"

text \<open>
  The world: the provider's memory, the goroutine that holds \<^verbatim>\<open>saveMu\<close>, the state file and the
  temporary file beside it, and the history of calls to the outside.
\<close>

record world =
  w_prov :: provider
  w_saveMu :: "nat option"
  w_disk :: "json option"
  w_tmp :: "json option"
  w_trace :: "event list"

end
