(* ===== verification/Handler_Prog.thy ===== *)
theory Handler_Prog
  imports Kube_Model
begin

text \<open>
  Handlers as programs. A handler of the provider alternates critical sections under \<open>mu\<close> with
  calls to the outside, and other goroutines run in between. A \<open>prog\<close> is the tree of these
  actions, one constructor per kind of action; \<open>astep S i\<close> performs the first action of a program
  that goroutine \<open>i\<close> executes, \<open>run\<close> performs all actions of goroutine \<open>0\<close> with no other
  goroutine in between.
  A section under \<open>mu\<close> is one action; \<open>saveMu\<close>, which is held across file-system calls, is a
  lock of its own that blocks while another goroutine holds it.
\<close>

named_theorems run_simps \<open>how \<open>run\<close> evaluates the actions and combinators of programs\<close>

datatype 'a prog =
    Ret 'a
  | Locked "provider \<Rightarrow> provider \<times> 'a prog"
  | LockSave "'a prog"
  | UnlockSave "'a prog"
  | CallNow "gtime \<Rightarrow> 'a prog"
  | CallRange "string set" "string list \<Rightarrow> 'a prog"
  | CallClaim claim_spec "err + claim_result \<Rightarrow> 'a prog"
  | CallRelease call_ctx string string "err option \<Rightarrow> 'a prog"
  | CallList "err + sandbox_summary list \<Rightarrow> 'a prog"
  | CallGet gvr string string "api_error + owner_obj \<Rightarrow> 'a prog"
  | CallFs fsop "err option \<Rightarrow> 'a prog"
  | CallRead "err + json option \<Rightarrow> 'a prog"
  | CallNotify pod "'a prog"

primrec bind :: "'a prog \<Rightarrow> ('a \<Rightarrow> 'b prog) \<Rightarrow> 'b prog" where
  "bind (Ret a) f = f a"
| "bind (Locked g) f = Locked (\<lambda>p. map_prod id (\<lambda>m. bind m f) (g p))"
| "bind (LockSave m) f = LockSave (bind m f)"
| "bind (UnlockSave m) f = UnlockSave (bind m f)"
| "bind (CallNow k) f = CallNow (\<lambda>r. bind (k r) f)"
| "bind (CallRange K k) f = CallRange K (\<lambda>r. bind (k r) f)"
| "bind (CallClaim sp k) f = CallClaim sp (\<lambda>r. bind (k r) f)"
| "bind (CallRelease c i t k) f = CallRelease c i t (\<lambda>r. bind (k r) f)"
| "bind (CallList k) f = CallList (\<lambda>r. bind (k r) f)"
| "bind (CallGet g ns n k) f = CallGet g ns n (\<lambda>r. bind (k r) f)"
| "bind (CallFs op k) f = CallFs op (\<lambda>r. bind (k r) f)"
| "bind (CallRead k) f = CallRead (\<lambda>r. bind (k r) f)"
| "bind (CallNotify pd m) f = CallNotify pd (bind m f)"

subsection \<open>One action at a time\<close>

definition log_event :: "event \<Rightarrow> world \<Rightarrow> world" where
  "log_event e w = w\<lparr>w_trace := w_trace w @ [e]\<rparr>"

text \<open>
  The file system. \<^verbatim>\<open>os.WriteFile\<close> that fails may leave part of the document in the temporary
  file, which then holds no complete document; \<^verbatim>\<open>os.Rename\<close> that succeeds replaces the state
  file by the temporary file in one step.
\<close>

fun fs_effect :: "fsop \<Rightarrow> err option \<Rightarrow> world \<Rightarrow> world" where
  "fs_effect MkdirAll r w = w"
| "fs_effect (WriteTmp j) r w = w\<lparr>w_tmp := (if r = None then Some j else None)\<rparr>"
| "fs_effect RenameTmp r w = (if r = None then w\<lparr>w_disk := w_tmp w, w_tmp := None\<rparr> else w)"

fun astep :: "services \<Rightarrow> nat \<Rightarrow> 'a prog \<Rightarrow> world \<Rightarrow> (world \<times> 'a prog) option" where
  "astep S i (Ret a) w = None"
| "astep S i (Locked g) w = (case g (w_prov w) of (p, m) \<Rightarrow> Some (w\<lparr>w_prov := p\<rparr>, m))"
| "astep S i (LockSave m) w =
     (if w_saveMu w \<noteq> None then None else Some (w\<lparr>w_saveMu := Some i\<rparr>, m))"
| "astep S i (UnlockSave m) w = Some (w\<lparr>w_saveMu := None\<rparr>, m)"
| "astep S i (CallNow k) w =
     (let r = svc_now S (w_trace w) in Some (log_event (EvNow r) w, k r))"
| "astep S i (CallRange K k) w =
     (let r = svc_range S (w_trace w) K in Some (log_event (EvRange r) w, k r))"
| "astep S i (CallClaim sp k) w =
     (let r = svc_claim S (w_trace w) sp in Some (log_event (EvClaim sp r) w, k r))"
| "astep S i (CallRelease c x t k) w =
     (let r = svc_release S (w_trace w) c x t in Some (log_event (EvRelease c x t r) w, k r))"
| "astep S i (CallList k) w =
     (let r = svc_list S (w_trace w) in Some (log_event (EvList r) w, k r))"
| "astep S i (CallGet g ns n k) w =
     (let r = svc_get S (w_trace w) g ns n in Some (log_event (EvGet g ns n r) w, k r))"
| "astep S i (CallFs op k) w =
     (let r = svc_fs S (w_trace w) op in Some (log_event (EvFs op r) (fs_effect op r w), k r))"
| "astep S i (CallRead k) w =
     (let r = svc_read S (w_trace w)
      in Some (log_event (EvRead r) w,
               k (case r of Some e \<Rightarrow> Inl e | None \<Rightarrow> Inr (w_disk w))))"
| "astep S i (CallNotify pd m) w = Some (log_event (EvNotify pd) w, m)"

subsection \<open>A whole program at once\<close>

text \<open>\<^const>\<open>None\<close> is a program that waits for a lock nobody will release.\<close>

primrec run :: "services \<Rightarrow> 'a prog \<Rightarrow> world \<Rightarrow> ('a \<times> world) option" where
  "run S (Ret a) = (\<lambda>w. Some (a, w))"
| "run S (Locked g) =
     (\<lambda>w. case map_prod id (run S) (g (w_prov w)) of (p, m) \<Rightarrow> m (w\<lparr>w_prov := p\<rparr>))"
| "run S (LockSave m) =
     (\<lambda>w. if w_saveMu w \<noteq> None then None else run S m (w\<lparr>w_saveMu := Some 0\<rparr>))"
| "run S (UnlockSave m) = (\<lambda>w. run S m (w\<lparr>w_saveMu := None\<rparr>))"
| "run S (CallNow k) =
     (\<lambda>w. run S (k (svc_now S (w_trace w))) (log_event (EvNow (svc_now S (w_trace w))) w))"
| "run S (CallRange K k) =
     (\<lambda>w. run S (k (svc_range S (w_trace w) K))
            (log_event (EvRange (svc_range S (w_trace w) K)) w))"
| "run S (CallClaim sp k) =
     (\<lambda>w. run S (k (svc_claim S (w_trace w) sp))
            (log_event (EvClaim sp (svc_claim S (w_trace w) sp)) w))"
| "run S (CallRelease c i t k) =
     (\<lambda>w. run S (k (svc_release S (w_trace w) c i t))
            (log_event (EvRelease c i t (svc_release S (w_trace w) c i t)) w))"
| "run S (CallList k) =
     (\<lambda>w. run S (k (svc_list S (w_trace w))) (log_event (EvList (svc_list S (w_trace w))) w))"
| "run S (CallGet g ns n k) =
     (\<lambda>w. run S (k (svc_get S (w_trace w) g ns n))
            (log_event (EvGet g ns n (svc_get S (w_trace w) g ns n)) w))"
| "run S (CallFs op k) =
     (\<lambda>w. run S (k (svc_fs S (w_trace w) op))
            (log_event (EvFs op (svc_fs S (w_trace w) op))
              (fs_effect op (svc_fs S (w_trace w) op) w)))"
| "run S (CallRead k) =
     (\<lambda>w. run S (k (case svc_read S (w_trace w) of Some e \<Rightarrow> Inl e | None \<Rightarrow> Inr (w_disk w)))
            (log_event (EvRead (svc_read S (w_trace w))) w))"
| "run S (CallNotify pd m) = (\<lambda>w. run S m (log_event (EvNotify pd) w))"

subsection \<open>The vocabulary handlers are written in\<close>

definition locked :: "(provider \<Rightarrow> provider \<times> 'a) \<Rightarrow> 'a prog" where
  "locked f = Locked (\<lambda>p. case f p of (p', a) \<Rightarrow> (p', Ret a))"

definition modify :: "(provider \<Rightarrow> provider) \<Rightarrow> unit prog" where
  "modify f = locked (\<lambda>p. (f p, ()))"

definition reads :: "(provider \<Rightarrow> 'a) \<Rightarrow> 'a prog" where
  "reads f = locked (\<lambda>p. (p, f p))"

definition lock_save :: "unit prog" where "lock_save = LockSave (Ret ())"

definition unlock_save :: "unit prog" where "unlock_save = UnlockSave (Ret ())"

definition now :: "gtime prog" where "now = CallNow Ret"

definition range_keys :: "string set \<Rightarrow> string list prog" where
  "range_keys K = CallRange K Ret"

definition client_claim :: "claim_spec \<Rightarrow> (err + claim_result) prog" where
  "client_claim sp = CallClaim sp Ret"

definition client_release :: "call_ctx \<Rightarrow> string \<Rightarrow> string \<Rightarrow> err option prog" where
  "client_release c i t = CallRelease c i t Ret"

definition lister_sandboxes :: "(err + sandbox_summary list) prog" where
  "lister_sandboxes = CallList Ret"

definition dyn_get :: "gvr \<Rightarrow> string \<Rightarrow> string \<Rightarrow> (api_error + owner_obj) prog" where
  "dyn_get g ns n = CallGet g ns n Ret"

definition fs_call :: "fsop \<Rightarrow> err option prog" where "fs_call op = CallFs op Ret"

definition read_file :: "(err + json option) prog" where "read_file = CallRead Ret"

definition call_notifier :: "pod \<Rightarrow> unit prog" where "call_notifier pd = CallNotify pd (Ret ())"

text \<open>\<^verbatim>\<open>if err := m; err != nil { return err }\<close>, then the rest.\<close>

definition check :: "'e option prog \<Rightarrow> 'e option prog \<Rightarrow> 'e option prog" where
  "check m k = bind m (\<lambda>e. case e of Some x \<Rightarrow> Ret (Some x) | None \<Rightarrow> k)"

text \<open>A \<^verbatim>\<open>for\<close> loop over a list, with an accumulator.\<close>

primrec for_each :: "('x \<Rightarrow> 'a \<Rightarrow> 'a prog) \<Rightarrow> 'x list \<Rightarrow> 'a \<Rightarrow> 'a prog" where
  "for_each body [] a = Ret a"
| "for_each body (x # xs) a = bind (body x a) (\<lambda>a'. for_each body xs a')"

text \<open>The Go runtime enumerates the keys of a map, each once.\<close>

definition map_ranges :: "services \<Rightarrow> bool" where
  "map_ranges S \<longleftrightarrow>
     (\<forall>h K. finite K \<longrightarrow> set (svc_range S h K) = K \<and> distinct (svc_range S h K))"

text \<open>The sandboxes that were given back in a history of calls.\<close>

definition released :: "event list \<Rightarrow> string set" where
  "released h = {x. \<exists>c t. EvRelease c x t None \<in> set h}"

subsection \<open>Laws of programs and of their runs\<close>

lemma bind_Ret [simp]: "bind m Ret = m"
  by (induction m) (auto simp: prod.map_ident fun_eq_iff map_prod_def intro!: prod_eqI
      split: prod.splits, metis prod.collapse range_eqI snds.intros)

lemma run_Locked [simp]:
  "run S (Locked g) w = (case g (w_prov w) of (p, m) \<Rightarrow> run S m (w\<lparr>w_prov := p\<rparr>))"
  by (simp split: prod.splits)

declare run.simps(2) [simp del]

lemma run_bind [simp, run_simps]:
  "run S (bind m f) w = (case run S m w of None \<Rightarrow> None | Some (a, w') \<Rightarrow> run S (f a) w')"
proof (induction m arbitrary: w)
  case (Locked g)
  obtain p m where g: "g (w_prov w) = (p, m)" by (cases "g (w_prov w)")
  then have "m \<in> Basic_BNFs.snds (g (w_prov w))" by (simp add: snds.intros)
  from Locked [OF rangeI this] g show ?case by simp
qed (simp_all)

lemma astep_bind:
  "\<forall>a. m \<noteq> Ret a \<Longrightarrow>
     astep S i (bind m f) w = map_option (\<lambda>(w', m'). (w', bind m' f)) (astep S i m w)"
  by (cases m) (auto simp: Let_def split: prod.splits)

text \<open>\<^const>\<open>run\<close> is the schedule of \<^const>\<open>astep\<close> in which nobody else runs.\<close>

lemma run_astep: "astep S 0 m w = Some (w', m') \<Longrightarrow> run S m w = run S m' w'"
  by (cases m) (auto simp: Let_def split: prod.splits if_splits)

lemma run_stuck: "astep S 0 m w = None \<Longrightarrow> run S m w = (case m of Ret a \<Rightarrow> Some (a, w) | _ \<Rightarrow> None)"
  by (cases m) (auto simp: Let_def split: prod.splits if_splits)

lemma run_vocabulary [simp, run_simps]:
  "run S (locked f) w = (case f (w_prov w) of (p, a) \<Rightarrow> Some (a, w\<lparr>w_prov := p\<rparr>))"
  "run S (modify u) w = Some ((), w\<lparr>w_prov := u (w_prov w)\<rparr>)"
  "run S (reads h) w = Some (h (w_prov w), w)"
  "run S lock_save w =
     (if w_saveMu w \<noteq> None then None else Some ((), w\<lparr>w_saveMu := Some 0\<rparr>))"
  "run S unlock_save w = Some ((), w\<lparr>w_saveMu := None\<rparr>)"
  "run S now w = Some (svc_now S (w_trace w), log_event (EvNow (svc_now S (w_trace w))) w)"
  "run S (range_keys K) w =
     Some (svc_range S (w_trace w) K, log_event (EvRange (svc_range S (w_trace w) K)) w)"
  "run S (client_claim sp) w =
     Some (svc_claim S (w_trace w) sp, log_event (EvClaim sp (svc_claim S (w_trace w) sp)) w)"
  "run S (client_release c i t) w =
     Some (svc_release S (w_trace w) c i t,
           log_event (EvRelease c i t (svc_release S (w_trace w) c i t)) w)"
  "run S lister_sandboxes w =
     Some (svc_list S (w_trace w), log_event (EvList (svc_list S (w_trace w))) w)"
  "run S (dyn_get g ns n) w =
     Some (svc_get S (w_trace w) g ns n,
           log_event (EvGet g ns n (svc_get S (w_trace w) g ns n)) w)"
  "run S (fs_call op) w =
     Some (svc_fs S (w_trace w) op,
           log_event (EvFs op (svc_fs S (w_trace w) op))
             (fs_effect op (svc_fs S (w_trace w) op) w))"
  "run S read_file w =
     Some (case svc_read S (w_trace w) of Some e \<Rightarrow> Inl e | None \<Rightarrow> Inr (w_disk w),
           log_event (EvRead (svc_read S (w_trace w))) w)"
  "run S (call_notifier pd) w = Some ((), log_event (EvNotify pd) w)"
  by (simp_all add: locked_def modify_def reads_def lock_save_def unlock_save_def now_def
      range_keys_def client_claim_def client_release_def lister_sandboxes_def dyn_get_def
      fs_call_def read_file_def call_notifier_def split: prod.splits)

lemma run_check [simp, run_simps]:
  "run S (check m k) w =
     (case run S m w of
        None \<Rightarrow> None
      | Some (Some x, w') \<Rightarrow> Some (Some x, w')
      | Some (None, w') \<Rightarrow> run S k w')"
  by (auto simp: check_def split: option.splits prod.splits)

lemma log_event_sel [simp]:
  "w_prov (log_event e w) = w_prov w"
  "w_saveMu (log_event e w) = w_saveMu w"
  "w_disk (log_event e w) = w_disk w"
  "w_tmp (log_event e w) = w_tmp w"
  "w_trace (log_event e w) = w_trace w @ [e]"
  by (simp_all add: log_event_def)

lemma fs_effect_sel [simp]:
  "w_prov (fs_effect op r w) = w_prov w"
  "w_saveMu (fs_effect op r w) = w_saveMu w"
  "w_trace (fs_effect op r w) = w_trace w"
  by (cases op; simp)+

lemma astep_trace:
  assumes "astep S i m w = Some (w', m')"
  obtains es where "w_trace w' = w_trace w @ es"
  using assms by (cases m) (auto simp: Let_def split: prod.splits if_splits)

text \<open>A run only ever extends the history of calls.\<close>

lemma run_trace:
  assumes "run S m w = Some (a, w')"
  shows "\<exists>es. w_trace w' = w_trace w @ es"
  using assms
proof (induction m arbitrary: w)
  case (Locked g)
  obtain p m where g: "g (w_prov w) = (p, m)" by (cases "g (w_prov w)")
  then have "m \<in> Basic_BNFs.snds (g (w_prov w))" by (simp add: snds.intros)
  from Locked.IH [OF rangeI this, of "w\<lparr>w_prov := p\<rparr>"] Locked.prems g show ?case by simp
qed (fastforce split: if_splits)+

text \<open>A loop keeps what each of its rounds keeps.\<close>

lemma run_for_each:
  assumes "\<And>x a w. x \<in> set xs \<Longrightarrow> I a w \<Longrightarrow> \<exists>a' w'. run S (body x a) w = Some (a', w') \<and> I a' w'" "I a w"
  shows "\<exists>a' w'. run S (for_each body xs a) w = Some (a', w') \<and> I a' w'"
  using assms
proof (induction xs arbitrary: a w)
  case (Cons x xs)
  obtain a' w' where "run S (body x a) w = Some (a', w')" "I a' w'" using Cons.prems by fastforce
  with Cons.IH [of a' w'] Cons.prems(1) show ?case by simp
qed simp

end
