(* ===== verification/Rely_Guarantee.thy ===== *)
theory Rely_Guarantee
  imports Handler_Prog
begin

text \<open>
  Goroutines that interleave. A pool is a list of programs; a step of the pool is one action of
  one of them (\<open>par_step\<close>), and any schedule is a sequence of such steps. The theory gives a
  rely-guarantee calculus for programs: \<open>rg S i I R G Q P m\<close> says that goroutine \<open>i\<close>, running
  \<open>m\<close> from a world that satisfies \<open>P\<close>, keeps the invariant \<open>I\<close> and takes only steps in \<open>G\<close>,
  and ends with a result in \<open>Q\<close>, as long as the steps of the others are in \<open>R\<close>.
  Assertions speak of the world and of an auxiliary value that a proof may carry along, such as
  a record of the past; no program reads it. \<open>pool_sound\<close> puts the goroutines of a pool together.
\<close>

type_synonym 'g assn = "world \<times> 'g \<Rightarrow> bool"
type_synonym 'g trans = "world \<times> 'g \<Rightarrow> world \<times> 'g \<Rightarrow> bool"

definition stable_under :: "'g assn \<Rightarrow> 'g trans \<Rightarrow> 'g assn \<Rightarrow> bool" where
  "stable_under I R P \<longleftrightarrow> (\<forall>s s'. I s \<longrightarrow> I s' \<longrightarrow> P s \<longrightarrow> R s s' \<longrightarrow> P s')"

lemma stableI [intro?]:
  "(\<And>s s'. I s \<Longrightarrow> I s' \<Longrightarrow> P s \<Longrightarrow> R s s' \<Longrightarrow> P s') \<Longrightarrow> stable_under I R P"
  unfolding stable_under_def by blast

lemma stableD: "stable_under I R P \<Longrightarrow> I s \<Longrightarrow> I s' \<Longrightarrow> P s \<Longrightarrow> R s s' \<Longrightarrow> P s'"
  unfolding stable_under_def by blast

lemma stable_const [simp]: "stable_under I R (\<lambda>_. b)"
  by (simp add: stable_under_def)

lemma stable_conj: "stable_under I R P \<Longrightarrow> stable_under I R Q \<Longrightarrow> stable_under I R (\<lambda>s. P s \<and> Q s)"
  unfolding stable_under_def by blast

lemma stable_disj: "stable_under I R P \<Longrightarrow> stable_under I R Q \<Longrightarrow> stable_under I R (\<lambda>s. P s \<or> Q s)"
  unfolding stable_under_def by blast

lemma stable_ex: "(\<And>x. stable_under I R (P x)) \<Longrightarrow> stable_under I R (\<lambda>s. \<exists>x. P x s)"
  unfolding stable_under_def by blast

lemma stable_all: "(\<And>x. stable_under I R (P x)) \<Longrightarrow> stable_under I R (\<lambda>s. \<forall>x. P x s)"
  unfolding stable_under_def by blast

lemma stable_imp_const: "(b \<Longrightarrow> stable_under I R P) \<Longrightarrow> stable_under I R (\<lambda>s. b \<longrightarrow> P s)"
  unfolding stable_under_def by blast

inductive rg ::
    "services \<Rightarrow> nat \<Rightarrow> 'g assn \<Rightarrow> 'g trans \<Rightarrow> 'g trans \<Rightarrow> ('a \<Rightarrow> 'g assn) \<Rightarrow> 'g assn \<Rightarrow> 'a prog \<Rightarrow> bool"
  for S i I R G Q where
  rg_Ret: "stable_under I R P \<Longrightarrow> (\<And>s. I s \<Longrightarrow> P s \<Longrightarrow> Q a s) \<Longrightarrow> rg S i I R G Q P (Ret a)"
| rg_Act: "stable_under I R P \<Longrightarrow> (\<forall>a. m \<noteq> Ret a) \<Longrightarrow>
     (\<And>w g w' m'. I (w, g) \<Longrightarrow> P (w, g) \<Longrightarrow> astep S i m w = Some (w', m') \<Longrightarrow>
        \<exists>g'. I (w', g') \<and> G (w, g) (w', g') \<and> (\<exists>P'. P' (w', g') \<and> rg S i I R G Q P' m')) \<Longrightarrow>
     rg S i I R G Q P m"

inductive_cases rg_RetE: "rg S i I R G Q P (Ret a)"

lemma rg_stable:
  assumes "rg S i I R G Q P m"
  shows "stable_under I R P"
  using assms
proof (cases rule: rg.cases)
  case rg_Ret
  from rg_Ret(2) show ?thesis .
next
  case rg_Act
  from rg_Act(1) show ?thesis .
qed

lemma rg_stepD:
  assumes "rg S i I R G Q P m" "I (w, g)" "P (w, g)" "astep S i m w = Some (w', m')"
  shows "\<exists>g'. I (w', g') \<and> G (w, g) (w', g') \<and> (\<exists>P'. P' (w', g') \<and> rg S i I R G Q P' m')"
  using assms(1)
proof (cases rule: rg.cases)
  case (rg_Ret a)
  with assms(4) show ?thesis by simp
next
  case rg_Act
  from rg_Act(3) [OF assms(2,3,4)] show ?thesis .
qed

lemma rg_pre:
  assumes "rg S i I R G Q P m" "stable_under I R P'" "\<And>s. I s \<Longrightarrow> P' s \<Longrightarrow> P s"
  shows "rg S i I R G Q P' m"
  using assms(1)
proof (cases rule: rg.cases)
  case (rg_Ret a)
  show ?thesis unfolding rg_Ret(1)
    by (rule rg.rg_Ret [OF assms(2)]) (rule rg_Ret(3) [OF _ assms(3)])
next
  case rg_Act
  show ?thesis
    by (rule rg.rg_Act [OF assms(2) rg_Act(2)]) (rule rg_Act(3) [OF _ assms(3)])
qed

lemma rg_post:
  assumes "rg S i I R G Q P m" "\<And>a s. I s \<Longrightarrow> Q a s \<Longrightarrow> Q' a s"
  shows "rg S i I R G Q' P m"
  using assms
proof (induction rule: rg.induct)
  case (rg_Ret P a)
  then show ?case by (auto intro: rg.rg_Ret)
next
  case (rg_Act P m)
  show ?case
  proof (rule rg.rg_Act [OF rg_Act(1,2)])
    fix w g w' m'
    assume "I (w, g)" "P (w, g)" "astep S i m w = Some (w', m')"
    from rg_Act(3) [OF this] rg_Act.prems
    show "\<exists>g'. I (w', g') \<and> G (w, g) (w', g') \<and> (\<exists>P'. P' (w', g') \<and> rg S i I R G Q' P' m')"
      by blast
  qed
qed

lemma rg_bind:
  assumes "rg S i I R G Q P m" "\<And>a. rg S i I R G Q' (Q a) (f a)"
  shows "rg S i I R G Q' P (bind m f)"
  using assms(1)
proof (induction rule: rg.induct)
  case (rg_Ret P a)
  then show ?case using assms(2) [of a] by (auto intro: rg_pre)
next
  case (rg_Act P m)
  show ?case
  proof (rule rg.rg_Act)
    show "stable_under I R P" by fact
    show "\<forall>a. bind m f \<noteq> Ret a" using rg_Act(2) by (cases m) auto
    fix w g w' m'
    assume w: "I (w, g)" "P (w, g)" and st: "astep S i (bind m f) w = Some (w', m')"
    from st rg_Act(2) obtain m1 where m1: "astep S i m w = Some (w', m1)" "m' = bind m1 f"
      by (auto simp: astep_bind)
    from rg_Act(3) [OF w m1(1)] m1(2)
    show "\<exists>g'. I (w', g') \<and> G (w, g) (w', g') \<and> (\<exists>P'. P' (w', g') \<and> rg S i I R G Q' P' m')"
      by blast
  qed
qed

text \<open>An action whose continuation only returns.\<close>

lemma rg_single:
  assumes "stable_under I R P" "\<forall>a. m \<noteq> Ret a"
    and "\<And>w g w' m'. I (w, g) \<Longrightarrow> P (w, g) \<Longrightarrow> astep S i m w = Some (w', m') \<Longrightarrow>
           \<exists>a g'. m' = Ret a \<and> I (w', g') \<and> G (w, g) (w', g') \<and> Q a (w', g')"
    and "\<And>a. stable_under I R (Q a)"
  shows "rg S i I R G Q P m"
proof (rule rg.rg_Act [OF assms(1,2)])
  fix w g w' m'
  assume "I (w, g)" "P (w, g)" "astep S i m w = Some (w', m')"
  from assms(3) [OF this] obtain a g' where
    a: "m' = Ret a" "I (w', g')" "G (w, g) (w', g')" "Q a (w', g')" by blast
  then show "\<exists>g'. I (w', g') \<and> G (w, g) (w', g') \<and> (\<exists>P'. P' (w', g') \<and> rg S i I R G Q P' m')"
    by (intro exI [of _ g'] conjI exI [of _ "Q a"]) (auto intro: rg.rg_Ret assms(4))
qed

lemma rg_ex:
  assumes "\<And>x. rg S i I R G Q (P x) m"
  shows "rg S i I R G Q (\<lambda>s. \<exists>x. P x s) m"
proof -
  have st: "stable_under I R (\<lambda>s. \<exists>x. P x s)"
    by (rule stable_ex) (rule rg_stable [OF assms])
  show ?thesis
  proof (cases "\<exists>a. m = Ret a")
    case True
    then obtain a where a: "m = Ret a" ..
    have "Q a s" if "I s" "P x s" for x s
      using assms [of x, unfolded a] that by (auto elim: rg_RetE)
    with st show ?thesis unfolding a by (blast intro: rg.rg_Ret)
  next
    case False
    then have "\<forall>a. m \<noteq> Ret a" by simp
    from st this show ?thesis
    proof (rule rg.rg_Act)
      fix w g w' m'
      assume "I (w, g)" "\<exists>x. P x (w, g)" and a: "astep S i m w = Some (w', m')"
      then obtain x where "I (w, g)" "P x (w, g)" by blast
      from rg_stepD [OF assms this a]
      show "\<exists>g'. I (w', g') \<and> G (w, g) (w', g') \<and> (\<exists>P'. P' (w', g') \<and> rg S i I R G Q P' m')" .
    qed
  qed
qed

lemma rg_disj:
  assumes "rg S i I R G Q P1 m" "rg S i I R G Q P2 m"
  shows "rg S i I R G Q (\<lambda>s. P1 s \<or> P2 s) m"
proof -
  have "rg S i I R G Q (if b then P1 else P2) m" for b
    using assms by simp
  then have "rg S i I R G Q (\<lambda>s. \<exists>b. (if b then P1 else P2) s) m"
    by (rule rg_ex)
  then show ?thesis
  proof (rule rg_pre)
    show "stable_under I R (\<lambda>s. P1 s \<or> P2 s)"
      by (rule stable_disj [OF rg_stable rg_stable, OF assms])
    show "\<exists>b. (if b then P1 else P2) s" if "P1 s \<or> P2 s" for s
      using that by (metis (full_types))
  qed
qed

lemma rg_False: "rg S i I R G Q (\<lambda>_. False) m"
  by (cases "\<exists>a. m = Ret a") (auto intro: rg.rg_Ret rg.rg_Act)

text \<open>A fact that the precondition fixes once and for all may be used to prove the triple.\<close>

lemma rg_assume:
  assumes "stable_under I R P" "\<And>s. I s \<Longrightarrow> P s \<Longrightarrow> b" "b \<Longrightarrow> rg S i I R G Q P m"
  shows "rg S i I R G Q P m"
proof (cases b)
  case True
  then show ?thesis by (rule assms(3))
next
  case False
  then show ?thesis
    using rg_pre [OF rg_False assms(1)] assms(2) by blast
qed

subsection \<open>The triples of the vocabulary\<close>

lemma astep_vocabulary [simp]:
  "astep S i (locked f) w = (case f (w_prov w) of (p, a) \<Rightarrow> Some (w\<lparr>w_prov := p\<rparr>, Ret a))"
  "astep S i (modify u) w = Some (w\<lparr>w_prov := u (w_prov w)\<rparr>, Ret ())"
  "astep S i (reads h) w = Some (w, Ret (h (w_prov w)))"
  "astep S i lock_save w =
     (if w_saveMu w \<noteq> None then None else Some (w\<lparr>w_saveMu := Some i\<rparr>, Ret ()))"
  "astep S i unlock_save w = Some (w\<lparr>w_saveMu := None\<rparr>, Ret ())"
  "astep S i now w =
     Some (log_event (EvNow (svc_now S (w_trace w))) w, Ret (svc_now S (w_trace w)))"
  "astep S i (range_keys K) w =
     Some (log_event (EvRange (svc_range S (w_trace w) K)) w, Ret (svc_range S (w_trace w) K))"
  "astep S i (client_claim sp) w =
     Some (log_event (EvClaim sp (svc_claim S (w_trace w) sp)) w, Ret (svc_claim S (w_trace w) sp))"
  "astep S i (client_release c x t) w =
     Some (log_event (EvRelease c x t (svc_release S (w_trace w) c x t)) w,
           Ret (svc_release S (w_trace w) c x t))"
  "astep S i lister_sandboxes w =
     Some (log_event (EvList (svc_list S (w_trace w))) w, Ret (svc_list S (w_trace w)))"
  "astep S i (dyn_get g ns n) w =
     Some (log_event (EvGet g ns n (svc_get S (w_trace w) g ns n)) w,
           Ret (svc_get S (w_trace w) g ns n))"
  "astep S i (fs_call op) w =
     Some (log_event (EvFs op (svc_fs S (w_trace w) op)) (fs_effect op (svc_fs S (w_trace w) op) w),
           Ret (svc_fs S (w_trace w) op))"
  "astep S i (call_notifier pd) w = Some (log_event (EvNotify pd) w, Ret ())"
  by (auto simp: locked_def modify_def reads_def lock_save_def unlock_save_def now_def
      range_keys_def client_claim_def client_release_def lister_sandboxes_def dyn_get_def
      fs_call_def call_notifier_def Let_def split: prod.splits)

lemma vocabulary_not_Ret [simp]:
  "locked f \<noteq> Ret a" "modify u \<noteq> Ret b" "reads h \<noteq> Ret c" "lock_save \<noteq> Ret b"
  "unlock_save \<noteq> Ret b" "now \<noteq> Ret t" "range_keys K \<noteq> Ret ks" "client_claim sp \<noteq> Ret r"
  "client_release cc x tk \<noteq> Ret e" "lister_sandboxes \<noteq> Ret l" "dyn_get g ns n \<noteq> Ret o1"
  "fs_call op \<noteq> Ret e" "call_notifier pd \<noteq> Ret b"
  by (simp_all add: locked_def modify_def reads_def lock_save_def unlock_save_def now_def
      range_keys_def client_claim_def client_release_def lister_sandboxes_def dyn_get_def
      fs_call_def call_notifier_def)

lemma rg_for_each:
  assumes "\<And>x a. x \<in> set xs \<Longrightarrow> rg S i I R G (\<lambda>_. J) J (body x a)" "stable_under I R J"
  shows "rg S i I R G (\<lambda>_. J) J (for_each body xs a)"
  using assms(1)
proof (induction xs arbitrary: a)
  case Nil
  then show ?case by (simp add: rg.rg_Ret assms(2))
next
  case (Cons x xs)
  then show ?case by (auto intro: rg_bind [where Q = "\<lambda>_. J"])
qed

subsection \<open>Pools of goroutines\<close>

inductive par_step :: "services \<Rightarrow> world \<times> 'a prog list \<Rightarrow> world \<times> 'a prog list \<Rightarrow> bool" for S where
  par_step: "i < length ts \<Longrightarrow> astep S i (ts ! i) w = Some (w', m') \<Longrightarrow>
     par_step S (w, ts) (w', ts[i := m'])"

inductive_cases par_stepE: "par_step S c c'"

definition others :: "(nat \<Rightarrow> 'g trans) \<Rightarrow> nat \<Rightarrow> 'g trans" where
  "others R i s s' \<longleftrightarrow> (\<forall>j. j \<noteq> i \<longrightarrow> R j s s')"

definition pool_ok ::
    "services \<Rightarrow> 'g assn \<Rightarrow> (nat \<Rightarrow> 'g trans) \<Rightarrow> (nat \<Rightarrow> 'a \<Rightarrow> 'g assn) \<Rightarrow> world \<times> 'a prog list \<Rightarrow> bool" where
  "pool_ok S I R Q c \<longleftrightarrow>
     (\<exists>g. I (fst c, g) \<and> (\<forall>i < length (snd c). \<exists>P. P (fst c, g)
        \<and> rg S i I (R i) (others R i) (Q i) P (snd c ! i)))"

text \<open>A step of a pool keeps the invariant and respects what every other goroutine relies on.\<close>

lemma pool_step_guarantee:
  assumes "par_step S (w, ts) (w', ts')" "pool_ok S I R Q (w, ts)"
  shows "\<exists>i g g'. I (w, g) \<and> I (w', g') \<and> others R i (w, g) (w', g')"
  using assms(1)
proof (cases rule: par_step.cases)
  case (par_step i m')
  with assms(2) obtain g P where g: "I (w, g)" "P (w, g)" "rg S i I (R i) (others R i) (Q i) P (ts ! i)"
    by (auto simp: pool_ok_def)
  from rg_stepD [OF g(3,1,2) par_step(3)] obtain g' where "I (w', g')" "others R i (w, g) (w', g')" by blast
  with g(1) show ?thesis by blast
qed

lemma pool_ok_step:
  assumes "par_step S c c'" "pool_ok S I R Q c"
  shows "pool_ok S I R Q c'"
  using assms(1)
proof (cases rule: par_step.cases)
  case (par_step i ts w w' m')
  from assms(2) par_step(1) obtain g where g: "I (w, g)"
    and ts: "\<And>j. j < length ts \<Longrightarrow>
      \<exists>P. P (w, g) \<and> rg S j I (R j) (others R j) (Q j) P (ts ! j)"
    by (auto simp: pool_ok_def)
  from ts [OF par_step(3)] obtain P where P: "P (w, g)"
    "rg S i I (R i) (others R i) (Q i) P (ts ! i)" by blast
  from rg_stepD [OF P(2) g P(1) par_step(4)] obtain g' P' where P':
    "I (w', g')" "others R i (w, g) (w', g')" "P' (w', g')"
    "rg S i I (R i) (others R i) (Q i) P' m'" by blast
  have "\<exists>P. P (w', g') \<and> rg S j I (R j) (others R j) (Q j) P (ts[i := m'] ! j)"
    if j: "j < length ts" for j
  proof (cases "j = i")
    case True
    with P'(3,4) j show ?thesis by auto
  next
    case False
    from ts [OF j] obtain Pj where Pj: "Pj (w, g)"
      "rg S j I (R j) (others R j) (Q j) Pj (ts ! j)" by blast
    from False P'(2) have "R j (w, g) (w', g')" by (auto simp: others_def)
    with rg_stable [OF Pj(2)] g P'(1) Pj(1) have "Pj (w', g')" by (rule stableD)
    with Pj(2) False show ?thesis by auto
  qed
  with P'(1) show ?thesis by (auto simp: par_step(2) pool_ok_def)
qed

lemma pool_sound:
  assumes "(par_step S)\<^sup>*\<^sup>* c c'" "pool_ok S I R Q c"
  shows "pool_ok S I R Q c'"
  using assms by (induction rule: rtranclp_induct) (auto intro: pool_ok_step)

lemma pool_ok_invariant: "pool_ok S I R Q c \<Longrightarrow> \<exists>g. I (fst c, g)"
  by (auto simp: pool_ok_def)

lemma pool_ok_finished:
  assumes "pool_ok S I R Q c" "\<And>i. i < length (snd c) \<Longrightarrow> \<exists>a. snd c ! i = Ret a"
  shows "\<exists>g. I (fst c, g) \<and> (\<forall>i < length (snd c). \<forall>a. snd c ! i = Ret a \<longrightarrow> Q i a (fst c, g))"
proof -
  from assms(1) obtain g where g: "I (fst c, g)"
    and ts: "\<And>j. j < length (snd c) \<Longrightarrow>
      \<exists>P. P (fst c, g) \<and> rg S j I (R j) (others R j) (Q j) P (snd c ! j)"
    by (auto simp: pool_ok_def)
  have "Q i a (fst c, g)" if i: "i < length (snd c)" "snd c ! i = Ret a" for i a
  proof -
    from ts [OF i(1)] i(2) obtain P where "P (fst c, g)"
      "rg S i I (R i) (others R i) (Q i) P (Ret a)" by auto
    with g show ?thesis by (auto elim: rg_RetE)
  qed
  with g show ?thesis by blast
qed

text \<open>A run with nobody else in between.\<close>

lemma rg_run:
  assumes "rg S 0 I R G Q P m" "I (w, g)" "P (w, g)" "run S m w = Some (a, w')"
  shows "\<exists>g'. I (w', g') \<and> Q a (w', g')"
  using assms
proof (induction arbitrary: w g rule: rg.induct)
  case (rg_Ret P b)
  then show ?case by auto
next
  case (rg_Act P m)
  show ?case
  proof (cases "astep S 0 m w")
    case None
    have "run S m w = None"
      using run_stuck [OF None] rg_Act.hyps(2) by (auto split: prog.splits)
    with rg_Act.prems(3) show ?thesis by simp
  next
    case (Some x)
    obtain w1 m1 where x: "x = (w1, m1)" by (cases x)
    from rg_Act.IH [OF rg_Act.prems(1,2) Some [unfolded x]] obtain g1 P' where
      "I (w1, g1)" "P' (w1, g1)"
      and ih: "\<And>w g. I (w, g) \<Longrightarrow> P' (w, g) \<Longrightarrow> run S m1 w = Some (a, w') \<Longrightarrow>
        \<exists>g'. I (w', g') \<and> Q a (w', g')"
      by blast
    moreover have "run S m1 w1 = Some (a, w')"
      using run_astep [OF Some [unfolded x]] rg_Act.prems(3) by simp
    ultimately show ?thesis by blast
  qed
qed

end
