(* ===== verification/Demo_Node.thy ===== *)
theory Demo_Node
  imports Handler_Prog "HOL-Library.List_Lexorder" "HOL-Library.Char_ord"
begin

text \<open>
  A concrete node on which the theorems of the development are instantiated: services that hand out
  ids that never repeat, enumerate maps in key order and list what was claimed, and a Pod that asks
  for a sandbox.
\<close>

subsection \<open>The services\<close>

fun id_length :: "event \<Rightarrow> nat" where
  "id_length (EvClaim sp (Inr res)) = length (cr_id res)"
| "id_length _ = 0"

fun listed_row :: "event \<Rightarrow> sandbox_summary option" where
  "listed_row (EvClaim sp (Inr res)) =
     Some \<lparr>ss_id = cr_id res, ss_claimRef = sp_claimRef sp, ss_deadline = cr_deadline res\<rparr>"
| "listed_row _ = None"

definition demo_claim :: "event list \<Rightarrow> claim_spec \<Rightarrow> err + claim_result" where
  "demo_claim h sp =
     Inr \<lparr>cr_id = replicate (Suc (sum_list (map id_length h))) CHR ''x'', cr_token = ''t'',
          cr_ownerAddr = ''10.0.0.7:8080'', cr_deadline = 0\<rparr>"

definition demo :: services where
  "demo =
     \<lparr>svc_now = (\<lambda>h. second * (1 + int (length h))), svc_range = (\<lambda>h. sorted_list_of_set),
      svc_claim = demo_claim, svc_release = (\<lambda>h c i t. None),
      svc_list = (\<lambda>h. Inr (List.map_filter listed_row h)),
      svc_get = (\<lambda>h g ns n. Inl \<lparr>ae_notFound = True, ae_status = Some (Some n), ae_text = ''404''\<rparr>),
      svc_fs = (\<lambda>h op. None), svc_read = (\<lambda>h. None)\<rparr>"

lemma demo_ranges: "map_ranges demo"
  by (simp add: map_ranges_def demo_def)

definition demo_blank :: provider where
  "demo_blank =
     \<lparr>pv_lister = True, pv_dyn = True, pv_statePath = ''/s'',
      pv_pods = Map.empty, pv_claims = Map.empty, pv_notifier = True,
      pv_tentative = {}, pv_quarantined = {}, pv_releasing = [],
      pv_orphanVerdicts = Map.empty, pv_ownerRechecks = Map.empty\<rparr>"

definition demo_world :: world where
  "demo_world = \<lparr>w_prov = demo_blank, w_saveMu = None, w_disk = None,
     w_tmp = None, w_trace = []\<rparr>"

definition demo_ext :: ext where
  "demo_ext = \<lparr>parse_group_version = (\<lambda>s. Some ('''', s)), format_rfc3339 = (\<lambda>t. ''then''),
     selector_template_key = ''template'', selector_net_key = ''net'', selector_size_key = ''size'',
     sandbox_condition_ready = ''Ready'', sandbox_reason_expired = ''SandboxExpired''\<rparr>"

definition no_status :: pod_status where
  "no_status = \<lparr>ps_phase = PodPending, ps_reason = '''', ps_message = '''', ps_hostIP = '''',
     ps_podIP = '''', ps_podIPs = [], ps_startTime = None, ps_conditions = [],
     ps_containerStatuses = []\<rparr>"

definition demo_pod :: pod where
  "demo_pod = \<lparr>pod_namespace = ''ns'', pod_name = ''a'', pod_uid = ''u1'',
     pod_annotations = [''template'' \<mapsto> ''py''], pod_controller = None,
     pod_containers = [\<lparr>ctr_name = ''main'', ctr_image = ''img''\<rparr>], pod_status = no_status\<rparr>"

definition demo_claimed :: claim where
  "demo_claimed = \<lparr>cl_id = ''x'', cl_token = ''t'', cl_address = ''10.0.0.7:8080'', cl_podUID = ''u1'',
     cl_authority = Some ''u1'', cl_claimedAt = second * 7, cl_deadline = 0, cl_owner = None\<rparr>"

lemma demo_sel [simp]:
  "svc_now demo h = second * (1 + int (length h))" "svc_range demo h K = sorted_list_of_set K"
  "svc_claim demo h sp = demo_claim h sp" "svc_release demo h c i t = None"
  "svc_list demo h = Inr (List.map_filter listed_row h)"
  "svc_get demo h g ns n = Inl \<lparr>ae_notFound = True, ae_status = Some (Some n), ae_text = ''404''\<rparr>"
  "svc_fs demo h op = None" "svc_read demo h = None"
  by (simp_all add: demo_def)

lemma demo_pod_sel [simp]:
  "pod_namespace demo_pod = ''ns''" "pod_name demo_pod = ''a''" "pod_uid demo_pod = ''u1''"
  "pod_controller demo_pod = None" "pod_annotations demo_pod = [''template'' \<mapsto> ''py'']"
  by (simp_all add: demo_pod_def)

text \<open>
  A node that was restarted with two rows, of which sandboxd still lists one, and a sandboxd that
  does not answer.
\<close>

definition demo_loaded :: world where
  "demo_loaded = demo_world\<lparr>w_prov := demo_blank\<lparr>
     pv_claims := [''ns/a'' \<mapsto> demo_claimed, ''ns/b'' \<mapsto> demo_claimed\<lparr>cl_id := ''y''\<rparr>],
     pv_quarantined := {''ns/a'', ''ns/b''}\<rparr>\<rparr>"

definition demo_listing :: services where
  "demo_listing = demo\<lparr>svc_list := (\<lambda>h. Inr [\<lparr>ss_id = ''x'', ss_claimRef = ''ns/a'', ss_deadline = 9 * second\<rparr>])\<rparr>"

definition demo_down :: services where
  "demo_down = demo\<lparr>svc_list := (\<lambda>h. Inl ''down''), svc_claim := (\<lambda>h sp. Inl ''down''),
     svc_release := (\<lambda>h c i t. Some ''down'')\<rparr>"

lemma demo_variant_ranges: "map_ranges demo_listing" "map_ranges demo_down"
  by (simp_all add: map_ranges_def demo_listing_def demo_down_def)

text \<open>A node on which the Pod has its sandbox.\<close>

definition demo_held :: world where
  "demo_held = demo_world\<lparr>w_prov := demo_blank\<lparr>
     pv_claims := [''ns/a'' \<mapsto> demo_claimed], pv_pods := [''ns/a'' \<mapsto> demo_pod]\<rparr>\<rparr>"

lemma demo_world_sel [simp]:
  "w_prov demo_world = demo_blank" "w_saveMu demo_world = None" "w_disk demo_world = None"
  "w_trace demo_world = []"
  by (simp_all add: demo_world_def)

lemma demo_held_sel [simp]:
  "pv_claims (w_prov demo_held) = [''ns/a'' \<mapsto> demo_claimed]"
  "pv_pods (w_prov demo_held) = [''ns/a'' \<mapsto> demo_pod]"
  "pv_tentative (w_prov demo_held) = {}" "pv_quarantined (w_prov demo_held) = {}"
  "pv_statePath (w_prov demo_held) = ''/s''" "pv_lister (w_prov demo_held)" "pv_dyn (w_prov demo_held)"
  "pv_notifier (w_prov demo_held)" "pv_releasing (w_prov demo_held) = []"
  "w_saveMu demo_held = None" "w_trace demo_held = []"
  by (simp_all add: demo_held_def demo_blank_def)

text \<open>A Pod with a controlling owner, on a node whose apiserver reports that owner alive.\<close>

definition demo_owner :: owner_ref where
  "demo_owner = \<lparr>or_apiVersion = ''v1'', or_kind = ''Sandbox'', or_name = ''o'', or_uid = ''ou''\<rparr>"

definition demo_owned :: pod where
  "demo_owned = demo_pod\<lparr>pod_controller := Some demo_owner\<rparr>"

definition demo_alive :: services where
  "demo_alive = demo\<lparr>svc_get := (\<lambda>h g ns n. Inr \<lparr>oo_deletionTimestamp = None, oo_uid = ''ou'', oo_conditions = []\<rparr>)\<rparr>"

text \<open>A node whose Pod was deleted while its owner lived.\<close>

definition demo_preserved :: world where
  "demo_preserved = demo_held\<lparr>w_prov := (w_prov demo_held)\<lparr>
     pv_claims := [''ns/a'' \<mapsto> demo_claimed\<lparr>cl_owner := Some demo_owner\<rparr>], pv_pods := Map.empty\<rparr>\<rparr>"

lemma demo_preserved_sel [simp]: "w_saveMu demo_preserved = None" "w_trace demo_preserved = []"
  by (simp_all add: demo_preserved_def)

text \<open>A node whose Pod has outlived its lease.\<close>

definition demo_expired :: world where
  "demo_expired = demo_held\<lparr>w_prov := (w_prov demo_held)\<lparr>pv_claims := [''ns/a'' \<mapsto> demo_claimed\<lparr>cl_deadline := 1\<rparr>]\<rparr>\<rparr>"

end
