(* ===== verification/State_File.thy ===== *)
theory State_File
  imports Demo_Node
begin

text \<open>
  The JSON document of the claims table (\<^verbatim>\<open>Claim\<close> and \<^verbatim>\<open>stateFile\<close> of
  \<^verbatim>\<open>provider/provider.go\<close>, by their struct tags): what \<^verbatim>\<open>json.Marshal\<close> writes for a table and
  what \<^verbatim>\<open>json.Unmarshal\<close> reads back. The document is a JSON value; its concrete text is left to
  \<^verbatim>\<open>encoding/json\<close>. A \<^verbatim>\<open>metav1.Time\<close> is written with a resolution of one second (\<^const>\<open>JTime\<close>), so
  reading a table back truncates its times and changes nothing else.
  Keys are matched as the struct tags spell them, which is how the program writes them, and \<^const>\<open>JTime\<close> occurs
  at the time fields only.
\<close>

subsection \<open>Marshal\<close>

definition omit_empty :: "string \<Rightarrow> string \<Rightarrow> (string \<times> json) list" where
  "omit_empty k s = (if s = '''' then [] else [(k, JString s)])"

definition omit_zero :: "string \<Rightarrow> gtime \<Rightarrow> (string \<times> json) list" where
  "omit_zero k t = (if t = 0 then [] else [(k, JTime (t div second))])"

definition omit_nil :: "string \<Rightarrow> json option \<Rightarrow> (string \<times> json) list" where
  "omit_nil k v = (case v of None \<Rightarrow> [] | Some j \<Rightarrow> [(k, j)])"

definition encode_owner :: "owner_ref \<Rightarrow> json" where
  "encode_owner r =
     JObject [(''apiVersion'', JString (or_apiVersion r)), (''kind'', JString (or_kind r)),
              (''name'', JString (or_name r)), (''uid'', JString (or_uid r))]"

definition encode_claim :: "claim \<Rightarrow> json" where
  "encode_claim c =
     JObject ([(''id'', JString (cl_id c)), (''token'', JString (cl_token c))]
       @ omit_empty ''address'' (cl_address c)
       @ [(''podUID'', JString (cl_podUID c))]
       @ omit_nil ''authority'' (map_option JString (cl_authority c))
       @ omit_zero ''claimedAt'' (cl_claimedAt c)
       @ omit_zero ''deadline'' (cl_deadline c)
       @ omit_nil ''owner'' (map_option encode_owner (cl_owner c)))"

text \<open>\<open>ks\<close> is the order in which the encoder writes the keys of the claims map.\<close>

definition encode_claims :: "string list \<Rightarrow> (string \<rightharpoonup> claim) \<Rightarrow> (string \<times> json) list" where
  "encode_claims ks m =
     List.map_filter (\<lambda>k. map_option (\<lambda>c. (k, encode_claim c)) (m k)) ks"

definition encode_state :: "string list \<Rightarrow> state_file \<Rightarrow> json" where
  "encode_state ks st =
     JObject ([(''claims'', JObject (encode_claims ks (sf_claims st)))]
       @ (if sf_releasing st = [] then []
          else [(''releasing'', JArray (map encode_claim (sf_releasing st)))]))"

subsection \<open>Unmarshal\<close>

text \<open>A later duplicate of a field wins; a missing field and \<open>null\<close> leave the zero value.\<close>

definition field :: "string \<Rightarrow> (string \<times> json) list \<Rightarrow> json" where
  "field k kvs = (case map_of (rev kvs) k of None \<Rightarrow> JNull | Some j \<Rightarrow> j)"

fun decode_string :: "json \<Rightarrow> string option" where
  "decode_string JNull = Some ''''"
| "decode_string (JString s) = Some s"
| "decode_string _ = None"

fun decode_time :: "json \<Rightarrow> gtime option" where
  "decode_time JNull = Some 0"
| "decode_time (JTime s) = Some (s * second)"
| "decode_time _ = None"

fun decode_ptr :: "(json \<Rightarrow> 'a option) \<Rightarrow> json \<Rightarrow> 'a option option" where
  "decode_ptr dec JNull = Some None"
| "decode_ptr dec j = map_option Some (dec j)"

fun decode_owner :: "json \<Rightarrow> owner_ref option" where
  "decode_owner (JObject kvs) =
     Option.bind (decode_string (field ''apiVersion'' kvs)) (\<lambda>av.
     Option.bind (decode_string (field ''kind'' kvs)) (\<lambda>kd.
     Option.bind (decode_string (field ''name'' kvs)) (\<lambda>nm.
     Option.bind (decode_string (field ''uid'' kvs)) (\<lambda>u.
     Some \<lparr>or_apiVersion = av, or_kind = kd, or_name = nm, or_uid = u\<rparr>))))"
| "decode_owner _ = None"

definition decode_claim_fields :: "(string \<times> json) list \<Rightarrow> claim option" where
  "decode_claim_fields kvs =
     Option.bind (decode_string (field ''id'' kvs)) (\<lambda>i.
     Option.bind (decode_string (field ''token'' kvs)) (\<lambda>t.
     Option.bind (decode_string (field ''address'' kvs)) (\<lambda>a.
     Option.bind (decode_string (field ''podUID'' kvs)) (\<lambda>u.
     Option.bind (decode_ptr decode_string (field ''authority'' kvs)) (\<lambda>au.
     Option.bind (decode_time (field ''claimedAt'' kvs)) (\<lambda>ca.
     Option.bind (decode_time (field ''deadline'' kvs)) (\<lambda>d.
     Option.bind (decode_ptr decode_owner (field ''owner'' kvs)) (\<lambda>ow.
     Some \<lparr>cl_id = i, cl_token = t, cl_address = a, cl_podUID = u, cl_authority = au,
           cl_claimedAt = ca, cl_deadline = d, cl_owner = ow\<rparr>))))))))"

fun decode_claim :: "json \<Rightarrow> claim option" where
  "decode_claim JNull = decode_claim_fields []"
| "decode_claim (JObject kvs) = decode_claim_fields kvs"
| "decode_claim _ = None"

fun decode_list :: "(json \<Rightarrow> 'a option) \<Rightarrow> json list \<Rightarrow> 'a list option" where
  "decode_list dec [] = Some []"
| "decode_list dec (j # js) =
     Option.bind (dec j) (\<lambda>x. map_option (\<lambda>xs. x # xs) (decode_list dec js))"

fun decode_claims :: "json \<Rightarrow> (string \<rightharpoonup> claim) option" where
  "decode_claims JNull = Some Map.empty"
| "decode_claims (JObject kvs) =
     map_option (\<lambda>cs. map_of (rev (zip (map fst kvs) cs))) (decode_list decode_claim (map snd kvs))"
| "decode_claims _ = None"

fun decode_releasing :: "json \<Rightarrow> claim list option" where
  "decode_releasing JNull = Some []"
| "decode_releasing (JArray js) = decode_list decode_claim js"
| "decode_releasing _ = None"

fun decode_state :: "json \<Rightarrow> state_file option" where
  "decode_state JNull = Some \<lparr>sf_claims = Map.empty, sf_releasing = []\<rparr>"
| "decode_state (JObject kvs) =
     Option.bind (decode_claims (field ''claims'' kvs)) (\<lambda>cs.
     Option.bind (decode_releasing (field ''releasing'' kvs)) (\<lambda>rs.
     Some \<lparr>sf_claims = cs, sf_releasing = rs\<rparr>))"
| "decode_state _ = None"

subsection \<open>The round trip\<close>

definition trunc_second :: "gtime \<Rightarrow> gtime" where
  "trunc_second t = t div second * second"

definition trunc_claim :: "claim \<Rightarrow> claim" where
  "trunc_claim c =
     c\<lparr>cl_claimedAt := trunc_second (cl_claimedAt c), cl_deadline := trunc_second (cl_deadline c)\<rparr>"

definition trunc_state :: "state_file \<Rightarrow> state_file" where
  "trunc_state st =
     \<lparr>sf_claims = map_option trunc_claim \<circ> sf_claims st,
      sf_releasing = map trunc_claim (sf_releasing st)\<rparr>"

lemma trunc_claim_sel [simp]:
  "cl_id (trunc_claim c) = cl_id c"
  "cl_token (trunc_claim c) = cl_token c"
  "cl_address (trunc_claim c) = cl_address c"
  "cl_podUID (trunc_claim c) = cl_podUID c"
  "cl_authority (trunc_claim c) = cl_authority c"
  "cl_owner (trunc_claim c) = cl_owner c"
  by (simp_all add: trunc_claim_def)

lemma decode_encode_owner: "decode_owner (encode_owner r) = Some r"
  by (simp add: encode_owner_def field_def)

lemma decode_encode_owner_ptr:
  "decode_ptr decode_owner (encode_owner r) = Some (Some r)"
  using decode_encode_owner [of r] by (simp add: encode_owner_def del: decode_owner.simps)

lemma decode_encode_claim: "decode_claim (encode_claim c) = Some (trunc_claim c)"
  by (cases "cl_authority c"; cases "cl_owner c")
    (simp_all add: encode_claim_def decode_claim_fields_def field_def omit_empty_def omit_zero_def
      omit_nil_def decode_encode_owner_ptr trunc_claim_def trunc_second_def)

lemma decode_list_map:
  "(\<And>x. x \<in> set xs \<Longrightarrow> dec (enc x) = Some (f x)) \<Longrightarrow>
     decode_list dec (map enc xs) = Some (map f xs)"
  by (induction xs) auto

lemma encode_claims_map:
  "set ks \<subseteq> dom m \<Longrightarrow> encode_claims ks m = map (\<lambda>k. (k, encode_claim (the (m k)))) ks"
  by (induction ks) (auto simp: encode_claims_def List.map_filter_simps)

lemma decode_encode_claims:
  assumes "set ks = dom m"
  shows "decode_claims (JObject (encode_claims ks m)) = Some (map_option trunc_claim \<circ> m)"
proof -
  let ?f = "\<lambda>k. trunc_claim (the (m k))"
  have enc: "encode_claims ks m = map (\<lambda>k. (k, encode_claim (the (m k)))) ks"
    using assms by (simp add: encode_claims_map)
  have "decode_list decode_claim (map (\<lambda>k. encode_claim (the (m k))) ks) = Some (map ?f ks)"
    by (rule decode_list_map) (simp add: decode_encode_claim)
  then have "decode_claims (JObject (encode_claims ks m))
      = Some (map_of (rev (zip ks (map ?f ks))))"
    by (simp add: enc comp_def)
  also have "map_of (rev (zip ks (map ?f ks))) = map_of (map (\<lambda>k. (k, ?f k)) (rev ks))"
    by (simp add: zip_map2 zip_same_conv_map rev_map comp_def)
  also have "\<dots> = map_option trunc_claim \<circ> m"
    using assms by (auto simp: map_of_map_restrict fun_eq_iff restrict_map_def dom_def)
  finally show ?thesis .
qed

lemma decode_encode_releasing:
  "decode_releasing (JArray (map encode_claim rs)) = Some (map trunc_claim rs)"
  by (simp add: decode_list_map decode_encode_claim)

lemma decode_encode_state:
  assumes "set ks = dom (sf_claims st)"
  shows "decode_state (encode_state ks st) = Some (trunc_state st)"
  using decode_encode_claims [OF assms] decode_encode_releasing [of "sf_releasing st"]
  by (cases "sf_releasing st") (simp_all add: encode_state_def field_def trunc_state_def
      del: decode_claims.simps(2) decode_releasing.simps(2))

lemma trunc_second_idem [simp]: "trunc_second (trunc_second t) = trunc_second t"
  by (simp add: trunc_second_def second_def)

lemma trunc_second_le: "trunc_second t \<le> t" "t < trunc_second t + second"
  by (simp_all add: trunc_second_def second_def)

lemma decode_state_finite: "decode_state j = Some st \<Longrightarrow> finite (dom (sf_claims st))"
proof -
  have "finite (dom cs)" if "decode_claims x = Some cs" for x cs
    using that by (cases x) (auto simp: finite_dom_map_of)
  then show "decode_state j = Some st \<Longrightarrow> finite (dom (sf_claims st))"
    by (cases j) (auto simp: Option.bind_eq_Some_conv)
qed

subsection \<open>The contract of the document\<close>

text \<open>
  What the store relies on: a document written for a table reads back as that table, up to a
  normalisation of its times that loses no key, no credential and no queued claim, and that a second
  round does not continue.
\<close>

locale table_codec =
  fixes enc :: "string list \<Rightarrow> state_file \<Rightarrow> json" and dec :: "json \<Rightarrow> state_file option"
    and norm :: "state_file \<Rightarrow> state_file"
  assumes reads_back: "set ks = dom (sf_claims st) \<Longrightarrow> dec (enc ks st) = Some (norm st)"
    and norm_keys: "dom (sf_claims (norm st)) = dom (sf_claims st)"
    and norm_twice: "norm (norm st) = norm st"
begin

lemma no_drift:
  assumes "set ks = dom (sf_claims st)" "dec (enc ks st) = Some st'" "set ks' = dom (sf_claims st')"
  shows "dec (enc ks' st') = Some st'"
  using assms reads_back norm_twice by auto

end

lemma trunc_state_idem: "trunc_state (trunc_state st) = trunc_state st"
proof -
  have "trunc_claim (trunc_claim c) = trunc_claim c" for c by (simp add: trunc_claim_def)
  then show ?thesis by (simp add: trunc_state_def fun_eq_iff option.map_comp comp_def)
qed

interpretation doc: table_codec encode_state decode_state trunc_state
  by unfold_locales (auto simp: decode_encode_state trunc_state_idem, auto simp: trunc_state_def)

text \<open>
  The claims table survives its JSON document. A table read back has the same keys, the same
  claims and the same release queue, with times truncated to seconds, and writing and reading the
  result once more changes nothing.
\<close>

lemma state_roundtrip:
  assumes "set ks = dom (sf_claims st)"
  shows "\<exists>st'. decode_state (encode_state ks st) = Some st'
    \<and> (\<forall>k. sf_claims st' k = map_option trunc_claim (sf_claims st k))
    \<and> sf_releasing st' = map trunc_claim (sf_releasing st)
    \<and> (\<forall>ks'. set ks' = dom (sf_claims st') \<longrightarrow> decode_state (encode_state ks' st') = Some st')"
proof (intro exI [of _ "trunc_state st"] conjI allI impI)
  show "decode_state (encode_state ks st) = Some (trunc_state st)" by (rule doc.reads_back [OF assms])
  then show "decode_state (encode_state ks' (trunc_state st)) = Some (trunc_state st)"
    if "set ks' = dom (sf_claims (trunc_state st))" for ks'
    using that by (intro doc.no_drift [OF assms])
qed (simp_all add: trunc_state_def)

lemma state_roundtrip_witness:
  "\<exists>st'. decode_state (encode_state [''ns/a''] \<lparr>sf_claims = [''ns/a'' \<mapsto> demo_claimed], sf_releasing = []\<rparr>) = Some st'
    \<and> sf_claims st' ''ns/a'' = Some (trunc_claim demo_claimed)"
  using state_roundtrip [of "[''ns/a'']" "\<lparr>sf_claims = [''ns/a'' \<mapsto> demo_claimed], sf_releasing = []\<rparr>"]
  by auto

end
