(* ===== verification/Claims_Table.thy ===== *)
theory Claims_Table
  imports State_File
begin

text \<open>
  The claims table (\<^verbatim>\<open>provider/provider.go\<close>): the rows and their markers, the critical sections that
  read and change them, the persistence of the table, the verification of a reloaded table
  against the node, and the construction of a provider.
  A section under \<open>mu\<close> is a function on \<^typ>\<open>provider\<close>; a method that leaves \<open>mu\<close> or calls the
  outside is a \<^typ>\<open>unit prog\<close> or a program with a result.
\<close>

named_theorems table_defs \<open>the critical sections of the claims table\<close>

subsection \<open>Claims\<close>

definition claim_expired :: "claim \<Rightarrow> gtime \<Rightarrow> bool" where
  "claim_expired c t = (cl_deadline c \<noteq> 0 \<and> \<not> t < cl_deadline c)"

definition authority_of :: "pod \<Rightarrow> string" where
  "authority_of pd = (case pod_controller pd of Some r \<Rightarrow> or_uid r | None \<Rightarrow> pod_uid pd)"

definition adoptable_by :: "claim \<Rightarrow> pod \<Rightarrow> bool" where
  "adoptable_by c pd =
     (let want = (case cl_owner c of Some r \<Rightarrow> Some (or_uid r) | None \<Rightarrow> cl_authority c)
      in want = None \<or> cl_podUID c = pod_uid pd \<or> want = Some (authority_of pd))"

definition pod_key :: "string \<Rightarrow> string \<Rightarrow> string" where
  "pod_key namespace name = namespace @ ''/'' @ name"

subsection \<open>Critical sections\<close>

definition settled :: "provider \<Rightarrow> string \<Rightarrow> bool" where
  "settled p key = (key \<notin> pv_tentative p \<and> key \<notin> pv_quarantined p)"

definition claim_for :: "string \<Rightarrow> provider \<Rightarrow> claim option" where
  "claim_for key p = (if \<not> settled p key then None else pv_claims p key)"

definition held_claim_for :: "string \<Rightarrow> provider \<Rightarrow> claim option" where
  "held_claim_for key p = pv_claims p key"

definition pod_uid_is_current :: "string \<Rightarrow> pod \<Rightarrow> provider \<Rightarrow> bool" where
  "pod_uid_is_current key pd p =
     (case pv_pods p key of None \<Rightarrow> True | Some cur \<Rightarrow> pod_uid cur = pod_uid pd)"

definition drop_claim :: "string \<Rightarrow> string \<Rightarrow> provider \<Rightarrow> provider" where
  "drop_claim key i p =
     (case pv_claims p key of
        Some c \<Rightarrow> if cl_id c = i then p\<lparr>pv_claims := (pv_claims p)(key := None)\<rparr> else p
      | None \<Rightarrow> p)"

definition refresh_deadline :: "string \<Rightarrow> string \<Rightarrow> gtime \<Rightarrow> provider \<Rightarrow> provider" where
  "refresh_deadline key i deadline p =
     (case pv_claims p key of
        Some c \<Rightarrow>
          if cl_id c = i
          then p\<lparr>pv_claims := (pv_claims p)(key \<mapsto> c\<lparr>cl_deadline := deadline\<rparr>)\<rparr> else p
      | None \<Rightarrow> p)"

definition has_quarantined :: "provider \<Rightarrow> bool" where
  "has_quarantined p = (pv_quarantined p \<noteq> {})"

definition quarantine_loaded_claims :: "provider \<Rightarrow> provider" where
  "quarantine_loaded_claims p = p\<lparr>pv_quarantined := pv_quarantined p \<union> dom (pv_claims p)\<rparr>"

definition clear_tentative :: "string \<Rightarrow> provider \<Rightarrow> provider" where
  "clear_tentative key p = p\<lparr>pv_tentative := pv_tentative p - {key}\<rparr>"

definition set_notifier :: "provider \<Rightarrow> provider" where
  "set_notifier p = p\<lparr>pv_notifier := True\<rparr>"

definition live_deadlines :: "sandbox_summary list \<Rightarrow> (string \<rightharpoonup> gtime)" where
  "live_deadlines listed = foldl (\<lambda>live s. live(ss_id s \<mapsto> ss_deadline s)) Map.empty listed"

definition claim_address_row ::
    "(string \<rightharpoonup> claim) \<Rightarrow> string \<Rightarrow> (string \<rightharpoonup> string) \<Rightarrow> (string \<rightharpoonup> string)" where
  "claim_address_row m k out =
     (case m k of
        Some c \<Rightarrow> if cl_address c \<noteq> '''' then out(cl_id c \<mapsto> cl_address c) else out
      | None \<Rightarrow> out)"

definition claim_addresses :: "(string \<rightharpoonup> string) prog" where
  "claim_addresses =
     bind (reads pv_claims) (\<lambda>m.
     bind (range_keys (dom m)) (\<lambda>ks.
     Ret (fold (claim_address_row m) ks Map.empty)))"

definition notify :: "pod \<Rightarrow> unit prog" where
  "notify pd = bind (reads pv_notifier) (\<lambda>n. if n then call_notifier pd else Ret ())"

subsection \<open>Persistence\<close>

definition snapshot :: "string \<Rightarrow> provider \<Rightarrow> state_file" where
  "snapshot committing p =
     \<lparr>sf_claims = (\<lambda>k. if k \<notin> pv_tentative p \<or> k = committing then pv_claims p k else None),
      sf_releasing = pv_releasing p\<rparr>"

definition write_state :: "string \<Rightarrow> save_error option prog" where
  "write_state committing =
     bind (reads pv_statePath) (\<lambda>path.
     if path = '''' then Ret None else
     bind (reads (snapshot committing)) (\<lambda>st.
     bind (range_keys (dom (sf_claims st))) (\<lambda>ks.
     bind (fs_call MkdirAll) (\<lambda>r1. case r1 of Some e \<Rightarrow> Ret (Some (MkdirFailed e)) | None \<Rightarrow>
     bind (fs_call (WriteTmp (encode_state ks st))) (\<lambda>r2.
       case r2 of Some e \<Rightarrow> Ret (Some (WriteFailed e)) | None \<Rightarrow>
     bind (fs_call RenameTmp) (\<lambda>r3.
       case r3 of Some e \<Rightarrow> Ret (Some (RenameFailed e)) | None \<Rightarrow> Ret None))))))"

definition persist :: "save_error option prog" where
  "persist =
     bind lock_save (\<lambda>_. bind (write_state '''') (\<lambda>r. bind unlock_save (\<lambda>_. Ret r)))"

definition save_state :: "unit prog" where
  "save_state = bind persist (\<lambda>_. Ret ())"

definition commit_claim :: "string \<Rightarrow> save_error option prog" where
  "commit_claim key =
     bind lock_save (\<lambda>_.
     bind (write_state key) (\<lambda>r.
       case r of
         Some e \<Rightarrow> bind unlock_save (\<lambda>_. Ret (Some e))
       | None \<Rightarrow>
           bind (modify (clear_tentative key)) (\<lambda>_. bind unlock_save (\<lambda>_. Ret None))))"

definition backfill_claimed_at :: "gtime \<Rightarrow> claim \<Rightarrow> claim" where
  "backfill_claimed_at t c = (if cl_claimedAt c = 0 then c\<lparr>cl_claimedAt := t\<rparr> else c)"

text \<open>\<^verbatim>\<open>st.Claims == nil\<close>: the document has no claims object.\<close>

fun claims_nil :: "json \<Rightarrow> bool" where
  "claims_nil (JObject kvs) = (field ''claims'' kvs = JNull)"
| "claims_nil _ = True"

definition install_releasing :: "state_file \<Rightarrow> provider \<Rightarrow> provider" where
  "install_releasing st p = p\<lparr>pv_releasing := sf_releasing st\<rparr>"

definition install_claims :: "gtime \<Rightarrow> state_file \<Rightarrow> provider \<Rightarrow> provider" where
  "install_claims t st p = p\<lparr>pv_claims := map_option (backfill_claimed_at t) \<circ> sf_claims st\<rparr>"

definition load_state :: "new_error option prog" where
  "load_state =
     bind (reads pv_statePath) (\<lambda>path.
     if path = '''' then Ret None else
     bind read_file (\<lambda>r.
       case r of
         Inl e \<Rightarrow> Ret (Some (ErrReadState e))
       | Inr None \<Rightarrow> Ret None
       | Inr (Some j) \<Rightarrow>
           (case decode_state j of
              None \<Rightarrow> Ret (Some ErrDecodeState)
            | Some st \<Rightarrow>
                bind (modify (install_releasing st)) (\<lambda>_.
                if claims_nil j then Ret None else
                bind now (\<lambda>t. bind (modify (install_claims t st)) (\<lambda>_. Ret None))))))"

subsection \<open>Verification against the node\<close>

definition verify_snapshot :: "provider \<Rightarrow> (string \<rightharpoonup> string)" where
  "verify_snapshot p =
     (\<lambda>k. if k \<in> pv_quarantined p then map_option cl_id (pv_claims p k) else None)"

definition verify_row ::
    "(string \<rightharpoonup> gtime) \<Rightarrow> (string \<rightharpoonup> string) \<Rightarrow> string \<Rightarrow> provider \<Rightarrow> provider" where
  "verify_row live before key p =
     (case before key of
        None \<Rightarrow> p
      | Some i \<Rightarrow>
          (case pv_claims p key of
             None \<Rightarrow> p
           | Some c \<Rightarrow>
               if cl_id c \<noteq> i then p
               else case live i of
                 Some rowDeadline \<Rightarrow>
                   (let p' = (if cl_deadline c = 0 \<and> rowDeadline \<noteq> 0
                              then p\<lparr>pv_claims :=
                                     (pv_claims p)(key \<mapsto> c\<lparr>cl_deadline := rowDeadline\<rparr>)\<rparr>
                              else p)
                    in p'\<lparr>pv_quarantined := pv_quarantined p' - {key}\<rparr>)
               | None \<Rightarrow>
                   p\<lparr>pv_claims := (pv_claims p)(key := None),
                     pv_quarantined := pv_quarantined p - {key}\<rparr>))"

definition verify_claims_against_node :: "bool prog" where
  "verify_claims_against_node =
     bind (reads pv_lister) (\<lambda>lister.
     if \<not> lister then Ret False else
     bind (reads verify_snapshot) (\<lambda>before.
     if dom before = {} then Ret True else
     bind lister_sandboxes (\<lambda>r.
       case r of
         Inl e \<Rightarrow> Ret False
       | Inr listed \<Rightarrow>
           bind (range_keys (dom before)) (\<lambda>ks.
           bind (modify (fold (verify_row (live_deadlines listed) before) ks)) (\<lambda>_.
           Ret True)))))"

subsection \<open>Construction\<close>

definition init_provider :: "bool \<Rightarrow> bool \<Rightarrow> string \<Rightarrow> provider" where
  "init_provider lister dyn path =
     \<lparr>pv_lister = lister, pv_dyn = dyn, pv_statePath = path,
      pv_pods = Map.empty, pv_claims = Map.empty, pv_notifier = False,
      pv_tentative = {}, pv_quarantined = {}, pv_releasing = [],
      pv_orphanVerdicts = Map.empty, pv_ownerRechecks = Map.empty\<rparr>"

definition new_provider :: "bool \<Rightarrow> bool \<Rightarrow> string \<Rightarrow> new_error option prog" where
  "new_provider lister dyn path =
     bind (modify (\<lambda>_. init_provider lister dyn path)) (\<lambda>_.
     check load_state (
     bind (if lister
           then bind (modify quarantine_loaded_claims) (\<lambda>_.
                bind verify_claims_against_node (\<lambda>_. Ret ()))
           else Ret ()) (\<lambda>_.
     bind persist (\<lambda>r. Ret (map_option ErrNotWritable r)))))"

subsection \<open>How the operations run\<close>

text \<open>
  A write of the table always returns; it changes no memory, and the state file only if it
  succeeds, which then holds the snapshot.
\<close>

definition wrote :: "string \<Rightarrow> services \<Rightarrow> world \<Rightarrow> save_error option \<Rightarrow> world \<Rightarrow> bool" where
  "wrote key S w r w' \<longleftrightarrow>
     w_prov w' = w_prov w \<and> w_saveMu w' = w_saveMu w
     \<and> (r \<noteq> None \<longrightarrow> w_disk w' = w_disk w)
     \<and> (r = None \<longrightarrow> w_disk w' =
          (if pv_statePath (w_prov w) = '''' then w_disk w
           else Some (encode_state (svc_range S (w_trace w) (dom (sf_claims (snapshot key (w_prov w)))))
                       (snapshot key (w_prov w)))))
     \<and> (\<exists>es. w_trace w' = w_trace w @ es \<and> list_all (\<lambda>e. \<exists>ks op r. e = EvRange ks \<or> e = EvFs op r) es)"

lemma run_write_state: "\<exists>r w'. run S (write_state key) w = Some (r, w') \<and> wrote key S w r w'"
  by (simp add: write_state_def wrote_def split: option.splits)

lemma run_persist:
  assumes "w_saveMu w = None"
  shows "\<exists>r w'. run S persist w = Some (r, w') \<and> wrote '''' S w r w'"
proof -
  obtain r w' where "run S (write_state '''') (w\<lparr>w_saveMu := Some 0\<rparr>) = Some (r, w')"
    "wrote '''' S (w\<lparr>w_saveMu := Some 0\<rparr>) r w'" using run_write_state by blast
  with assms show ?thesis by (auto simp: persist_def wrote_def)
qed

lemma run_save_state:
  assumes "w_saveMu w = None"
  shows "\<exists>r w'. run S save_state w = Some ((), w') \<and> wrote '''' S w r w'"
  using run_persist [OF assms, of S] by (auto simp: save_state_def)

lemma run_write_ok:
  assumes "\<And>h op. svc_fs S h op = None" "run S (write_state key) w = Some (r, w')"
  shows "r = None"
  using assms by (auto simp: write_state_def split: if_splits)

lemma run_commit_claim:
  assumes "w_saveMu w = None"
  shows "\<exists>r w1 w'. run S (commit_claim key) w = Some (r, w') \<and> wrote key S w r w1
     \<and> w' = (if r = None then w1\<lparr>w_prov := clear_tentative key (w_prov w1)\<rparr> else w1)"
proof -
  obtain r w' where "run S (write_state key) (w\<lparr>w_saveMu := Some 0\<rparr>) = Some (r, w')"
    "wrote key S (w\<lparr>w_saveMu := Some 0\<rparr>) r w'" using run_write_state by blast
  moreover from this assms have "wrote key S w r (w'\<lparr>w_saveMu := None\<rparr>)"
    by (simp add: wrote_def)
  ultimately show ?thesis using assms
    by (cases r) (simp_all add: commit_claim_def, fastforce+)
qed

lemma verify_fold_path: "pv_statePath (fold (verify_row live before) ks p) = pv_statePath p"
  by (induction ks arbitrary: p)
    (auto simp: verify_row_def Let_def split: option.splits if_splits)

text \<open>Verification always returns, and only reads the outside.\<close>

lemma run_verify:
  "\<exists>ok w'. run S verify_claims_against_node w = Some (ok, w') \<and> w_saveMu w' = w_saveMu w
     \<and> w_disk w' = w_disk w \<and> pv_statePath (w_prov w') = pv_statePath (w_prov w)"
  by (auto simp: verify_claims_against_node_def verify_fold_path split: sum.splits)

text \<open>
  A process starts on a state file that can be read and written, whatever the node answers: a
  failed listing leaves the loaded rows quarantined.
\<close>

lemma new_provider_succeeds:
  assumes "\<And>h. svc_read S h = None" "\<And>h op. svc_fs S h op = None" "w_saveMu w = None"
    and "\<And>j. w_disk w = Some j \<Longrightarrow> decode_state j \<noteq> None"
  shows "\<exists>w'. run S (new_provider lister dyn path) w = Some (None, w')"
proof -
  let ?w0 = "w\<lparr>w_prov := init_provider lister dyn path\<rparr>"
  have "\<exists>w1. run S load_state ?w0 = Some (None, w1) \<and> w_saveMu w1 = None"
    using assms(1,3,4) by (cases "w_disk w") (auto simp: load_state_def)
  then obtain w1 where w1: "run S load_state ?w0 = Some (None, w1)" "w_saveMu w1 = None" by blast
  have per: "\<exists>w'. run S persist w2 = Some (None, w')" if mu: "w_saveMu w2 = None" for w2
  proof -
    obtain r w' where wr: "run S (write_state '''') (w2\<lparr>w_saveMu := Some 0\<rparr>) = Some (r, w')"
      using run_write_state by blast
    from run_write_ok [OF assms(2) this] have "r = None" .
    with wr mu show ?thesis by (simp add: persist_def)
  qed
  show ?thesis
  proof (cases lister)
    case True
    obtain ok w2 where "run S verify_claims_against_node
        (w1\<lparr>w_prov := quarantine_loaded_claims (w_prov w1)\<rparr>) = Some (ok, w2)" "w_saveMu w2 = None"
      using run_verify [of S "w1\<lparr>w_prov := quarantine_loaded_claims (w_prov w1)\<rparr>"] w1(2) by auto
    with per [of w2] w1(1) True show ?thesis by (auto simp: new_provider_def)
  next
    case False
    with per [OF w1(2)] w1(1) show ?thesis by (auto simp: new_provider_def)
  qed
qed

text \<open>The sandboxes the table has a credential for.\<close>

definition held_ids :: "provider \<Rightarrow> string set" where
  "held_ids p = cl_id ` ran (pv_claims p) \<union> cl_id ` set (pv_releasing p)"

subsection \<open>Sections that act on one key\<close>

text \<open>What the table says about a key.\<close>

definition row_view :: "string \<Rightarrow> provider \<Rightarrow> claim option \<times> pod option \<times> bool \<times> bool" where
  "row_view k p = (pv_claims p k, pv_pods p k, k \<in> pv_tentative p, k \<in> pv_quarantined p)"

text \<open>
  The contract of a critical section on one key: it leaves what the table says about every other
  key alone, it depends on nothing but what the table says about its own, and it does not touch the
  release queue. Clients run such a section for one key while other goroutines change others, or
  for every key of a map, in the order the Go runtime happens to choose.
\<close>

locale keyed_section =
  fixes f :: "string \<Rightarrow> provider \<Rightarrow> provider"
  assumes other: "k \<noteq> key \<Longrightarrow> row_view k (f key p) = row_view k p"
    and own: "row_view key p = row_view key q \<Longrightarrow> row_view key (f key p) = row_view key (f key q)"
    and queue: "pv_releasing (f key p) = pv_releasing p"
begin

lemma fold_other: "k \<notin> set ks \<Longrightarrow> row_view k (fold f ks p) = row_view k p"
  by (induction ks arbitrary: p) (auto simp: other)

lemma fold_own:
  "distinct ks \<Longrightarrow> k \<in> set ks \<Longrightarrow> row_view k (fold f ks p) = row_view k (f k p)"
proof (induction ks arbitrary: p)
  case (Cons key ks)
  show ?case
  proof (cases "k = key")
    case True
    with Cons.prems show ?thesis by (simp add: fold_other)
  next
    case False
    with Cons have "row_view k (fold f ks (f key p)) = row_view k (f k (f key p))" by simp
    also have "\<dots> = row_view k (f k p)" by (rule own) (rule other [OF False])
    finally show ?thesis by simp
  qed
qed simp

lemma fold_queue: "pv_releasing (fold f ks p) = pv_releasing p"
  by (induction ks arbitrary: p) (auto simp: queue)

text \<open>Running the section for all keys of a map gives the same table in every order.\<close>

lemma any_order:
  assumes "distinct ks" "distinct ks'" "set ks = set ks'"
  shows "row_view k (fold f ks p) = row_view k (fold f ks' p)"
  using assms by (cases "k \<in> set ks") (simp_all add: fold_own fold_other)

end

text \<open>
  A section that carries the id of the row it was decided on also leaves a row alone that has
  replaced that one in the meantime.
\<close>

locale guarded_section = keyed_section "\<lambda>key. f key i"
  for f :: "string \<Rightarrow> string \<Rightarrow> provider \<Rightarrow> provider" and i +
  assumes replaced: "pv_claims p key = Some c \<Longrightarrow> cl_id c \<noteq> i \<Longrightarrow> pv_claims (f key i p) key = Some c"
    and resurrects: "pv_claims p key = None \<Longrightarrow> pv_claims (f key i p) key = None"
begin

lemma keeps_other_ids:
  assumes "pv_claims p k = Some c" "cl_id c \<noteq> i"
  shows "pv_claims (f key i p) k = Some c"
  using assms replaced other [of k key p] by (cases "k = key") (auto simp: row_view_def)

end

interpretation drop: guarded_section drop_claim i for i
  by unfold_locales (auto simp: drop_claim_def row_view_def split: option.splits if_splits)

interpretation refresh: guarded_section "\<lambda>key i. refresh_deadline key i d" i for d i
  by unfold_locales (auto simp: refresh_deadline_def row_view_def split: option.splits if_splits)

interpretation commit: keyed_section clear_tentative
  by unfold_locales (auto simp: clear_tentative_def row_view_def)

interpretation verify: keyed_section "verify_row live before" for live before
  by unfold_locales
    (auto simp: verify_row_def row_view_def Let_def split: option.splits if_splits)

subsection \<open>What verification does\<close>

lemma live_deadlines_map: "live_deadlines l = map_of (rev (map (\<lambda>s. (ss_id s, ss_deadline s)) l))"
  by (induction l rule: rev_induct) (simp_all add: live_deadlines_def)

lemma dom_live_deadlines: "dom (live_deadlines l) = ss_id ` set l"
  by (simp add: live_deadlines_map dom_map_of_conv_image_fst image_image)

text \<open>
  The specification of a verification against a listing: a quarantined row whose sandbox is not
  listed goes; one that is listed stays, with the lease end of the listing if it had none.
\<close>

definition judge_row :: "sandbox_summary list \<Rightarrow> claim \<Rightarrow> claim option" where
  "judge_row l c =
     (if cl_id c \<notin> ss_id ` set l then None
      else Some (if cl_deadline c = 0 then c\<lparr>cl_deadline := the (live_deadlines l (cl_id c))\<rparr> else c))"

definition verified_rows :: "sandbox_summary list \<Rightarrow> provider \<Rightarrow> string \<Rightarrow> claim option" where
  "verified_rows l p k =
     (if k \<in> pv_quarantined p then Option.bind (pv_claims p k) (judge_row l) else pv_claims p k)"

lemma verify_row_own:
  assumes "pv_claims p k = Some c" "before k = Some (cl_id c)"
  shows "pv_claims (verify_row (live_deadlines l) before k p) k = judge_row l c"
    and "k \<notin> pv_quarantined (verify_row (live_deadlines l) before k p)"
proof -
  have "live_deadlines l (cl_id c) = None \<longleftrightarrow> cl_id c \<notin> ss_id ` set l"
    using dom_live_deadlines [of l] by (auto simp: domIff)
  with assms show "pv_claims (verify_row (live_deadlines l) before k p) k = judge_row l c"
    by (auto simp: verify_row_def judge_row_def Let_def split: option.splits)
  from assms show "k \<notin> pv_quarantined (verify_row (live_deadlines l) before k p)"
    by (auto simp: verify_row_def Let_def split: option.splits)
qed

lemma verify_fold:
  assumes "distinct ks" "set ks = dom (verify_snapshot p)"
  shows "row_view k (fold (verify_row (live_deadlines l) (verify_snapshot p)) ks p)
    = (verified_rows l p k, pv_pods p k, k \<in> pv_tentative p, k \<in> pv_quarantined p \<and> pv_claims p k = None)"
proof (cases "k \<in> set ks")
  case True
  then obtain c where c: "k \<in> pv_quarantined p" "pv_claims p k = Some c" "verify_snapshot p k = Some (cl_id c)"
    using assms(2) by (auto simp: verify_snapshot_def split: if_splits)
  then show ?thesis
    using verify.fold_own [OF assms(1) True, of "live_deadlines l" "verify_snapshot p" p]
      verify_row_own [of p k c "verify_snapshot p" l]
    by (auto simp: row_view_def verified_rows_def verify_row_def Let_def split: option.splits)
next
  case False
  then have "k \<notin> pv_quarantined p \<or> pv_claims p k = None"
    using assms(2) by (auto simp: verify_snapshot_def domIff split: if_splits)
  with verify.fold_other [OF False, of "live_deadlines l" "verify_snapshot p" p]
  show ?thesis by (auto simp: row_view_def verified_rows_def)
qed

lemma run_verify_settles:
  assumes "map_ranges S" "pv_lister (w_prov w)" "finite (dom (pv_claims (w_prov w)))"
    and "svc_list S (w_trace w) = Inr l"
  shows "\<exists>w'. run S verify_claims_against_node w = Some (True, w')
    \<and> pv_claims (w_prov w') = verified_rows l (w_prov w)
    \<and> pv_quarantined (w_prov w') = pv_quarantined (w_prov w) - dom (pv_claims (w_prov w))"
proof (cases "dom (verify_snapshot (w_prov w)) = {}")
  case True
  then have none: "pv_quarantined (w_prov w) \<inter> dom (pv_claims (w_prov w)) = {}"
    by (auto simp: verify_snapshot_def dom_def split: if_splits)
  then have "pv_claims (w_prov w) = verified_rows l (w_prov w)"
    by (auto simp: verified_rows_def fun_eq_iff domIff split: option.splits bind_splits)
  with True none assms(2) show ?thesis
    by (auto simp: verify_claims_against_node_def simp del: dom_eq_empty_conv)
next
  case False
  let ?p = "w_prov w" and ?b = "verify_snapshot (w_prov w)"
  define ks where "ks = svc_range S (w_trace w @ [EvList (Inr l)]) (dom ?b)"
  have "dom ?b \<subseteq> dom (pv_claims ?p)" by (auto simp: verify_snapshot_def split: if_splits)
  then have "finite (dom ?b)" using assms(3) by (rule finite_subset)
  with assms(1) have ks: "distinct ks" "set ks = dom ?b" by (auto simp: ks_def map_ranges_def)
  let ?q = "fold (verify_row (live_deadlines l) ?b) ks ?p"
  from verify_fold [OF ks, of _ l]
  have "pv_claims ?q = verified_rows l ?p" "pv_quarantined ?q = pv_quarantined ?p - dom (pv_claims ?p)"
    by (auto simp: row_view_def fun_eq_iff domIff)
  with False assms(2,4) show ?thesis
    by (auto simp: verify_claims_against_node_def ks_def simp del: dom_eq_empty_conv)
qed


lemma run_verify_unlistable:
  assumes "svc_list S (w_trace w) = Inl e" "pv_lister (w_prov w)"
    and "key \<in> pv_quarantined (w_prov w)" "pv_claims (w_prov w) key \<noteq> None"
  shows "run S verify_claims_against_node w = Some (False, log_event (EvList (Inl e)) w)"
proof -
  have "verify_snapshot (w_prov w) key \<noteq> None" using assms(3,4) by (simp add: verify_snapshot_def)
  then have "dom (verify_snapshot (w_prov w)) \<noteq> {}" by blast
  with assms(1,2) show ?thesis
    by (simp add: verify_claims_against_node_def del: dom_eq_empty_conv)
qed

text \<open>
  A failed listing is not an empty list. While a loaded row is unverified and sandboxd cannot be
  listed, verification reports failure and changes nothing.
\<close>

lemma verify_unlistable:
  assumes "svc_list S (w_trace w) = Inl e" "pv_lister (w_prov w)"
    and "key \<in> pv_quarantined (w_prov w)" "pv_claims (w_prov w) key \<noteq> None"
  shows "run S verify_claims_against_node w = Some (False, log_event (EvList (Inl e)) w)"
  using assms by (rule run_verify_unlistable)

lemma verify_unlistable_witness:
  "run demo_down verify_claims_against_node demo_loaded = Some (False, log_event (EvList (Inl ''down'')) demo_loaded)"
  by (rule verify_unlistable [where key = "''ns/a''"])
    (simp_all add: demo_loaded_def demo_blank_def demo_down_def)

subsection \<open>What reaches the disk\<close>

lemma snapshot_dom: "dom (sf_claims (snapshot key p)) \<subseteq> dom (pv_claims p)"
  by (auto simp: snapshot_def split: if_splits)

text \<open>A write that succeeds leaves a state file that reads back as the snapshot.\<close>

lemma wrote_decodes:
  assumes "wrote key S w None w'" "map_ranges S" "finite (dom (pv_claims (w_prov w)))"
    and "pv_statePath (w_prov w) \<noteq> ''''"
  shows "\<exists>j. w_disk w' = Some j \<and> decode_state j = Some (trunc_state (snapshot key (w_prov w)))
    \<and> \<not> claims_nil j"
proof -
  let ?st = "snapshot key (w_prov w)" and ?ks = "svc_range S (w_trace w) (dom (sf_claims (snapshot key (w_prov w))))"
  have "finite (dom (sf_claims ?st))" by (rule finite_subset [OF snapshot_dom assms(3)])
  with assms(2) have "set ?ks = dom (sf_claims ?st)" by (simp add: map_ranges_def)
  from decode_encode_state [OF this] have "decode_state (encode_state ?ks ?st) = Some (trunc_state ?st)" .
  moreover have "w_disk w' = Some (encode_state ?ks ?st)" using assms(1,4) by (simp add: wrote_def)
  moreover have "\<not> claims_nil (encode_state ?ks ?st)" by (simp add: encode_state_def field_def)
  ultimately show ?thesis by blast
qed

text \<open>
  C14: committing a claim makes it durable or changes nothing. If the write succeeds, the state file
  reads back as the durable rows and the committed one, and the row's tentative marker is gone; if it
  fails at any step, the state file, the table and its markers are what they were.
\<close>

theorem commit_durable:
  assumes "w_saveMu w = None" "map_ranges S" "finite (dom (pv_claims (w_prov w)))"
    and "pv_statePath (w_prov w) \<noteq> ''''"
  shows "\<exists>r w'. run S (commit_claim key) w = Some (r, w') \<and> w_saveMu w' = None
    \<and> (case r of
         Some e \<Rightarrow> w_prov w' = w_prov w \<and> w_disk w' = w_disk w
       | None \<Rightarrow> pv_tentative (w_prov w') = pv_tentative (w_prov w) - {key}
           \<and> pv_claims (w_prov w') = pv_claims (w_prov w)
           \<and> Option.bind (w_disk w') decode_state = Some (trunc_state (snapshot key (w_prov w))))"
proof -
  obtain r w1 w' where r: "run S (commit_claim key) w = Some (r, w')" "wrote key S w r w1"
    "w' = (if r = None then w1\<lparr>w_prov := clear_tentative key (w_prov w1)\<rparr> else w1)"
    using run_commit_claim [OF assms(1)] by blast
  show ?thesis
  proof (cases r)
    case None
    with r wrote_decodes [OF _ assms(2-4), of key w1] assms(1) show ?thesis
      by (auto simp: wrote_def clear_tentative_def)
  next
    case (Some e)
    with r assms(1) show ?thesis by (auto simp: wrote_def)
  qed
qed

theorem commit_durable_witness:
  "\<exists>r w'. run demo (commit_claim ''ns/a'') demo_world = Some (r, w') \<and> w_saveMu w' = None
    \<and> (case r of
         None \<Rightarrow> Option.bind (w_disk w') decode_state = Some (trunc_state (snapshot ''ns/a'' demo_blank))
       | Some e \<Rightarrow> w_disk w' = w_disk demo_world)"
  using commit_durable [of demo_world demo "''ns/a''"] demo_ranges
  by (auto simp: demo_blank_def split: option.splits)

text \<open>
  C15: what one process saves, the next one loads. After a successful save, a new provider on the
  same path has exactly the rows that were not tentative and the release queue, with times in seconds
  and a claim time filled in where an old table had none.
\<close>

theorem saved_table_loads:
  assumes "w_saveMu w = None" "map_ranges S" "finite (dom (pv_claims (w_prov w)))"
    and "pv_statePath (w_prov w) = path" "path \<noteq> ''''" "svc_read S (w_trace w1) = None"
    and "run S persist w = Some (None, w1)"
  shows "\<exists>w2 t. run S load_state (w1\<lparr>w_prov := init_provider l d path\<rparr>) = Some (None, w2)
    \<and> (\<forall>k. pv_claims (w_prov w2) k =
         (if k \<in> pv_tentative (w_prov w) \<and> k \<noteq> '''' then None
          else map_option (\<lambda>c. backfill_claimed_at t (trunc_claim c)) (pv_claims (w_prov w) k)))
    \<and> pv_releasing (w_prov w2) = map trunc_claim (pv_releasing (w_prov w))"
proof -
  have "wrote '''' S w None w1" using run_persist [OF assms(1), of S] assms(7) by auto
  from wrote_decodes [OF this assms(2,3)] assms(4,5)
  obtain j where j: "w_disk w1 = Some j" "\<not> claims_nil j"
    "decode_state j = Some (trunc_state (snapshot '''' (w_prov w)))" by auto
  let ?t = "svc_now S (w_trace w1 @ [EvRead None])"
  let ?st = "trunc_state (snapshot '''' (w_prov w))"
  let ?p = "install_claims ?t ?st (install_releasing ?st (init_provider l d path))"
  let ?w2 = "(log_event (EvNow ?t) (log_event (EvRead None) w1))\<lparr>w_prov := ?p\<rparr>"
  have "run S load_state (w1\<lparr>w_prov := init_provider l d path\<rparr>) = Some (None, ?w2)"
    using assms(5,6) j by (simp add: load_state_def init_provider_def log_event_def)
  moreover have "pv_claims ?p k = (if k \<in> pv_tentative (w_prov w) \<and> k \<noteq> '''' then None
      else map_option (\<lambda>c. backfill_claimed_at ?t (trunc_claim c)) (pv_claims (w_prov w) k))" for k
    by (simp add: install_claims_def trunc_state_def snapshot_def option.map_comp comp_def)
  moreover have "pv_releasing ?p = map trunc_claim (pv_releasing (w_prov w))"
    by (simp add: install_claims_def install_releasing_def trunc_state_def snapshot_def)
  ultimately show ?thesis by (intro exI [of _ ?w2] exI [of _ ?t]) simp
qed

theorem saved_table_loads_witness:
  "\<exists>w2 t. run demo load_state ((snd (the (run demo persist demo_held)))\<lparr>w_prov := init_provider True True ''/s''\<rparr>)
      = Some (None, w2)
    \<and> pv_claims (w_prov w2) ''ns/a'' = Some (backfill_claimed_at t (trunc_claim demo_claimed))"
proof -
  obtain r w1 where r: "run demo persist demo_held = Some (r, w1)" using run_persist [of demo_held demo] by auto
  have "r = None" using r by (auto simp: persist_def split: option.splits dest: run_write_ok [rotated])
  with r have "run demo persist demo_held = Some (None, snd (the (run demo persist demo_held)))" by simp
  from saved_table_loads [OF _ demo_ranges _ _ _ _ this, of "''/s''" True True] show ?thesis by auto
qed

definition load_result :: "services \<Rightarrow> event list \<Rightarrow> json option \<Rightarrow> new_error option" where
  "load_result S h disk =
     (case svc_read S h of
        Some e \<Rightarrow> Some (ErrReadState e)
      | None \<Rightarrow>
          (case disk of
             None \<Rightarrow> None
           | Some j \<Rightarrow> if decode_state j = None then Some ErrDecodeState else None))"

lemma run_load_state:
  assumes "pv_statePath (w_prov w) = path" "path \<noteq> ''''"
  shows "\<exists>w'. run S load_state w = Some (load_result S (w_trace w) (w_disk w), w')
    \<and> w_saveMu w' = w_saveMu w \<and> w_disk w' = w_disk w \<and> pv_statePath (w_prov w') = path"
proof (cases "svc_read S (w_trace w)")
  case None
  with assms show ?thesis
    by (cases "w_disk w"; cases "decode_state (the (w_disk w))")
      (auto simp: load_state_def install_releasing_def install_claims_def load_result_def)
qed (use assms in \<open>simp add: load_state_def load_result_def\<close>)

lemma run_new_provider:
  assumes "w_saveMu w = None" "path \<noteq> ''''"
  shows "\<exists>r w'. run S (new_provider lister dyn path) w = Some (r, w')
    \<and> (\<forall>e. svc_read S (w_trace w) = Some e \<longrightarrow> r = Some (ErrReadState e))
    \<and> (\<forall>j. svc_read S (w_trace w) = None \<longrightarrow> w_disk w = Some j \<longrightarrow> decode_state j = None \<longrightarrow>
          r = Some ErrDecodeState)
    \<and> (r \<noteq> None \<longrightarrow> w_disk w' = w_disk w)
    \<and> (r = None \<longrightarrow> (\<exists>ks. w_disk w' = Some (encode_state ks (snapshot '''' (w_prov w')))))"
proof -
  let ?w0 = "w\<lparr>w_prov := init_provider lister dyn path\<rparr>"
  have "pv_statePath (w_prov ?w0) = path" by (simp add: init_provider_def)
  from run_load_state [OF this assms(2), of S] assms(1)
  obtain w1 where load: "run S load_state ?w0 = Some (load_result S (w_trace w) (w_disk w), w1)"
    "w_saveMu w1 = None" "w_disk w1 = w_disk w" "pv_statePath (w_prov w1) = path"
    by auto
  show ?thesis
  proof (cases "load_result S (w_trace w) (w_disk w)")
    case (Some e)
    then have "run S (new_provider lister dyn path) w = Some (Some e, w1)"
      using load(1) by (simp add: new_provider_def)
    moreover have "\<forall>e'. svc_read S (w_trace w) = Some e' \<longrightarrow> e = ErrReadState e'"
      "\<forall>j. svc_read S (w_trace w) = None \<longrightarrow> w_disk w = Some j \<longrightarrow> decode_state j = None \<longrightarrow> e = ErrDecodeState"
      using Some by (auto simp: load_result_def)
    ultimately show ?thesis using load(3) by simp
  next
    case None
    then have ok: "svc_read S (w_trace w) = None" "\<And>j. w_disk w = Some j \<Longrightarrow> decode_state j \<noteq> None"
      by (auto simp: load_result_def split: option.splits if_splits)
    let ?m = "if lister then bind (modify quarantine_loaded_claims) (\<lambda>_.
        bind verify_claims_against_node (\<lambda>_. Ret ())) else Ret ()"
    have "\<exists>w2. run S ?m w1 = Some ((), w2) \<and> w_saveMu w2 = None \<and> w_disk w2 = w_disk w
        \<and> pv_statePath (w_prov w2) = path"
      using run_verify [of S "w1\<lparr>w_prov := quarantine_loaded_claims (w_prov w1)\<rparr>"] load(2-4)
      by (auto simp: quarantine_loaded_claims_def)
    then obtain w2 where w2: "run S ?m w1 = Some ((), w2)" "w_saveMu w2 = None" "w_disk w2 = w_disk w"
      "pv_statePath (w_prov w2) = path" by blast
    obtain s w3 where s: "run S persist w2 = Some (s, w3)" "wrote '''' S w2 s w3"
      using run_persist [OF w2(2)] by blast
    have "run S (new_provider lister dyn path) w = Some (map_option ErrNotWritable s, w3)"
      unfolding new_provider_def using load(1) None w2(1) s(1) by simp
    moreover have "s \<noteq> None \<Longrightarrow> w_disk w3 = w_disk w"
      using s(2) w2(3) by (simp add: wrote_def)
    moreover have "\<exists>ks. w_disk w3 = Some (encode_state ks (snapshot '''' (w_prov w3)))" if "s = None"
      using s(2) w2(4) assms(2) that by (auto simp: wrote_def)
    ultimately show ?thesis using ok by (intro exI [of _ "map_option ErrNotWritable s"] exI [of _ w3]) auto
  qed
qed

text \<open>
  C16: a provider is built only over a state file it can read, understand and write. An unreadable or
  undecodable file is an error, as is one that cannot be written; in each of these cases the file is
  left as it was, and on success the file holds the table the provider starts with.
\<close>

theorem new_provider_fails_closed:
  assumes "w_saveMu w = None" "path \<noteq> ''''"
  shows "\<exists>r w'. run S (new_provider lister dyn path) w = Some (r, w')
    \<and> (\<forall>e. svc_read S (w_trace w) = Some e \<longrightarrow> r = Some (ErrReadState e))
    \<and> (\<forall>j. svc_read S (w_trace w) = None \<longrightarrow> w_disk w = Some j \<longrightarrow> decode_state j = None \<longrightarrow>
          r = Some ErrDecodeState)
    \<and> (r \<noteq> None \<longrightarrow> w_disk w' = w_disk w)
    \<and> (r = None \<longrightarrow> (\<exists>ks. w_disk w' = Some (encode_state ks (snapshot '''' (w_prov w')))))"
  using assms by (rule run_new_provider)

theorem new_provider_fails_closed_witness:
  "\<exists>w'. run (demo\<lparr>svc_read := (\<lambda>h. Some ''EIO'')\<rparr>) (new_provider True True ''/s'') demo_world
      = Some (Some (ErrReadState ''EIO''), w') \<and> w_disk w' = w_disk demo_world"
  using new_provider_fails_closed [of demo_world "''/s''" "demo\<lparr>svc_read := (\<lambda>h. Some ''EIO'')\<rparr>" True True]
  by auto

end
