(* ===== verification/Pod_Status.thy ===== *)
theory Pod_Status
  imports Claims_Table
begin

text \<open>
  Status reads (\<^verbatim>\<open>provider/status.go\<close>) and the address of a claim (\<^verbatim>\<open>claimIP\<close> of
  \<^verbatim>\<open>provider/create.go\<close>): the synthetic Pod status computed from the claims table.
\<close>

definition reason_lease_expired :: string where
  "reason_lease_expired = ''SandboxLeaseExpired''"

definition claim_ip :: "string \<Rightarrow> string" where
  "claim_ip addr =
     (case split_host_port addr of
        Inr (host, port) \<Rightarrow> if host \<noteq> '''' then host else addr
      | Inl e \<Rightarrow> addr)"

definition container_statuses ::
    "pod \<Rightarrow> claim \<Rightarrow> container_state \<Rightarrow> bool \<Rightarrow> container_status list" where
  "container_statuses pd c state ready =
     map (\<lambda>ctr. \<lparr>cs_name = ctr_name ctr, cs_ready = ready, cs_state = state,
                  cs_image = ctr_image ctr, cs_imageID = ''sandboxd://'' @ cl_id c\<rparr>)
       (pod_containers pd)"

definition expired_status :: "ext \<Rightarrow> pod \<Rightarrow> claim \<Rightarrow> pod_status" where
  "expired_status E pd c =
     \<lparr>ps_phase = PodFailed, ps_reason = reason_lease_expired,
      ps_message = ''sandbox lease ended at '' @ format_rfc3339 E (cl_deadline c)
                     @ ''; the microVM is reaped at the deadline'',
      ps_hostIP = '''', ps_podIP = '''', ps_podIPs = [],
      ps_startTime = Some (cl_claimedAt c), ps_conditions = [],
      ps_containerStatuses =
        container_statuses pd c (StateTerminated 1 reason_lease_expired (cl_deadline c)) False\<rparr>"

definition running_status :: "pod \<Rightarrow> claim \<Rightarrow> pod_status" where
  "running_status pd c =
     (let ip = claim_ip (cl_address c) in
      \<lparr>ps_phase = PodRunning, ps_reason = '''', ps_message = '''',
       ps_hostIP = ip,
       ps_podIP = (if ip \<noteq> '''' then ip else ''''),
       ps_podIPs = (if ip \<noteq> '''' then [ip] else []),
       ps_startTime = Some (cl_claimedAt c),
       ps_conditions = [(''Initialized'', ''True''), (''Ready'', ''True''), (''PodScheduled'', ''True'')],
       ps_containerStatuses = container_statuses pd c (StateRunning (cl_claimedAt c)) True\<rparr>)"

definition get_pod :: "string \<Rightarrow> string \<Rightarrow> pod option prog" where
  "get_pod namespace name = reads (\<lambda>p. pv_pods p (pod_key namespace name))"

definition get_pods :: "pod list prog" where
  "get_pods =
     bind (reads pv_pods) (\<lambda>m.
     bind (range_keys (dom m)) (\<lambda>ks. Ret (List.map_filter m ks)))"

definition status_view :: "string \<Rightarrow> provider \<Rightarrow> pod option \<times> claim option" where
  "status_view key p =
     (pv_pods p key, if settled p key then pv_claims p key else None)"

definition get_pod_status :: "ext \<Rightarrow> string \<Rightarrow> string \<Rightarrow> pod_status option prog" where
  "get_pod_status E namespace name =
     bind (reads (status_view (pod_key namespace name))) (\<lambda>(pd, c).
       case pd of
         None \<Rightarrow> Ret None
       | Some pd \<Rightarrow>
           (case c of
              None \<Rightarrow> Ret (Some ((pod_status pd)\<lparr>ps_phase := PodPending\<rparr>))
            | Some c \<Rightarrow>
                bind now (\<lambda>t.
                  if claim_expired c t then Ret (Some (expired_status E pd c))
                  else Ret (Some (running_status pd c)))))"

subsection \<open>What a status read reports\<close>

text \<open>
  The Pod's address is the host of the claim's owner address, for an IPv4 address or a host name
  and for a bracketed IPv6 address.
\<close>

lemma claim_ip_host:
  assumes "host \<noteq> ''''" "CHR ''['' \<notin> set host" "CHR '']'' \<notin> set host"
    and "set port \<inter> {CHR '':'', CHR ''['', CHR '']''} = {}"
  shows "claim_ip (''['' @ host @ '']:'' @ port) = host
    \<and> (CHR '':'' \<in> set host \<or> claim_ip (host @ '':'' @ port) = host)"
  using assms split_host_port_bracketed [of host port] split_host_port_plain [of host port]
  by (cases "CHR '':'' \<in> set host") (auto simp: claim_ip_def)

lemma claim_ip_host_witness:
  "claim_ip ''[fd00::7]:8080'' = ''fd00::7'' \<and> claim_ip ''10.0.0.7:8080'' = ''10.0.0.7''"
  using claim_ip_host [of "''fd00::7''" "''8080''"] claim_ip_host [of "''10.0.0.7''" "''8080''"] by simp

text \<open>
  C32: the phase a status read reports is exactly what the table supports: nothing for an unknown Pod,
  Running only for a Pod with a durable, verified claim whose lease has not ended, Failed only for one
  whose lease has, and Pending otherwise; a read changes no state.
\<close>

theorem status_phase:
  "\<exists>r w'. run S (get_pod_status E ns n) w = Some (r, w') \<and> w_prov w' = w_prov w \<and> w_disk w' = w_disk w
    \<and> map_option ps_phase r =
       (let p = w_prov w; key = pod_key ns n in
        if pv_pods p key = None then None
        else if settled p key \<and> pv_claims p key \<noteq> None
          then Some (if claim_expired (the (pv_claims p key)) (svc_now S (w_trace w)) then PodFailed else PodRunning)
        else Some PodPending)"
  by (auto simp: get_pod_status_def status_view_def expired_status_def running_status_def Let_def
      split: option.splits)

end
