(* ===== verification/Create_Pod.thy ===== *)
theory Create_Pod
  imports Pod_Status
begin

text \<open>
  The claim path (\<^verbatim>\<open>provider/create.go\<close>): CreatePod and UpdatePod, adoption in place, the
  settling of unverified, expired and stranded claims, and the undo of a claim that could not be
  persisted.
\<close>

definition ann_runtime :: string where "ann_runtime = ''sandbox.cocoonstack.io/runtime''"

definition runtime_sandboxd :: string where "runtime_sandboxd = ''sandboxd''"

definition ann_template :: "ext \<Rightarrow> string" where "ann_template E = selector_template_key E"

definition ann_net :: "ext \<Rightarrow> string" where "ann_net E = selector_net_key E"

definition ann_size :: "ext \<Rightarrow> string" where "ann_size E = selector_size_key E"

definition ann_ttl_seconds :: string where "ann_ttl_seconds = ''sandbox.cocoonstack.io/ttl-seconds''"

definition ann_claim_id :: string where "ann_claim_id = ''sandbox.cocoonstack.io/claim-id''"

definition default_claim_ttl_seconds :: int where "default_claim_ttl_seconds = 24 * 60 * 60"

definition ann :: "pod \<Rightarrow> string \<Rightarrow> string \<Rightarrow> string" where
  "ann pd key def =
     cmp_or (case pod_annotations pd key of None \<Rightarrow> '''' | Some v \<Rightarrow> v) def"

definition pod_with_claim :: "pod \<Rightarrow> string \<Rightarrow> pod" where
  "pod_with_claim pd i = pd\<lparr>pod_annotations := (pod_annotations pd)(ann_claim_id \<mapsto> i)\<rparr>"

subsection \<open>Critical sections\<close>

definition withdraw_claim :: "string \<Rightarrow> string \<Rightarrow> provider \<Rightarrow> provider" where
  "withdraw_claim key i p =
     (let p' = (case pv_claims p key of
                  Some cur \<Rightarrow>
                    if cl_id cur = i
                    then p\<lparr>pv_claims := (pv_claims p)(key := None),
                           pv_pods := (pv_pods p)(key := None)\<rparr>
                    else p
                | None \<Rightarrow> p)
      in p'\<lparr>pv_tentative := pv_tentative p' - {key},
             pv_quarantined := pv_quarantined p' - {key}\<rparr>)"

definition rebind :: "claim \<Rightarrow> pod \<Rightarrow> claim" where
  "rebind c pd = c\<lparr>cl_podUID := pod_uid pd, cl_authority := Some (authority_of pd), cl_owner := None\<rparr>"

definition adopt_existing_claim :: "string \<Rightarrow> pod \<Rightarrow> provider \<Rightarrow> provider \<times> claim option" where
  "adopt_existing_claim key pd p =
     (case pv_claims p key of
        None \<Rightarrow> (p, None)
      | Some c \<Rightarrow>
          if \<not> settled p key then (p, None)
          else if \<not> adoptable_by c pd
          then (p\<lparr>pv_claims := (pv_claims p)(key := None),
                  pv_releasing := pv_releasing p @ [c]\<rparr>, None)
          else (p\<lparr>pv_claims := (pv_claims p)(key \<mapsto> rebind c pd),
                  pv_pods := (pv_pods p)(key \<mapsto> pd)\<rparr>, Some (rebind c pd)))"

definition insert_tentative :: "string \<Rightarrow> pod \<Rightarrow> claim \<Rightarrow> provider \<Rightarrow> provider" where
  "insert_tentative key pd c p =
     p\<lparr>pv_claims := (pv_claims p)(key \<mapsto> c),
       pv_pods := (pv_pods p)(key \<mapsto> pod_with_claim pd (cl_id c)),
       pv_tentative := insert key (pv_tentative p)\<rparr>"

subsection \<open>Helpers of the handler\<close>

definition push_running :: "pod \<Rightarrow> claim \<Rightarrow> unit prog" where
  "push_running pd c =
     (let out = pod_with_claim pd (cl_id c)
      in notify (out\<lparr>pod_status := running_status out c\<rparr>))"

definition release_detached :: "claim \<Rightarrow> err option prog" where
  "release_detached c = client_release DetachedCtx (cl_id c) (cl_token c)"

definition settle_expired_claim :: "string \<Rightarrow> pod_error option prog" where
  "settle_expired_claim key =
     bind (reads (claim_for key)) (\<lambda>held.
       case held of
         None \<Rightarrow> Ret None
       | Some c \<Rightarrow>
           bind now (\<lambda>t.
           if \<not> claim_expired c t then Ret None else
           bind (reads pv_lister) (\<lambda>lister.
           if \<not> lister then bind (modify (drop_claim key (cl_id c))) (\<lambda>_. Ret None) else
           bind lister_sandboxes (\<lambda>r.
             case r of
               Inl e \<Rightarrow> Ret (Some (ErrExpiredUnlistable key (cl_id c) e))
             | Inr listed \<Rightarrow>
                 (case List.find (\<lambda>row. ss_id row = cl_id c) listed of
                    Some row \<Rightarrow>
                      bind (modify (refresh_deadline key (cl_id c) (ss_deadline row)))
                        (\<lambda>_. Ret None)
                  | None \<Rightarrow> bind (modify (drop_claim key (cl_id c))) (\<lambda>_. Ret None))))))"

definition resolve_unverified_claim :: "string \<Rightarrow> pod_error option prog" where
  "resolve_unverified_claim key =
     bind (reads (\<lambda>p. key \<in> pv_quarantined p)) (\<lambda>unverified.
     if \<not> unverified then Ret None else
     bind verify_claims_against_node (\<lambda>ok.
     if ok then Ret None else Ret (Some (ErrUnverified key))))"

definition clear_stranded_claim :: "string \<Rightarrow> pod_error option prog" where
  "clear_stranded_claim key =
     bind (reads (\<lambda>p. (pv_claims p key, key \<in> pv_tentative p))) (\<lambda>(held, pending).
       case held of
         None \<Rightarrow> Ret None
       | Some c \<Rightarrow>
           if \<not> pending then Ret None else
           bind (release_detached c) (\<lambda>r.
             case r of
               Some e \<Rightarrow> Ret (Some (ErrStranded key (cl_id c) e))
             | None \<Rightarrow> bind (modify (withdraw_claim key (cl_id c))) (\<lambda>_. Ret None)))"

definition undo_unpersisted_claim :: "string \<Rightarrow> claim \<Rightarrow> save_error \<Rightarrow> pod_error option prog" where
  "undo_unpersisted_claim key c persistErr =
     bind (release_detached c) (\<lambda>r.
       case r of
         Some e \<Rightarrow> Ret (Some (ErrPersistAndRelease key persistErr (cl_id c) e))
       | None \<Rightarrow>
           bind (modify (withdraw_claim key (cl_id c))) (\<lambda>_. Ret (Some (ErrPersist key persistErr))))"

subsection \<open>CreatePod and UpdatePod\<close>

text \<open>The part of CreatePod that reads the claim's parameters from the annotations.\<close>

definition claim_ttl :: "pod \<Rightarrow> pod_error + int" where
  "claim_ttl pd =
     (let s = ann pd ann_ttl_seconds '''' in
      if s = '''' then Inr default_claim_ttl_seconds
      else case atoi s of
             None \<Rightarrow> Inl (ErrInvalidTTL (pod_key (pod_namespace pd) (pod_name pd)) s)
           | Some v \<Rightarrow>
               if v < 0 then Inl (ErrInvalidTTL (pod_key (pod_namespace pd) (pod_name pd)) s)
               else Inr v)"

definition claim_request :: "ext \<Rightarrow> pod \<Rightarrow> pod_error + claim_spec" where
  "claim_request E pd =
     (case claim_ttl pd of
        Inl e \<Rightarrow> Inl e
      | Inr ttl \<Rightarrow>
          let spec = \<lparr>sp_template = ann pd (ann_template E) '''', sp_net = ann pd (ann_net E) '''',
                      sp_size = ann pd (ann_size E) '''', sp_ttlSeconds = ttl,
                      sp_claimRef = pod_key (pod_namespace pd) (pod_name pd)\<rparr>
          in if sp_template spec = ''''
             then Inl (ErrMissingTemplate (pod_key (pod_namespace pd) (pod_name pd)))
             else Inr spec)"

definition new_claim :: "pod \<Rightarrow> claim_result \<Rightarrow> gtime \<Rightarrow> claim" where
  "new_claim pd res t =
     \<lparr>cl_id = cr_id res, cl_token = cr_token res, cl_address = cr_ownerAddr res,
      cl_podUID = pod_uid pd, cl_authority = Some (authority_of pd), cl_claimedAt = t,
      cl_deadline = cr_deadline res, cl_owner = None\<rparr>"

text \<open>The part of CreatePod from the claim to the push of the Running status.\<close>

definition claim_fresh :: "ext \<Rightarrow> string \<Rightarrow> pod \<Rightarrow> pod_error option prog" where
  "claim_fresh E key pd =
     (case claim_request E pd of
        Inl e \<Rightarrow> Ret (Some e)
      | Inr spec \<Rightarrow>
          bind (client_claim spec) (\<lambda>r.
            case r of
              Inl e \<Rightarrow> Ret (Some (ErrClaim key (sp_template spec) e))
            | Inr res \<Rightarrow>
                bind now (\<lambda>t.
                let c = new_claim pd res t in
                bind (modify (insert_tentative key pd c)) (\<lambda>_.
                bind (commit_claim key) (\<lambda>w.
                  case w of
                    Some e \<Rightarrow> undo_unpersisted_claim key c e
                  | None \<Rightarrow> bind (push_running pd c) (\<lambda>_. Ret None))))))"

definition create_pod :: "ext \<Rightarrow> pod \<Rightarrow> pod_error option prog" where
  "create_pod E pd =
     (let key = pod_key (pod_namespace pd) (pod_name pd);
          rt = ann pd ann_runtime runtime_sandboxd in
      if rt \<noteq> runtime_sandboxd then Ret (Some (ErrRuntime key rt)) else
      check (resolve_unverified_claim key) (
      check (settle_expired_claim key) (
      bind (locked (adopt_existing_claim key pd)) (\<lambda>adopted.
        case adopted of
          Some c \<Rightarrow>
            bind save_state (\<lambda>_. bind (push_running pd c) (\<lambda>_. Ret None))
        | None \<Rightarrow>
            check (clear_stranded_claim key) (claim_fresh E key pd)))))"

definition update_section :: "string \<Rightarrow> pod \<Rightarrow> provider \<Rightarrow> provider \<times> bool" where
  "update_section key pd p =
     (if key \<in> pv_tentative p then (p, True)
      else (p\<lparr>pv_pods := (pv_pods p)(key \<mapsto> pd)\<rparr>, False))"

definition update_pod :: "ext \<Rightarrow> pod \<Rightarrow> pod_error option prog" where
  "update_pod E pd =
     (let key = pod_key (pod_namespace pd) (pod_name pd) in
      bind (reads (pod_uid_is_current key pd)) (\<lambda>current.
      if \<not> current then Ret None else
      bind (locked (update_section key pd)) (\<lambda>pending.
      if pending then create_pod E pd else Ret None)))"

interpretation withdraw: guarded_section withdraw_claim i for i
  by unfold_locales
    (auto simp: withdraw_claim_def row_view_def Let_def split: option.splits if_splits)

interpretation tentative: keyed_section "\<lambda>key. insert_tentative key pd c" for pd c
  by unfold_locales (auto simp: insert_tentative_def row_view_def)

subsection \<open>How the parts run\<close>

definition running_pod :: "pod \<Rightarrow> claim \<Rightarrow> pod" where
  "running_pod pd c =
     (let out = pod_with_claim pd (cl_id c) in out\<lparr>pod_status := running_status out c\<rparr>)"

lemma run_push_running:
  "run S (push_running pd c) w =
     Some ((), if pv_notifier (w_prov w) then log_event (EvNotify (running_pod pd c)) w else w)"
  by (simp add: push_running_def notify_def running_pod_def Let_def)

text \<open>Calls that neither obtain nor give back a sandbox.\<close>

fun keeps_sandboxes :: "event \<Rightarrow> bool" where
  "keeps_sandboxes (EvClaim sp r) = False"
| "keeps_sandboxes (EvRelease c i t r) = False"
| "keeps_sandboxes _ = True"

lemma wrote_keeps:
  assumes "wrote key S w r w'"
  shows "\<exists>es. w_trace w' = w_trace w @ es \<and> list_all keeps_sandboxes es"
proof -
  from assms obtain es where es: "w_trace w' = w_trace w @ es"
    "list_all (\<lambda>e. \<exists>ks op r. e = EvRange ks \<or> e = EvFs op r) es" by (auto simp: wrote_def)
  from es(2) have "list_all keeps_sandboxes es" by (rule list.pred_mono_strong) auto
  with es(1) show ?thesis by blast
qed

lemma resolve_verified: "key \<notin> pv_quarantined (w_prov w) \<Longrightarrow> run S (resolve_unverified_claim key) w = Some (None, w)"
  by (simp add: resolve_unverified_claim_def)

lemma settle_live:
  assumes "pv_claims (w_prov w) key = Some c" "settled (w_prov w) key"
    and "\<not> claim_expired c (svc_now S (w_trace w))"
  shows "run S (settle_expired_claim key) w = Some (None, log_event (EvNow (svc_now S (w_trace w))) w)"
  using assms by (simp add: settle_expired_claim_def claim_for_def)

text \<open>
  What adoption in place comes to: the row keeps its id, token, address and lease and is bound to the
  Pod, with no owner left to re-check; no other row changes; the Pod is reported Running; and no call
  obtains or gives back a sandbox.
\<close>

definition adopted :: "string \<Rightarrow> pod \<Rightarrow> claim \<Rightarrow> world \<Rightarrow> world \<Rightarrow> bool" where
  "adopted key pd c w w' \<longleftrightarrow>
     pv_claims (w_prov w') = (pv_claims (w_prov w))(key \<mapsto>
       c\<lparr>cl_podUID := pod_uid pd, cl_authority := Some (authority_of pd), cl_owner := None\<rparr>)
     \<and> pv_pods (w_prov w') = (pv_pods (w_prov w))(key \<mapsto> pd)
     \<and> pv_releasing (w_prov w') = pv_releasing (w_prov w)
     \<and> (\<exists>es. w_trace w' = w_trace w @ es \<and> list_all keeps_sandboxes es
          \<and> (if pv_notifier (w_prov w) then EvNotify (running_pod pd (rebind c pd)) \<in> set es else True))"

lemma adopted_log: "adopted key pd c (log_event e w) w' \<Longrightarrow> keeps_sandboxes e \<Longrightarrow> adopted key pd c w w'"
  by (auto simp: adopted_def)

lemma run_adopt:
  assumes "pv_claims (w_prov w) key = Some c" "settled (w_prov w) key" "adoptable_by c pd" "w_saveMu w = None"
  shows "\<exists>w'. run S (bind (locked (adopt_existing_claim key pd)) (\<lambda>adopted.
        case adopted of Some c \<Rightarrow> bind save_state (\<lambda>_. bind (push_running pd c) (\<lambda>_. Ret None)) | None \<Rightarrow> other)) w
      = Some (None, w') \<and> adopted key pd c w w'"
proof -
  let ?p = "(w_prov w)\<lparr>pv_claims := (pv_claims (w_prov w))(key \<mapsto> rebind c pd),
    pv_pods := (pv_pods (w_prov w))(key \<mapsto> pd)\<rparr>"
  obtain r w2 where save: "run S save_state (w\<lparr>w_prov := ?p\<rparr>) = Some ((), w2)"
    "wrote '''' S (w\<lparr>w_prov := ?p\<rparr>) r w2"
    using run_save_state [of "w\<lparr>w_prov := ?p\<rparr>" S] assms(4) by auto
  have prov: "w_prov w2 = ?p" using save(2) by (simp add: wrote_def)
  obtain es where es: "w_trace w2 = w_trace w @ es" "list_all keeps_sandboxes es"
    using wrote_keeps [OF save(2)] by auto
  have "adopt_existing_claim key pd (w_prov w) = (?p, Some (rebind c pd))"
    using assms(1-3) by (simp add: adopt_existing_claim_def)
  with save(1) prov es show ?thesis
    by (cases "pv_notifier (w_prov w)") (simp_all add: run_push_running adopted_def rebind_def)
qed

lemma run_create_adopts:
  assumes "key = pod_key (pod_namespace pd) (pod_name pd)"
    and "ann pd ann_runtime runtime_sandboxd = runtime_sandboxd" "w_saveMu w = None"
    and "pv_claims (w_prov w) key = Some c" "settled (w_prov w) key" "adoptable_by c pd"
    and "\<not> claim_expired c (svc_now S (w_trace w))"
  shows "\<exists>w'. run S (create_pod E pd) w = Some (None, w') \<and> adopted key pd c w w'"
proof -
  let ?w1 = "log_event (EvNow (svc_now S (w_trace w))) w"
  have "key \<notin> pv_quarantined (w_prov w)" using assms(5) by (simp add: settled_def)
  moreover obtain w' where "run S (bind (locked (adopt_existing_claim key pd)) (\<lambda>adopted.
        case adopted of Some c \<Rightarrow> bind save_state (\<lambda>_. bind (push_running pd c) (\<lambda>_. Ret None))
        | None \<Rightarrow> check (clear_stranded_claim key) (claim_fresh E key pd))) ?w1 = Some (None, w')"
    "adopted key pd c ?w1 w'"
    using run_adopt [of ?w1 key c pd S "check (clear_stranded_claim key) (claim_fresh E key pd)"] assms(3-6)
    by auto
  ultimately show ?thesis
    using assms(1,2) settle_live [OF assms(4,5,7)]
    by (auto simp: create_pod_def Let_def resolve_verified simp del: run_bind dest: adopted_log)
qed





lemma demo_request: "claim_request demo_ext demo_pod =
    Inr \<lparr>sp_template = ''py'', sp_net = '''', sp_size = '''', sp_ttlSeconds = 86400, sp_claimRef = ''ns/a''\<rparr>"
  by (simp add: claim_request_def claim_ttl_def ann_def cmp_or_def ann_template_def ann_ttl_seconds_def
      ann_net_def ann_size_def demo_ext_def default_claim_ttl_seconds_def pod_key_def)

subsection \<open>A fresh claim\<close>

lemma run_release_detached:
  "run S (release_detached c) w = (let r = svc_release S (w_trace w) DetachedCtx (cl_id c) (cl_token c)
     in Some (r, log_event (EvRelease DetachedCtx (cl_id c) (cl_token c) r) w))"
  by (simp add: release_detached_def Let_def)

text \<open>
  How a fresh claim may end, as a relation between the world before the claim, the error CreatePod
  returns and the world after it.
\<close>

fun fresh_outcome :: "string \<Rightarrow> pod \<Rightarrow> claim \<Rightarrow> world \<Rightarrow> pod_error option \<Rightarrow> world \<Rightarrow> bool" where
  "fresh_outcome key pd c w None w' =
     (pv_claims (w_prov w') = (pv_claims (w_prov w))(key \<mapsto> c) \<and> key \<notin> pv_tentative (w_prov w')
      \<and> (\<exists>ks st. w_disk w' = Some (encode_state ks st) \<and> sf_claims st key = Some c)
      \<and> (if pv_notifier (w_prov w) then EvNotify (running_pod pd c) \<in> set (w_trace w') else True))"
| "fresh_outcome key pd c w (Some (ErrPersist _ _)) w' =
     (pv_claims (w_prov w') = (pv_claims (w_prov w))(key := None) \<and> key \<notin> pv_tentative (w_prov w')
      \<and> w_disk w' = w_disk w
      \<and> EvRelease DetachedCtx (cl_id c) (cl_token c) None \<in> set (w_trace w'))"
| "fresh_outcome key pd c w (Some (ErrPersistAndRelease _ _ _ _)) w' =
     (pv_claims (w_prov w') = (pv_claims (w_prov w))(key \<mapsto> c) \<and> key \<in> pv_tentative (w_prov w')
      \<and> w_disk w' = w_disk w)"
| "fresh_outcome key pd c w (Some _) w' = False"



subsection \<open>When CreatePod refuses\<close>

text \<open>
  C21: CreatePod never claims over a sandbox that may be alive. While the key has a row that is
  unverified, or settled but past its cached deadline, and sandboxd cannot be listed, CreatePod fails,
  obtains and releases nothing, and leaves the provider as it was.
\<close>

theorem create_refuses_unlistable:
  assumes "key = pod_key (pod_namespace pd) (pod_name pd)" "pv_claims (w_prov w) key = Some c"
    and "ann pd ann_runtime runtime_sandboxd = runtime_sandboxd" "pv_lister (w_prov w)"
    and "\<And>h. svc_list S h = Inl e"
    and "key \<in> pv_quarantined (w_prov w)
      \<or> settled (w_prov w) key \<and> claim_expired c (svc_now S (w_trace w))"
  shows "\<exists>x w' es. run S (create_pod E pd) w = Some (Some x, w') \<and> w_prov w' = w_prov w
    \<and> w_disk w' = w_disk w \<and> w_trace w' = w_trace w @ es \<and> list_all keeps_sandboxes es"
  using assms(6)
proof
  assume q: "key \<in> pv_quarantined (w_prov w)"
  then have "run S (create_pod E pd) w = Some (Some (ErrUnverified key), log_event (EvList (Inl e)) w)"
    using run_verify_unlistable [OF assms(5,4) q] assms(1-3)
    by (simp add: create_pod_def resolve_unverified_claim_def Let_def)
  then show ?thesis by auto
next
  let ?t = "svc_now S (w_trace w)"
  assume s: "settled (w_prov w) key \<and> claim_expired c ?t"
  then have "key \<notin> pv_quarantined (w_prov w)" by (simp add: settled_def)
  with s assms have "run S (create_pod E pd) w = Some (Some (ErrExpiredUnlistable key (cl_id c) e),
      log_event (EvList (Inl e)) (log_event (EvNow ?t) w))"
    by (simp add: create_pod_def resolve_verified settle_expired_claim_def claim_for_def Let_def)
  then show ?thesis by auto
qed

theorem create_refuses_unlistable_witness:
  "\<exists>x w' es. run demo_down (create_pod demo_ext demo_pod) demo_loaded = Some (Some x, w')
    \<and> w_prov w' = w_prov demo_loaded \<and> w_disk w' = w_disk demo_loaded
    \<and> w_trace w' = w_trace demo_loaded @ es \<and> list_all keeps_sandboxes es"
  by (rule create_refuses_unlistable [where key = "''ns/a''" and c = demo_claimed and e = "''down''"])
    (simp_all add: pod_key_def demo_loaded_def demo_blank_def demo_down_def ann_def cmp_or_def
      ann_runtime_def runtime_sandboxd_def)

text \<open>
  C22: a stranded sandbox is returned before its key is used again. While the key has a tentative row
  whose claim never reached the disk, CreatePod asks sandboxd to release exactly that sandbox first; if
  sandboxd refuses, CreatePod fails and the row, with the only credential, stays as it is.
\<close>

theorem create_returns_stranded:
  assumes "key = pod_key (pod_namespace pd) (pod_name pd)" "pv_claims (w_prov w) key = Some c"
    and "ann pd ann_runtime runtime_sandboxd = runtime_sandboxd"
    and "key \<in> pv_tentative (w_prov w)" "key \<notin> pv_quarantined (w_prov w)"
  shows "run S (create_pod E pd) w =
    (let r = svc_release S (w_trace w) DetachedCtx (cl_id c) (cl_token c);
         w1 = log_event (EvRelease DetachedCtx (cl_id c) (cl_token c) r) w in
     case r of
       Some e \<Rightarrow> Some (Some (ErrStranded key (cl_id c) e), w1)
     | None \<Rightarrow> run S (claim_fresh E key pd) (w1\<lparr>w_prov := (w_prov w)\<lparr>
         pv_claims := (pv_claims (w_prov w))(key := None), pv_pods := (pv_pods (w_prov w))(key := None),
         pv_tentative := pv_tentative (w_prov w) - {key}\<rparr>\<rparr>))"
proof -
  have adopt: "adopt_existing_claim key pd (w_prov w) = (w_prov w, None)"
    using assms(2,4) by (simp add: adopt_existing_claim_def settled_def)
  have settle: "run S (settle_expired_claim key) w = Some (None, w)"
    using assms(4) by (simp add: settle_expired_claim_def claim_for_def settled_def)
  have "withdraw_claim key (cl_id c) (w_prov w) = (w_prov w)\<lparr>
         pv_claims := (pv_claims (w_prov w))(key := None), pv_pods := (pv_pods (w_prov w))(key := None),
         pv_tentative := pv_tentative (w_prov w) - {key}\<rparr>"
    using assms(2,5) by (simp add: withdraw_claim_def)
  then show ?thesis using assms adopt settle
    by (simp add: create_pod_def resolve_verified clear_stranded_claim_def run_release_detached Let_def
        split: option.splits)
qed

theorem create_returns_stranded_witness:
  "run demo_down (create_pod demo_ext demo_pod)
      (demo_held\<lparr>w_prov := (w_prov demo_held)\<lparr>pv_tentative := {''ns/a''}\<rparr>\<rparr>) =
    Some (Some (ErrStranded ''ns/a'' ''x'' ''down''), log_event (EvRelease DetachedCtx ''x'' ''t'' (Some ''down''))
      (demo_held\<lparr>w_prov := (w_prov demo_held)\<lparr>pv_tentative := {''ns/a''}\<rparr>\<rparr>))"
  using create_returns_stranded [of "''ns/a''" demo_pod
      "demo_held\<lparr>w_prov := (w_prov demo_held)\<lparr>pv_tentative := {''ns/a''}\<rparr>\<rparr>" demo_claimed demo_down demo_ext]
  by (simp add: pod_key_def ann_def cmp_or_def ann_runtime_def runtime_sandboxd_def demo_down_def
      demo_claimed_def)

subsection \<open>A lease past its cached deadline\<close>

lemma settle_expired:
  assumes "pv_claims (w_prov w) key = Some c" "settled (w_prov w) key"
    and "claim_expired c (svc_now S (w_trace w))" "pv_lister (w_prov w)"
    and "svc_list S (w_trace w @ [EvNow (svc_now S (w_trace w))]) = Inr l"
  shows "run S (settle_expired_claim key) w = Some (None,
    (log_event (EvList (Inr l)) (log_event (EvNow (svc_now S (w_trace w))) w))\<lparr>w_prov := (w_prov w)\<lparr>pv_claims :=
       (pv_claims (w_prov w))(key := map_option (\<lambda>row. c\<lparr>cl_deadline := ss_deadline row\<rparr>)
          (List.find (\<lambda>row. ss_id row = cl_id c) l))\<rparr>\<rparr>)"
  using assms
  by (cases "List.find (\<lambda>row. ss_id row = cl_id c) l")
    (simp_all add: settle_expired_claim_def claim_for_def drop_claim_def refresh_deadline_def)



subsection \<open>The claim request\<close>

text \<open>
  What CreatePod asks sandboxd for is well-formed. The template is named, the lease is a
  non-negative 64-bit number of seconds and one day when the Pod does not say, and the claim reference
  is the Pod's key, by which a claim whose answer was lost can be traced.
\<close>

lemma claim_request_bounds:
  assumes "claim_request E pd = Inr spec"
  shows "sp_template spec \<noteq> '''' \<and> 0 \<le> sp_ttlSeconds spec \<and> sp_ttlSeconds spec < 2 ^ 63
    \<and> sp_claimRef spec = pod_key (pod_namespace pd) (pod_name pd)
    \<and> (if pod_annotations pd ann_ttl_seconds = None then sp_ttlSeconds spec = 86400 else True)"
proof -
  obtain ttl where ttl: "claim_ttl pd = Inr ttl"
    and spec: "sp_ttlSeconds spec = ttl" "sp_template spec \<noteq> ''''"
      "sp_claimRef spec = pod_key (pod_namespace pd) (pod_name pd)"
    using assms by (auto simp: claim_request_def Let_def split: sum.splits if_splits)
  have "0 \<le> ttl \<and> ttl < 2 ^ 63"
    using ttl parse_int_range [of 64 "ann pd ann_ttl_seconds ''''"]
    by (auto simp: claim_ttl_def Let_def atoi_def default_claim_ttl_seconds_def split: if_splits option.splits)
  with spec ttl show ?thesis
    by (auto simp: claim_ttl_def ann_def cmp_or_def default_claim_ttl_seconds_def)
qed

lemma claim_request_bounds_witness:
  "sp_template \<lparr>sp_template = ''py'', sp_net = '''', sp_size = '''', sp_ttlSeconds = 86400, sp_claimRef = ''ns/a''\<rparr> \<noteq> ''''
    \<and> claim_request demo_ext demo_pod =
      Inr \<lparr>sp_template = ''py'', sp_net = '''', sp_size = '''', sp_ttlSeconds = 86400, sp_claimRef = ''ns/a''\<rparr>"
  using claim_request_bounds [OF demo_request] demo_request by simp

text \<open>
  The lease a Pod asks for is the lease that is requested. A decimal annotation is read back as the
  number it denotes when that fits a 64-bit integer, and refused when it does not.
\<close>

lemma ttl_roundtrip:
  assumes "pod_annotations pd ann_ttl_seconds = Some (decimal n)"
  shows "claim_ttl pd = (if n < 2 ^ 63 then Inr (int n)
    else Inl (ErrInvalidTTL (pod_key (pod_namespace pd) (pod_name pd)) (decimal n)))"
  using assms by (simp add: claim_ttl_def ann_def cmp_or_def atoi_def parse_int_decimal)

lemma ttl_roundtrip_witness:
  "claim_ttl (demo_pod\<lparr>pod_annotations := [ann_ttl_seconds \<mapsto> decimal 3600]\<rparr>) = Inr 3600"
  using ttl_roundtrip [of "demo_pod\<lparr>pod_annotations := [ann_ttl_seconds \<mapsto> decimal 3600]\<rparr>" 3600] by simp

end
