(* ===== verification/Ownership.thy ===== *)
theory Ownership
  imports Demo_Node
begin

text \<open>
  Delete authorization (\<^verbatim>\<open>provider/ownership.go\<close>): deriving the owner's resource from its
  reference, reading the owner, and the verdict that lets a Pod deletion, or the owner re-check,
  release a sandbox. The verdict table is proved as a complete characterisation, and its laws are
  the interface \<open>release_authority\<close> that the delete and re-check components rely on.
\<close>

datatype auth_verdict = AuthPreserve | AuthRelease

definition plural_resource :: "string \<Rightarrow> string" where
  "plural_resource lower =
     (if has_suffix lower ''s'' \<or> has_suffix lower ''x'' \<or> has_suffix lower ''z''
         \<or> has_suffix lower ''ch'' \<or> has_suffix lower ''sh''
      then lower @ ''es''
      else if has_suffix lower ''y'' \<and> length lower > 1
              \<and> lower ! (length lower - 2) \<notin> set ''aeiou''
      then take (length lower - 1) lower @ ''ies''
      else lower @ ''s'')"

definition owner_gvr :: "ext \<Rightarrow> string \<Rightarrow> string \<Rightarrow> gvr option" where
  "owner_gvr E apiVersion kind =
     (if kind = '''' then None
      else case parse_group_version E apiVersion of
             None \<Rightarrow> None
           | Some (g, v) \<Rightarrow>
               Some \<lparr>gvr_group = g, gvr_version = v,
                     gvr_resource = plural_resource (to_lower kind)\<rparr>)"

fun conditions_expired :: "ext \<Rightarrow> condition_val list \<Rightarrow> bool" where
  "conditions_expired E [] = False"
| "conditions_expired E (CondOther # cs) = conditions_expired E cs"
| "conditions_expired E (CondMap m # cs) =
     (if m ''type'' = Some (AnyString (sandbox_condition_ready E))
      then m ''reason'' = Some (AnyString (sandbox_reason_expired E))
      else conditions_expired E cs)"

definition owner_expired :: "ext \<Rightarrow> owner_obj \<Rightarrow> bool" where
  "owner_expired E obj = conditions_expired E (oo_conditions obj)"

definition not_found_name :: "api_error \<Rightarrow> string" where
  "not_found_name e = (case ae_status e of Some (Some n) \<Rightarrow> n | _ \<Rightarrow> '''')"

definition judge_owner :: "ext \<Rightarrow> owner_ref \<Rightarrow> api_error + owner_obj \<Rightarrow> auth_verdict \<times> string" where
  "judge_owner E ref reply =
     (let who = ''owner '' @ or_kind ref @ '' '' @ or_name ref in
      case reply of
        Inl e \<Rightarrow>
          if ae_notFound e then
            (if not_found_name e = or_name ref
             then (AuthRelease, who @ '' confirmed gone (structured NotFound)'')
             else (AuthPreserve, ''ambiguous 404 for '' @ who
                     @ '' (no Details.Name match): endpoint shape unverified''))
          else (AuthPreserve, ''owner query failed: '' @ ae_text e)
      | Inr obj \<Rightarrow>
          if oo_deletionTimestamp obj \<noteq> None
          then (AuthRelease, who @ '' in teardown (deletionTimestamp set)'')
          else if owner_expired E obj
          then (AuthRelease, who @ '' expired: the operator tore its workload down'')
          else if or_uid ref \<noteq> '''' \<and> oo_uid obj \<noteq> or_uid ref
          then (AuthRelease, who @ '' UID rotated: referenced generation gone'')
          else (AuthPreserve, who @ '' alive: pod deletion is not VM authority''))"

definition destroy_authorized ::
    "ext \<Rightarrow> bool \<Rightarrow> string \<Rightarrow> owner_ref option \<Rightarrow> (auth_verdict \<times> string) prog" where
  "destroy_authorized E dyn namespace ref =
     (case ref of
        None \<Rightarrow> Ret (AuthRelease, ''bare pod: pod deletion is the owner teardown'')
      | Some r \<Rightarrow>
          if \<not> dyn then Ret (AuthPreserve, ''no dynamic client: owner state unverifiable'')
          else (case owner_gvr E (or_apiVersion r) (or_kind r) of
                  None \<Rightarrow> Ret (AuthPreserve, ''owner GVR unresolvable for kind '' @ or_kind r)
                | Some g \<Rightarrow>
                    bind (dyn_get g namespace (or_name r)) (\<lambda>reply. Ret (judge_owner E r reply))))"

subsection \<open>The verdict table\<close>

text \<open>What counts as evidence that the owner no longer wants the sandbox.\<close>

definition owner_released :: "ext \<Rightarrow> owner_ref \<Rightarrow> api_error + owner_obj \<Rightarrow> bool" where
  "owner_released E ref reply =
     (case reply of
        Inl e \<Rightarrow> ae_notFound e \<and> not_found_name e = or_name ref
      | Inr obj \<Rightarrow> oo_deletionTimestamp obj \<noteq> None \<or> owner_expired E obj
                   \<or> (or_uid ref \<noteq> '''' \<and> oo_uid obj \<noteq> or_uid ref))"

lemma judge_owner_release: "fst (judge_owner E ref reply) = AuthRelease \<longleftrightarrow> owner_released E ref reply"
  by (simp add: judge_owner_def owner_released_def Let_def split: sum.splits)

definition ready_condition :: "ext \<Rightarrow> condition_val \<Rightarrow> bool" where
  "ready_condition E c =
     (case c of CondMap m \<Rightarrow> m ''type'' = Some (AnyString (sandbox_condition_ready E)) | CondOther \<Rightarrow> False)"

text \<open>Only the first Ready condition is looked at, whatever stands before or after it.\<close>

lemma conditions_expired_find:
  "conditions_expired E cs \<longleftrightarrow>
     (\<exists>m. List.find (ready_condition E) cs = Some (CondMap m)
        \<and> m ''reason'' = Some (AnyString (sandbox_reason_expired E)))"
  by (induction E cs rule: conditions_expired.induct)
    (auto simp: ready_condition_def)

text \<open>The verdict, as a predicate on what the apiserver answers to the one query.\<close>

definition authorises ::
    "ext \<Rightarrow> bool \<Rightarrow> string \<Rightarrow> owner_ref option \<Rightarrow> services \<Rightarrow> event list \<Rightarrow> bool" where
  "authorises E dyn ns ref S h =
     (case ref of
        None \<Rightarrow> True
      | Some r \<Rightarrow>
          dyn \<and> (case owner_gvr E (or_apiVersion r) (or_kind r) of
                    None \<Rightarrow> False
                  | Some g \<Rightarrow> owner_released E r (svc_get S h g ns (or_name r))))"

definition owner_query ::
    "ext \<Rightarrow> bool \<Rightarrow> string \<Rightarrow> owner_ref option \<Rightarrow> services \<Rightarrow> event list \<Rightarrow> event list" where
  "owner_query E dyn ns ref S h =
     (case ref of
        None \<Rightarrow> []
      | Some r \<Rightarrow>
          if \<not> dyn then []
          else case owner_gvr E (or_apiVersion r) (or_kind r) of
                 None \<Rightarrow> []
               | Some g \<Rightarrow> [EvGet g ns (or_name r) (svc_get S h g ns (or_name r))])"

lemma run_destroy_authorized:
  "\<exists>v reason. run S (destroy_authorized E dyn ns ref) w =
       Some ((v, reason), w\<lparr>w_trace := w_trace w @ owner_query E dyn ns ref S (w_trace w)\<rparr>)
     \<and> (v = AuthRelease \<longleftrightarrow> authorises E dyn ns ref S (w_trace w))"
proof (cases ref)
  case None
  then show ?thesis
    by (simp add: destroy_authorized_def owner_query_def authorises_def)
next
  case (Some r)
  show ?thesis
  proof (cases "dyn \<and> owner_gvr E (or_apiVersion r) (or_kind r) \<noteq> None")
    case False
    with Some show ?thesis
      by (auto simp: destroy_authorized_def owner_query_def authorises_def)
  next
    case True
    then obtain g where g: "dyn" "owner_gvr E (or_apiVersion r) (or_kind r) = Some g" by auto
    let ?reply = "svc_get S (w_trace w) g ns (or_name r)"
    from Some g judge_owner_release [of E r ?reply] show ?thesis
      by (cases "judge_owner E r ?reply")
        (auto simp: destroy_authorized_def owner_query_def authorises_def log_event_def)
  qed
qed

subsection \<open>The interface the delete and re-check components rely on\<close>

text \<open>
  A decision procedure that asks the outside and answers with a verdict. Its promises: it only
  reads (nothing changes but the history of calls), it releases no sandbox itself, and it
  permits a release exactly when the evidence does.
\<close>

locale release_authority =
  fixes decide :: "bool \<Rightarrow> string \<Rightarrow> owner_ref option \<Rightarrow> (auth_verdict \<times> string) prog"
    and query :: "bool \<Rightarrow> string \<Rightarrow> owner_ref option \<Rightarrow> services \<Rightarrow> event list \<Rightarrow> event list"
    and evidence :: "bool \<Rightarrow> string \<Rightarrow> owner_ref option \<Rightarrow> services \<Rightarrow> event list \<Rightarrow> bool"
  assumes decides: "\<exists>v reason. run S (decide d ns ref) w =
        Some ((v, reason), w\<lparr>w_trace := w_trace w @ query d ns ref S (w_trace w)\<rparr>)
      \<and> (v = AuthRelease \<longleftrightarrow> evidence d ns ref S (w_trace w))"
    and asks_only: "e \<in> set (query d ns ref S h) \<Longrightarrow> \<exists>g n r. e = EvGet g ns n r"
begin

text \<open>A client that branches on the verdict takes the branch the evidence selects.\<close>

lemma gate:
  "run S (bind (decide d ns ref) (\<lambda>(v, reason). if v \<noteq> AuthRelease then keep reason else go reason)) w
     = (let w' = w\<lparr>w_trace := w_trace w @ query d ns ref S (w_trace w)\<rparr>
        in if evidence d ns ref S (w_trace w) then run S (go (snd (fst (the (run S (decide d ns ref) w))))) w'
           else run S (keep (snd (fst (the (run S (decide d ns ref) w))))) w')"
proof -
  obtain v reason where r: "run S (decide d ns ref) w =
      Some ((v, reason), w\<lparr>w_trace := w_trace w @ query d ns ref S (w_trace w)\<rparr>)"
    and v: "v = AuthRelease \<longleftrightarrow> evidence d ns ref S (w_trace w)"
    using decides by blast
  then show ?thesis by (simp add: Let_def)
qed

lemma query_no_release: "EvRelease c i t r \<notin> set (query d ns ref S h)"
  using asks_only by blast

lemma query_no_claim: "EvClaim sp r \<notin> set (query d ns ref S h)"
  using asks_only by blast

end

interpretation auth: release_authority "destroy_authorized E" "owner_query E" "authorises E" for E
proof unfold_locales
  fix S d ns ref w
  show "\<exists>v reason. run S (destroy_authorized E d ns ref) w =
        Some ((v, reason), w\<lparr>w_trace := w_trace w @ owner_query E d ns ref S (w_trace w)\<rparr>)
      \<and> (v = AuthRelease \<longleftrightarrow> authorises E d ns ref S (w_trace w))"
    by (rule run_destroy_authorized)
next
  fix e d ns ref S h
  assume "e \<in> set (owner_query E d ns ref S h)"
  then show "\<exists>g n r. e = EvGet g ns n r"
    by (auto simp: owner_query_def split: option.splits if_splits)
qed

subsection \<open>The verdict\<close>

text \<open>
  C10: the verdict on an owner is a release exactly on evidence. For a Pod with a controller, the
  decision asks the apiserver one question, changes nothing, and permits the release if and only if
  there is a dynamic client, the owner's resource can be named, and the answer is a NotFound that names
  this very owner, or an object that is being deleted, has expired, or carries another UID. Every other
  answer, every other error among them, preserves.
\<close>

theorem verdict_needs_evidence:
  "\<exists>v reason. run S (destroy_authorized E dyn ns (Some r)) w =
      Some ((v, reason), w\<lparr>w_trace := w_trace w @ owner_query E dyn ns (Some r) S (w_trace w)\<rparr>)
    \<and> (v = AuthRelease) =
        (dyn \<and> (\<exists>g. owner_gvr E (or_apiVersion r) (or_kind r) = Some g
          \<and> (case svc_get S (w_trace w) g ns (or_name r) of
               Inl e \<Rightarrow> ae_notFound e \<and> not_found_name e = or_name r
             | Inr obj \<Rightarrow> oo_deletionTimestamp obj \<noteq> None \<or> owner_expired E obj
                 \<or> or_uid r \<noteq> '''' \<and> oo_uid obj \<noteq> or_uid r)))"
  using run_destroy_authorized [of S E dyn ns "Some r" w]
  by (auto simp: authorises_def owner_released_def split: option.splits sum.splits)

theorem verdict_needs_evidence_witness:
  "\<exists>v reason. run demo (destroy_authorized demo_ext True ''ns'' (Some demo_owner)) demo_world =
      Some ((v, reason), demo_world\<lparr>w_trace := owner_query demo_ext True ''ns'' (Some demo_owner) demo []\<rparr>)
    \<and> v = AuthRelease"
  using verdict_needs_evidence [of demo demo_ext True "''ns''" demo_owner demo_world]
  by (auto simp: owner_gvr_def demo_ext_def demo_owner_def not_found_name_def)

end
