(* ===== verification/Delete_Pod.thy ===== *)
theory Delete_Pod
  imports Create_Pod Ownership
begin

text \<open>
  DeletePod (\<^verbatim>\<open>provider/delete.go\<close>): a deletion releases the sandbox only with authority, and
  preserves the claim, with its owner recorded, otherwise.
\<close>

definition forget_pod :: "string \<Rightarrow> provider \<Rightarrow> provider" where
  "forget_pod key p = p\<lparr>pv_pods := (pv_pods p)(key := None)\<rparr>"

definition preserve_row :: "string \<Rightarrow> string \<Rightarrow> owner_ref option \<Rightarrow> provider \<Rightarrow> provider" where
  "preserve_row key i owner p =
     (let p' = p\<lparr>pv_pods := (pv_pods p)(key := None)\<rparr>
      in case pv_claims p' key of
           Some c \<Rightarrow>
             if cl_id c = i
             then p'\<lparr>pv_claims := (pv_claims p')(key \<mapsto> c\<lparr>cl_owner := owner\<rparr>)\<rparr> else p'
         | None \<Rightarrow> p')"

definition preserve_claim :: "string \<Rightarrow> string \<Rightarrow> owner_ref option \<Rightarrow> unit prog" where
  "preserve_claim key i owner = bind (modify (preserve_row key i owner)) (\<lambda>_. save_state)"

definition delete_pod :: "ext \<Rightarrow> pod \<Rightarrow> pod_error option prog" where
  "delete_pod E pd =
     (let key = pod_key (pod_namespace pd) (pod_name pd) in
      bind (reads (pod_uid_is_current key pd)) (\<lambda>current.
      if \<not> current then Ret None else
      bind (reads (held_claim_for key)) (\<lambda>held.
        case held of
          None \<Rightarrow> bind (modify (forget_pod key)) (\<lambda>_. Ret None)
        | Some c \<Rightarrow>
            bind (reads pv_dyn) (\<lambda>dyn.
            bind (destroy_authorized E dyn (pod_namespace pd) (pod_controller pd)) (\<lambda>(verdict, reason).
            if verdict \<noteq> AuthRelease
            then bind (preserve_claim key (cl_id c) (pod_controller pd)) (\<lambda>_. Ret None)
            else
              bind (client_release CallerCtx (cl_id c) (cl_token c)) (\<lambda>r.
                case r of
                  Some e \<Rightarrow> Ret (Some (ErrRelease (cl_id c) key e))
                | None \<Rightarrow>
                    bind (modify (withdraw_claim key (cl_id c))) (\<lambda>_.
                    bind save_state (\<lambda>_. Ret None))))))))"

interpretation forget: keyed_section forget_pod
  by unfold_locales (auto simp: forget_pod_def row_view_def)

interpretation preserve: guarded_section "\<lambda>key i. preserve_row key i owner" i for owner i
  by unfold_locales
    (auto simp: preserve_row_def row_view_def Let_def split: option.splits if_splits)


subsection \<open>What a deletion comes to\<close>

lemma run_preserve_claim:
  assumes "w_saveMu w = None" "pv_claims (w_prov w) key = Some c"
  shows "\<exists>w' es. run S (preserve_claim key (cl_id c) owner) w = Some ((), w') \<and> w_saveMu w' = None
    \<and> w_prov w' = (w_prov w)\<lparr>pv_pods := (pv_pods (w_prov w))(key := None),
         pv_claims := (pv_claims (w_prov w))(key \<mapsto> c\<lparr>cl_owner := owner\<rparr>)\<rparr>
    \<and> w_trace w' = w_trace w @ es \<and> list_all keeps_sandboxes es"
proof -
  let ?p = "preserve_row key (cl_id c) owner (w_prov w)"
  have p: "?p = (w_prov w)\<lparr>pv_pods := (pv_pods (w_prov w))(key := None),
         pv_claims := (pv_claims (w_prov w))(key \<mapsto> c\<lparr>cl_owner := owner\<rparr>)\<rparr>"
    using assms(2) by (simp add: preserve_row_def Let_def)
  obtain r w' where "run S save_state (w\<lparr>w_prov := ?p\<rparr>) = Some ((), w')" "wrote '''' S (w\<lparr>w_prov := ?p\<rparr>) r w'"
    using run_save_state [of "w\<lparr>w_prov := ?p\<rparr>" S] assms(1) by auto
  with wrote_keeps [of "''''" S "w\<lparr>w_prov := ?p\<rparr>" r w'] p assms(1) show ?thesis
    by (auto simp: preserve_claim_def wrote_def)
qed

text \<open>The query of the owner neither obtains nor gives back a sandbox.\<close>

lemma owner_query_keeps: "list_all keeps_sandboxes (owner_query E dyn ns ref S h)"
  unfolding list_all_iff by (auto dest: auth.asks_only)

definition asked :: "ext \<Rightarrow> pod \<Rightarrow> services \<Rightarrow> world \<Rightarrow> world" where
  "asked E pd S w = w\<lparr>w_trace := w_trace w
     @ owner_query E (pv_dyn (w_prov w)) (pod_namespace pd) (pod_controller pd) S (w_trace w)\<rparr>"

lemma run_delete_held:
  assumes "key = pod_key (pod_namespace pd) (pod_name pd)"
    and "pod_uid_is_current key pd (w_prov w)" "pv_claims (w_prov w) key = Some c"
  shows "run S (delete_pod E pd) w =
    (if authorises E (pv_dyn (w_prov w)) (pod_namespace pd) (pod_controller pd) S (w_trace w)
     then run S (bind (client_release CallerCtx (cl_id c) (cl_token c)) (\<lambda>r.
            case r of
              Some e \<Rightarrow> Ret (Some (ErrRelease (cl_id c) key e))
            | None \<Rightarrow> bind (modify (withdraw_claim key (cl_id c))) (\<lambda>_. bind save_state (\<lambda>_. Ret None))))
            (asked E pd S w)
     else run S (bind (preserve_claim key (cl_id c) (pod_controller pd)) (\<lambda>_. Ret None)) (asked E pd S w))"
proof -
  obtain v reason where "run S (destroy_authorized E (pv_dyn (w_prov w)) (pod_namespace pd) (pod_controller pd)) w
      = Some ((v, reason), asked E pd S w)"
    "v = AuthRelease \<longleftrightarrow> authorises E (pv_dyn (w_prov w)) (pod_namespace pd) (pod_controller pd) S (w_trace w)"
    using auth.decides [of S E "pv_dyn (w_prov w)"] unfolding asked_def by blast
  with assms(2,3) show ?thesis
    by (simp add: delete_pod_def Let_def held_claim_for_def assms(1) [symmetric])
qed

text \<open>
  A deletion without authority: the row stays, with the owner on record, the Pod is forgotten.
\<close>

lemma run_delete_preserves:
  assumes "key = pod_key (pod_namespace pd) (pod_name pd)" "w_saveMu w = None"
    and "pod_uid_is_current key pd (w_prov w)" "pv_claims (w_prov w) key = Some c"
    and "\<not> authorises E (pv_dyn (w_prov w)) (pod_namespace pd) (pod_controller pd) S (w_trace w)"
  shows "\<exists>w' es. run S (delete_pod E pd) w = Some (None, w') \<and> w_saveMu w' = None
    \<and> w_prov w' = (w_prov w)\<lparr>pv_pods := (pv_pods (w_prov w))(key := None),
         pv_claims := (pv_claims (w_prov w))(key \<mapsto> c\<lparr>cl_owner := pod_controller pd\<rparr>)\<rparr>
    \<and> w_trace w' = w_trace w @ es \<and> list_all keeps_sandboxes es"
proof -
  let ?w1 = "asked E pd S w"
  obtain w' es where w': "run S (preserve_claim key (cl_id c) (pod_controller pd)) ?w1 = Some ((), w')"
    "w_saveMu w' = None" "w_prov w' = (w_prov w)\<lparr>pv_pods := (pv_pods (w_prov w))(key := None),
         pv_claims := (pv_claims (w_prov w))(key \<mapsto> c\<lparr>cl_owner := pod_controller pd\<rparr>)\<rparr>"
    "w_trace w' = w_trace ?w1 @ es" "list_all keeps_sandboxes es"
    using run_preserve_claim [of ?w1 key c S "pod_controller pd"] assms(2,4) by (auto simp: asked_def)
  have "run S (delete_pod E pd) w = Some (None, w')"
    using run_delete_held [OF assms(1,3,4)] assms(5) w'(1) by simp
  with w' owner_query_keeps show ?thesis by (auto simp: asked_def)
qed

text \<open>A deletion with authority: one release call, and the row goes if it succeeds.\<close>

lemma run_delete_releases:
  assumes "key = pod_key (pod_namespace pd) (pod_name pd)" "w_saveMu w = None"
    and "pod_uid_is_current key pd (w_prov w)" "pv_claims (w_prov w) key = Some c"
    and "authorises E (pv_dyn (w_prov w)) (pod_namespace pd) (pod_controller pd) S (w_trace w)"
  shows "\<exists>r w' q es. run S (delete_pod E pd) w = Some (r, w')
    \<and> w_trace w' = w_trace (asked E pd S w) @ EvRelease CallerCtx (cl_id c) (cl_token c) q # es
    \<and> list_all keeps_sandboxes es
    \<and> (case q of
         None \<Rightarrow> r = None \<and> w_prov w' = withdraw_claim key (cl_id c) (w_prov w)
       | Some e \<Rightarrow> r = Some (ErrRelease (cl_id c) key e) \<and> w_prov w' = w_prov w \<and> w_disk w' = w_disk w)"
proof -
  let ?q = "svc_release S (w_trace (asked E pd S w)) CallerCtx (cl_id c) (cl_token c)"
  let ?e = "EvRelease CallerCtx (cl_id c) (cl_token c) ?q"
  let ?w1 = "(log_event ?e (asked E pd S w))\<lparr>w_prov := withdraw_claim key (cl_id c) (w_prov w)\<rparr>"
  show ?thesis
  proof (cases ?q)
    case None
    obtain s w2 where save: "run S save_state ?w1 = Some ((), w2)" "wrote '''' S ?w1 s w2"
      using run_save_state [of ?w1 S] assms(2) by (auto simp: asked_def)
    obtain es where es: "w_trace w2 = w_trace ?w1 @ es" "list_all keeps_sandboxes es"
      using wrote_keeps [OF save(2)] by blast
    have "run S (delete_pod E pd) w = Some (None, w2)"
      using run_delete_held [OF assms(1,3,4), of S E] assms(5) save(1) None by (simp add: asked_def)
    moreover have "w_prov w2 = withdraw_claim key (cl_id c) (w_prov w)" using save(2) by (simp add: wrote_def)
    ultimately show ?thesis using es None by (intro exI [of _ None] exI [of _ w2] exI [of _ es]) simp
  next
    case (Some e)
    then have "run S (delete_pod E pd) w = Some (Some (ErrRelease (cl_id c) key e), log_event ?e (asked E pd S w))"
      using run_delete_held [OF assms(1,3,4), of S E] assms(5) by simp
    with Some show ?thesis by (auto simp: asked_def)
  qed
qed

text \<open>
  A Pod deletion destroys a sandbox only with authority. Whatever a deletion does, each release it
  asks sandboxd for is of the sandbox bound to the Pod's key, with that sandbox's token, and only when
  the Pod is bare or the apiserver's answer shows that the controlling owner no longer wants it.
\<close>

lemma delete_needs_authority:
  assumes "key = pod_key (pod_namespace pd) (pod_name pd)" "w_saveMu w = None"
  shows "\<exists>r w' es. run S (delete_pod E pd) w = Some (r, w') \<and> w_trace w' = w_trace w @ es
    \<and> (\<forall>ctx x t q. EvRelease ctx x t q \<in> set es \<longrightarrow>
         authorises E (pv_dyn (w_prov w)) (pod_namespace pd) (pod_controller pd) S (w_trace w)
         \<and> (\<exists>c. pv_claims (w_prov w) key = Some c \<and> x = cl_id c \<and> t = cl_token c))"
proof -
  let ?auth = "authorises E (pv_dyn (w_prov w)) (pod_namespace pd) (pod_controller pd) S (w_trace w)"
  consider "\<not> (pod_uid_is_current key pd (w_prov w) \<and> pv_claims (w_prov w) key \<noteq> None)"
    | c where "pod_uid_is_current key pd (w_prov w)" "pv_claims (w_prov w) key = Some c" "\<not> ?auth"
    | c where "pod_uid_is_current key pd (w_prov w)" "pv_claims (w_prov w) key = Some c" ?auth
    by blast
  then show ?thesis
  proof cases
    case 1
    with assms show ?thesis by (auto simp: delete_pod_def Let_def held_claim_for_def)
  next
    case 2
    from run_delete_preserves [OF assms 2] obtain w' es where
      "run S (delete_pod E pd) w = Some (None, w')" "w_trace w' = w_trace w @ es" "list_all keeps_sandboxes es"
      by blast
    then show ?thesis by (fastforce simp: list_all_iff)
  next
    case 3
    from run_delete_releases [OF assms 3] obtain r w' q es where
      "run S (delete_pod E pd) w = Some (r, w')" "list_all keeps_sandboxes es"
      "w_trace w' = w_trace (asked E pd S w) @ EvRelease CallerCtx (cl_id c) (cl_token c) q # es" by blast
    with 3 owner_query_keeps [of E "pv_dyn (w_prov w)" "pod_namespace pd" "pod_controller pd" S "w_trace w"]
    show ?thesis by (fastforce simp: asked_def list_all_iff)
  qed
qed

lemma demo_alive_keeps: "\<not> authorises demo_ext True ''ns'' (Some demo_owner) demo_alive h"
  by (simp add: authorises_def demo_ext_def owner_gvr_def demo_owner_def owner_released_def demo_alive_def
      owner_expired_def)

lemma demo_current: "pod_uid_is_current ''ns/a'' demo_owned (w_prov demo_held)"
  by (simp add: pod_uid_is_current_def demo_owned_def)

lemma delete_needs_authority_witness:
  "\<exists>r w' es. run demo (delete_pod demo_ext demo_pod) demo_held = Some (r, w') \<and> w_trace w' = es
    \<and> (\<forall>ctx x t q. (EvRelease ctx x t q \<in> set es) = (EvRelease ctx x t q \<in> set es
         \<and> x = cl_id demo_claimed \<and> t = cl_token demo_claimed))"
  using delete_needs_authority [of "''ns/a''" demo_pod demo_held demo demo_ext]
  by (fastforce simp: pod_key_def)

text \<open>
  C24: a deletion without authority preserves the sandbox. The claim stays on its key with nothing but
  its owner changed, to the owner the re-check will ask about; the Pod is forgotten; no other row, marker
  or queued claim changes; and no call obtains or gives back a sandbox.
\<close>

theorem delete_preserves:
  assumes "key = pod_key (pod_namespace pd) (pod_name pd)" "w_saveMu w = None"
    and "pod_uid_is_current key pd (w_prov w)" "pv_claims (w_prov w) key = Some c"
    and "\<not> authorises E (pv_dyn (w_prov w)) (pod_namespace pd) (pod_controller pd) S (w_trace w)"
  shows "\<exists>w' es. run S (delete_pod E pd) w = Some (None, w')
    \<and> w_prov w' = (w_prov w)\<lparr>pv_pods := (pv_pods (w_prov w))(key := None),
         pv_claims := (pv_claims (w_prov w))(key \<mapsto> c\<lparr>cl_owner := pod_controller pd\<rparr>)\<rparr>
    \<and> w_trace w' = w_trace w @ es \<and> list_all keeps_sandboxes es"
  using run_delete_preserves [OF assms] by blast

theorem delete_preserves_witness:
  "\<exists>w' es. run demo_alive (delete_pod demo_ext demo_owned) demo_held = Some (None, w')
    \<and> pv_claims (w_prov w') = [''ns/a'' \<mapsto> demo_claimed\<lparr>cl_owner := Some demo_owner\<rparr>]
    \<and> w_trace w' = es \<and> list_all keeps_sandboxes es"
  using delete_preserves [OF _ _ demo_current, of demo_claimed demo_ext demo_alive] demo_alive_keeps [of "[]"]
  by (auto simp: pod_key_def demo_owned_def)

text \<open>
  C25: an authorised deletion releases the sandbox or keeps everything. One release is asked for, with
  the row's id and token. If sandboxd accepts, the row, its Pod and its markers go and every other key is
  untouched; if it refuses, DeletePod returns the error and the provider and the state file are as they
  were, so that a retry can release it.
\<close>

theorem delete_releases_or_keeps:
  assumes "key = pod_key (pod_namespace pd) (pod_name pd)" "w_saveMu w = None"
    and "pod_uid_is_current key pd (w_prov w)" "pv_claims (w_prov w) key = Some c"
    and "authorises E (pv_dyn (w_prov w)) (pod_namespace pd) (pod_controller pd) S (w_trace w)"
  shows "\<exists>r w' q. run S (delete_pod E pd) w = Some (r, w')
    \<and> filter (\<lambda>e. \<not> keeps_sandboxes e) (w_trace w') =
        filter (\<lambda>e. \<not> keeps_sandboxes e) (w_trace w) @ [EvRelease CallerCtx (cl_id c) (cl_token c) q]
    \<and> (case q of
         None \<Rightarrow> r = None \<and> row_view key (w_prov w') = (None, None, False, False)
           \<and> (\<forall>k \<in> - {key}. row_view k (w_prov w') = row_view k (w_prov w))
       | Some e \<Rightarrow> r = Some (ErrRelease (cl_id c) key e) \<and> w_prov w' = w_prov w \<and> w_disk w' = w_disk w)"
proof -
  obtain r w' q es where run: "run S (delete_pod E pd) w = Some (r, w')"
    and tr: "w_trace w' = w_trace (asked E pd S w) @ EvRelease CallerCtx (cl_id c) (cl_token c) q # es"
    and keep: "list_all keeps_sandboxes es"
    and out: "case q of
         None \<Rightarrow> r = None \<and> w_prov w' = withdraw_claim key (cl_id c) (w_prov w)
       | Some e \<Rightarrow> r = Some (ErrRelease (cl_id c) key e) \<and> w_prov w' = w_prov w \<and> w_disk w' = w_disk w"
    using run_delete_releases [OF assms] by blast
  have none: "filter (\<lambda>e. \<not> keeps_sandboxes e) es = []" if "list_all keeps_sandboxes es" for es
    using that by (simp add: filter_empty_conv list_all_iff)
  have "filter (\<lambda>e. \<not> keeps_sandboxes e) (w_trace w') =
      filter (\<lambda>e. \<not> keeps_sandboxes e) (w_trace w) @ [EvRelease CallerCtx (cl_id c) (cl_token c) q]"
    using tr none [OF keep] none [OF owner_query_keeps] by (simp add: asked_def)
  moreover have "row_view key (withdraw_claim key (cl_id c) (w_prov w)) = (None, None, False, False)"
    using assms(4) by (simp add: withdraw_claim_def row_view_def Let_def)
  moreover have "row_view k (withdraw_claim key (cl_id c) (w_prov w)) = row_view k (w_prov w)" if "k \<noteq> key" for k
    by (rule withdraw.other [OF that])
  ultimately show ?thesis using run out
    by (intro exI [of _ r] exI [of _ w'] exI [of _ q]) (simp split: option.splits)
qed

theorem delete_releases_or_keeps_witness:
  "\<exists>r w' q. run demo (delete_pod demo_ext demo_pod) demo_held = Some (r, w')
    \<and> filter (\<lambda>e. \<not> keeps_sandboxes e) (w_trace w') = [EvRelease CallerCtx ''x'' ''t'' q]
    \<and> (case q of None \<Rightarrow> pv_claims (w_prov w') ''ns/a'' = None | Some e \<Rightarrow> w_prov w' = w_prov demo_held)"
proof -
  have "pod_uid_is_current ''ns/a'' demo_pod (w_prov demo_held)" by (simp add: pod_uid_is_current_def)
  from delete_releases_or_keeps [OF _ _ this, of demo_claimed demo_ext demo] show ?thesis
    by (auto simp: pod_key_def authorises_def demo_claimed_def row_view_def split: option.splits)
qed

text \<open>
  C26: a request about a previous generation of the Pod changes nothing. When the key is tracked under
  another Pod UID, DeletePod and UpdatePod succeed, ask nobody anything and leave the world as it is.
\<close>

theorem stale_requests_ignored:
  assumes "pv_pods (w_prov w) (pod_key (pod_namespace pd) (pod_name pd)) = Some cur" "pod_uid cur \<noteq> pod_uid pd"
  shows "run S (delete_pod E pd) w = Some (None, w) \<and> run S (update_pod E pd) w = Some (None, w)"
  using assms by (simp add: delete_pod_def update_pod_def pod_uid_is_current_def Let_def)

theorem stale_requests_ignored_witness:
  "run demo (delete_pod demo_ext (demo_pod\<lparr>pod_uid := ''u0''\<rparr>)) demo_held = Some (None, demo_held)
    \<and> run demo (update_pod demo_ext (demo_pod\<lparr>pod_uid := ''u0''\<rparr>)) demo_held = Some (None, demo_held)"
  by (rule stale_requests_ignored [where cur = demo_pod]) (simp_all add: pod_key_def)



subsection \<open>Deletion, then re-creation\<close>



end
