(* ===== verification/Owner_Recheck.thy ===== *)
theory Owner_Recheck
  imports Delete_Pod
begin

text \<open>
  The owner re-check (\<^verbatim>\<open>provider/recheck.go\<close>): preserved claims are asked about with a doubling
  backoff, moved to the release queue once their owner is gone, and the queue is drained.
\<close>

definition owner_recheck_max_delay :: duration where
  "owner_recheck_max_delay = 10 * minute"

definition preserved_claims :: "provider \<Rightarrow> (string \<rightharpoonup> claim)" where
  "preserved_claims p =
     (\<lambda>key. case pv_claims p key of
              Some c \<Rightarrow>
                if cl_owner c \<noteq> None \<and> pv_pods p key = None \<and> settled p key then Some c else None
            | None \<Rightarrow> None)"

definition prune_rechecks :: "(string \<rightharpoonup> claim) \<Rightarrow> provider \<Rightarrow> provider" where
  "prune_rechecks preserved p =
     p\<lparr>pv_ownerRechecks := pv_ownerRechecks p |` dom preserved\<rparr>"

definition withdraw_for_release :: "string \<Rightarrow> claim \<Rightarrow> provider \<Rightarrow> provider \<times> bool" where
  "withdraw_for_release key c p =
     (case pv_claims p key of
        None \<Rightarrow> (p, False)
      | Some cur \<Rightarrow>
          if cl_id cur \<noteq> cl_id c \<or> pv_pods p key \<noteq> None then (p, False)
          else (p\<lparr>pv_claims := (pv_claims p)(key := None),
                  pv_releasing := pv_releasing p @ [c]\<rparr>, True))"

definition delete_recheck :: "string \<Rightarrow> provider \<Rightarrow> provider" where
  "delete_recheck key p = p\<lparr>pv_ownerRechecks := (pv_ownerRechecks p)(key := None)\<rparr>"

definition next_recheck :: "gtime \<Rightarrow> duration \<Rightarrow> owner_recheck option \<Rightarrow> owner_recheck" where
  "next_recheck t base seen =
     (let delay = (case seen of
                     None \<Rightarrow> base
                   | Some r \<Rightarrow> min (wrap64 (2 * rc_delay r)) owner_recheck_max_delay)
      in \<lparr>rc_at = t + delay, rc_delay = delay\<rparr>)"

definition set_recheck :: "string \<Rightarrow> owner_recheck \<Rightarrow> provider \<Rightarrow> provider" where
  "set_recheck key r p = p\<lparr>pv_ownerRechecks := (pv_ownerRechecks p)(key \<mapsto> r)\<rparr>"

definition remove_released :: "string \<Rightarrow> provider \<Rightarrow> provider" where
  "remove_released i p = p\<lparr>pv_releasing := filter (\<lambda>q. cl_id q \<noteq> i) (pv_releasing p)\<rparr>"

definition drain_one :: "claim \<Rightarrow> bool \<Rightarrow> bool prog" where
  "drain_one c any =
     bind (client_release CallerCtx (cl_id c) (cl_token c)) (\<lambda>r.
       case r of
         Some e \<Rightarrow> Ret any
       | None \<Rightarrow> bind (modify (remove_released (cl_id c))) (\<lambda>_. Ret True))"

definition drain_releases :: "bool prog" where
  "drain_releases =
     bind (reads pv_releasing) (\<lambda>queued. for_each drain_one queued False)"

definition recheck_one ::
    "ext \<Rightarrow> gtime \<Rightarrow> duration \<Rightarrow> (string \<rightharpoonup> claim) \<Rightarrow> string \<Rightarrow> bool \<Rightarrow> bool prog" where
  "recheck_one E t base preserved key changed =
     (case preserved key of
        None \<Rightarrow> Ret changed
      | Some c \<Rightarrow>
          bind (reads (\<lambda>p. pv_ownerRechecks p key)) (\<lambda>seen.
          if (case seen of Some r \<Rightarrow> t < rc_at r | None \<Rightarrow> False) then Ret changed else
          bind (reads pv_dyn) (\<lambda>dyn.
          bind (destroy_authorized E dyn (fst (cut_at (CHR ''/'') key)) (cl_owner c)) (\<lambda>(verdict, reason).
          if verdict \<noteq> AuthRelease
          then bind (modify (set_recheck key (next_recheck t base seen))) (\<lambda>_. Ret changed)
          else
            bind (locked (withdraw_for_release key c)) (\<lambda>moved.
            bind (modify (delete_recheck key)) (\<lambda>_. Ret (changed \<or> moved)))))))"

definition recheck_owners :: "ext \<Rightarrow> gtime \<Rightarrow> duration \<Rightarrow> unit prog" where
  "recheck_owners E t base =
     bind (reads preserved_claims) (\<lambda>preserved.
     bind (modify (prune_rechecks preserved)) (\<lambda>_.
     bind (range_keys (dom preserved)) (\<lambda>ks.
     bind (for_each (recheck_one E t base preserved) ks False) (\<lambda>changed.
     bind drain_releases (\<lambda>released.
     if released \<or> changed then save_state else Ret ())))))"

subsection \<open>The backoff\<close>

lemma next_recheck_delay:
  assumes "0 \<le> rc_delay r" "rc_delay r \<le> owner_recheck_max_delay"
  shows "rc_delay (next_recheck t base (Some r)) = min (2 * rc_delay r) owner_recheck_max_delay"
proof -
  have "wrap64 (2 * rc_delay r) = 2 * rc_delay r"
    using assms by (intro wrap64_id) (simp_all add: owner_recheck_max_delay_def minute_def second_def)
  then show ?thesis by (simp add: next_recheck_def Let_def)
qed

text \<open>
  C29: the re-check backs off and never gives up. However often an owner has been found alive, the next
  delay is the base doubled each time and capped at ten minutes, computed without 64-bit overflow, and
  the next question is due exactly that much later.
\<close>

theorem recheck_backoff:
  assumes "0 \<le> base" "base \<le> owner_recheck_max_delay"
  shows "fold (\<lambda>t r. next_recheck t base (Some r)) ts (next_recheck t0 base None) =
    (let d = min (2 ^ length ts * base) owner_recheck_max_delay
     in \<lparr>rc_at = last (t0 # ts) + d, rc_delay = d\<rparr>)"
proof (induction ts rule: rev_induct)
  case Nil
  with assms show ?case by (simp add: next_recheck_def Let_def)
next
  case (snoc t ts)
  let ?d = "min (2 ^ length ts * base) owner_recheck_max_delay"
  let ?r = "\<lparr>rc_at = last (t0 # ts) + ?d, rc_delay = ?d\<rparr>"
  have max: "0 \<le> owner_recheck_max_delay" using assms by simp
  have "rc_delay (next_recheck t base (Some ?r)) = min (2 * ?d) owner_recheck_max_delay"
    using assms(1) max next_recheck_delay [of ?r t base] by simp
  also have "\<dots> = min (2 ^ length (ts @ [t]) * base) owner_recheck_max_delay" using max by simp
  finally have "rc_delay (next_recheck t base (Some ?r)) = \<dots>" .
  moreover have "rc_at (next_recheck t base (Some ?r)) = t + rc_delay (next_recheck t base (Some ?r))"
    by (simp add: next_recheck_def Let_def)
  ultimately show ?case using snoc by (simp add: Let_def)
qed

theorem recheck_backoff_witness:
  "fold (\<lambda>t r. next_recheck t (10 * second) (Some r)) [1, 2, 3] (next_recheck 0 (10 * second) None) =
    \<lparr>rc_at = 3 + 80 * second, rc_delay = 80 * second\<rparr>"
  using recheck_backoff [of "10 * second" "[1, 2, 3]" 0]
  by (simp add: owner_recheck_max_delay_def minute_def second_def)

subsection \<open>Draining the release queue\<close>

lemma released_simps:
  "released [] = {}" "released (es @ es') = released es \<union> released es'"
  by (auto simp: released_def)

lemma run_drain_loop:
  "\<exists>w' es. run S (for_each drain_one cs any) w = Some (any \<or> released es \<noteq> {}, w')
     \<and> w_trace w' = w_trace w @ es
     \<and> list_all2 (\<lambda>c e. \<exists>q. e = EvRelease CallerCtx (cl_id c) (cl_token c) q) cs es
     \<and> w_prov w' = (w_prov w)\<lparr>pv_releasing := filter (\<lambda>q. cl_id q \<notin> released es) (pv_releasing (w_prov w))\<rparr>
     \<and> w_disk w' = w_disk w \<and> w_saveMu w' = w_saveMu w"
proof (induction cs arbitrary: any w)
  case Nil
  then show ?case by (simp add: released_simps)
next
  case (Cons c cs)
  let ?q = "svc_release S (w_trace w) CallerCtx (cl_id c) (cl_token c)"
  let ?e = "EvRelease CallerCtx (cl_id c) (cl_token c) ?q"
  let ?w1 = "(log_event ?e w)\<lparr>w_prov := (if ?q = None then remove_released (cl_id c) (w_prov w) else w_prov w)\<rparr>"
  have one: "run S (drain_one c any) w = Some (any \<or> ?q = None, ?w1)"
    by (cases ?q) (simp_all add: drain_one_def log_event_def)
  obtain w' es where rest: "run S (for_each drain_one cs (any \<or> ?q = None)) ?w1
        = Some ((any \<or> ?q = None) \<or> released es \<noteq> {}, w')"
      "w_trace w' = w_trace ?w1 @ es"
      "list_all2 (\<lambda>c e. \<exists>q. e = EvRelease CallerCtx (cl_id c) (cl_token c) q) cs es"
      "w_prov w' = (w_prov ?w1)\<lparr>pv_releasing := filter (\<lambda>q. cl_id q \<notin> released es) (pv_releasing (w_prov ?w1))\<rparr>"
      "w_disk w' = w_disk ?w1 \<and> w_saveMu w' = w_saveMu ?w1"
    using Cons.IH by blast
  have r: "released [?e] = (if ?q = None then {cl_id c} else {})" by (auto simp: released_def)
  then have rel: "released (?e # es) = (if ?q = None then {cl_id c} else {}) \<union> released es"
    using released_simps(2) [of "[?e]" es] by simp
  show ?case
    using one rest rel
    by (intro exI [of _ w'] exI [of _ "?e # es"])
      (auto simp: remove_released_def filter_filter conj_commute intro!: arg_cong2 [where f = filter])
qed

text \<open>
  C28: draining the queue releases what it can and loses nothing. Every queued claim is offered to
  sandboxd once, in order, with its own id and token; afterwards the queue holds exactly the claims no
  release of whose sandbox succeeded, nothing else of the provider has changed, and the result says
  whether anything was released.
\<close>

theorem drain_keeps_failed:
  "\<exists>w' es. run S drain_releases w = Some (released es \<noteq> {}, w') \<and> w_trace w' = w_trace w @ es
     \<and> list_all2 (\<lambda>c e. \<exists>q. e = EvRelease CallerCtx (cl_id c) (cl_token c) q) (pv_releasing (w_prov w)) es
     \<and> w_prov w' = (w_prov w)\<lparr>pv_releasing := filter (\<lambda>q. cl_id q \<notin> released es) (pv_releasing (w_prov w))\<rparr>"
  using run_drain_loop [of S "pv_releasing (w_prov w)" False w] by (auto simp: drain_releases_def)

subsection \<open>One round of the re-check\<close>

text \<open>The namespace of a key is the namespace of its Pod.\<close>

lemma cut_at_pod_key: "CHR ''/'' \<notin> set ns \<Longrightarrow> fst (cut_at CHR ''/'' (pod_key ns n)) = ns"
  by (simp add: cut_at_def pod_key_def takeWhile_append)

abbreviation recheck_evidence :: "ext \<Rightarrow> services \<Rightarrow> bool \<Rightarrow> string \<Rightarrow> claim \<Rightarrow> event list \<Rightarrow> bool" where
  "recheck_evidence E S dyn key c h \<equiv> authorises E dyn (fst (cut_at CHR ''/'' key)) (cl_owner c) S h"

text \<open>
  What one key comes to: nothing before its backoff is over; otherwise one question, and, on evidence
  only, the move of the claim to the queue, provided the row is still there and has no Pod.
\<close>

lemma run_recheck_one:
  assumes "preserved key = Some c"
  shows "\<exists>w' moved. run S (recheck_one E t base preserved key changed) w = Some (changed \<or> moved, w')
    \<and> w_saveMu w' = w_saveMu w \<and> w_disk w' = w_disk w \<and> pv_dyn (w_prov w') = pv_dyn (w_prov w)
    \<and> (\<exists>es. w_trace w' = w_trace w @ es \<and> list_all keeps_sandboxes es)
    \<and> pv_releasing (w_prov w') = pv_releasing (w_prov w) @ (if moved then [c] else [])
    \<and> (moved \<longrightarrow> recheck_evidence E S (pv_dyn (w_prov w)) key c (w_trace w))"
proof (cases "case pv_ownerRechecks (w_prov w) key of Some r \<Rightarrow> t < rc_at r | None \<Rightarrow> False")
  case True
  with assms have "run S (recheck_one E t base preserved key changed) w = Some (changed, w)"
    by (auto simp: recheck_one_def split: option.splits)
  then show ?thesis by (intro exI [of _ w] exI [of _ False]) simp
next
  case False
  let ?ns = "fst (cut_at CHR ''/'' key)" and ?p = "w_prov w"
  let ?q = "owner_query E (pv_dyn ?p) ?ns (cl_owner c) S (w_trace w)"
  obtain v reason where dec: "run S (destroy_authorized E (pv_dyn ?p) ?ns (cl_owner c)) w =
        Some ((v, reason), w\<lparr>w_trace := w_trace w @ ?q\<rparr>)"
      "v = AuthRelease \<longleftrightarrow> authorises E (pv_dyn ?p) ?ns (cl_owner c) S (w_trace w)"
    using auth.decides by blast
  show ?thesis
  proof (cases "v = AuthRelease")
    case True
    obtain p1 moved where wd: "withdraw_for_release key c ?p = (p1, moved)" by fastforce
    then have p1: "pv_dyn p1 = pv_dyn ?p" "pv_releasing p1 = pv_releasing ?p @ (if moved then [c] else [])"
      by (auto simp: withdraw_for_release_def split: option.splits if_splits)
    have "run S (recheck_one E t base preserved key changed) w =
        Some (changed \<or> moved, w\<lparr>w_trace := w_trace w @ ?q, w_prov := delete_recheck key p1\<rparr>)"
      using assms False dec(1) True wd by (simp add: recheck_one_def)
    with p1 True dec(2) owner_query_keeps show ?thesis
      by (intro exI [of _ "w\<lparr>w_trace := w_trace w @ ?q, w_prov := delete_recheck key p1\<rparr>"] exI [of _ moved])
        (auto simp: delete_recheck_def)
  next
    case False
    let ?p1 = "set_recheck key (next_recheck t base (pv_ownerRechecks ?p key)) ?p"
    have "run S (recheck_one E t base preserved key changed) w =
        Some (changed, w\<lparr>w_trace := w_trace w @ ?q, w_prov := ?p1\<rparr>)"
      using assms \<open>\<not> (case _ of Some r \<Rightarrow> _ | None \<Rightarrow> _)\<close> dec(1) False by (simp add: recheck_one_def)
    with owner_query_keeps show ?thesis
      by (intro exI [of _ "w\<lparr>w_trace := w_trace w @ ?q, w_prov := ?p1\<rparr>"] exI [of _ False])
        (auto simp: set_recheck_def)
  qed
qed

text \<open>Where a claim in the queue comes from: it was queued before, or moved there on evidence.\<close>

definition queued_on_evidence :: "ext \<Rightarrow> services \<Rightarrow> world \<Rightarrow> event list \<Rightarrow> claim \<Rightarrow> bool" where
  "queued_on_evidence E S w es c \<longleftrightarrow>
     c \<in> set (pv_releasing (w_prov w))
     \<or> (\<exists>key es1 es2. es = es1 @ es2 \<and> preserved_claims (w_prov w) key = Some c
          \<and> recheck_evidence E S (pv_dyn (w_prov w)) key c (w_trace w @ es1))"

lemma queued_on_evidence_later:
  "queued_on_evidence E S w es c \<Longrightarrow> queued_on_evidence E S w (es @ es') c"
  by (fastforce simp: queued_on_evidence_def)

text \<open>The loop over the preserved keys calls sandboxd for nothing and queues only on evidence.\<close>

definition queues_on_evidence :: "ext \<Rightarrow> services \<Rightarrow> world \<Rightarrow> world \<Rightarrow> bool" where
  "queues_on_evidence E S w v \<longleftrightarrow> w_saveMu v = None \<and> pv_dyn (w_prov v) = pv_dyn (w_prov w)
     \<and> (\<exists>es. w_trace v = w_trace w @ es \<and> list_all keeps_sandboxes es
          \<and> (\<forall>c \<in> set (pv_releasing (w_prov v)). queued_on_evidence E S w es c))"

lemma recheck_one_queues:
  assumes "queues_on_evidence E S w v"
  shows "\<exists>a' w'. run S (recheck_one E t base (preserved_claims (w_prov w)) key ch) v = Some (a', w')
    \<and> queues_on_evidence E S w w'"
proof (cases "preserved_claims (w_prov w) key")
  case None
  with assms show ?thesis by (simp add: recheck_one_def)
next
  case (Some c)
  from run_recheck_one [of "preserved_claims (w_prov w)" key c S E t base ch v, OF this] obtain v' moved es' where
    v': "run S (recheck_one E t base (preserved_claims (w_prov w)) key ch) v = Some (ch \<or> moved, v')"
      "w_saveMu v' = w_saveMu v" "pv_dyn (w_prov v') = pv_dyn (w_prov v)"
      "w_trace v' = w_trace v @ es'" "list_all keeps_sandboxes es'"
      "pv_releasing (w_prov v') = pv_releasing (w_prov v) @ (if moved then [c] else [])"
      "moved \<longrightarrow> recheck_evidence E S (pv_dyn (w_prov v)) key c (w_trace v)" by blast
  from assms obtain es where es: "w_trace v = w_trace w @ es" "list_all keeps_sandboxes es"
    "\<forall>c \<in> set (pv_releasing (w_prov v)). queued_on_evidence E S w es c"
    "w_saveMu v = None" "pv_dyn (w_prov v) = pv_dyn (w_prov w)" by (auto simp: queues_on_evidence_def)
  have "queued_on_evidence E S w (es @ es') c" if moved
    using that v'(7) es(1,5) Some unfolding queued_on_evidence_def by metis
  with es(3) v'(6) have "\<forall>c \<in> set (pv_releasing (w_prov v')). queued_on_evidence E S w (es @ es') c"
    by (auto intro: queued_on_evidence_later)
  with v' es have "queues_on_evidence E S w v'" by (auto simp: queues_on_evidence_def)
  with v'(1) show ?thesis by blast
qed

lemma run_save_if:
  assumes "w_saveMu w = None"
  shows "\<exists>w' es. run S (if b then save_state else Ret ()) w = Some ((), w')
    \<and> w_trace w' = w_trace w @ es \<and> list_all keeps_sandboxes es"
proof (cases b)
  case True
  obtain r w' where save: "run S save_state w = Some ((), w')" "wrote '''' S w r w'"
    using run_save_state [OF assms] by blast
  with True wrote_keeps [OF save(2)] show ?thesis by auto
qed simp

text \<open>
  C13: the re-check releases a preserved sandbox only on evidence. Every release that one round of the
  re-check asks for is of a claim that was already queued for release, or of one that had been preserved
  with its owner on record, had no Pod, and whose owner the apiserver showed to be gone, expired or
  replaced when it was asked in this round. A round always comes to its end.
\<close>

theorem recheck_releases_on_evidence:
  assumes "w_saveMu w = None"
  shows "\<exists>w' es. run S (recheck_owners E t base) w = Some ((), w') \<and> w_trace w' = w_trace w @ es
    \<and> (\<forall>ctx x tok q. EvRelease ctx x tok q \<in> set es \<longrightarrow>
         (\<exists>c. x = cl_id c \<and> tok = cl_token c \<and> queued_on_evidence E S w es c))"
proof -
  let ?pr = "preserved_claims (w_prov w)"
  let ?ks = "svc_range S (w_trace w) (dom ?pr)"
  let ?w1 = "log_event (EvRange ?ks) (w\<lparr>w_prov := prune_rechecks ?pr (w_prov w)\<rparr>)"
  have "queues_on_evidence E S w ?w1"
    using assms by (auto simp: queues_on_evidence_def prune_rechecks_def queued_on_evidence_def)
  then obtain ch w2 where loop: "run S (for_each (recheck_one E t base ?pr) ?ks False) ?w1 = Some (ch, w2)"
    "queues_on_evidence E S w w2"
    using run_for_each [of ?ks "\<lambda>_. queues_on_evidence E S w" S "recheck_one E t base ?pr" False ?w1]
      recheck_one_queues by blast
  then obtain es where es: "w_saveMu w2 = None" "w_trace w2 = w_trace w @ es" "list_all keeps_sandboxes es"
    "\<forall>c \<in> set (pv_releasing (w_prov w2)). queued_on_evidence E S w es c" by (auto simp: queues_on_evidence_def)
  obtain w3 es3 where w3: "run S drain_releases w2 = Some (released es3 \<noteq> {}, w3)"
    "w_trace w3 = w_trace w2 @ es3" "w_saveMu w3 = None"
    "list_all2 (\<lambda>c e. \<exists>q. e = EvRelease CallerCtx (cl_id c) (cl_token c) q) (pv_releasing (w_prov w2)) es3"
    using run_drain_loop [of S "pv_releasing (w_prov w2)" False w2] es(1) by (auto simp: drain_releases_def)
  have drained: "\<exists>c. x = cl_id c \<and> tok = cl_token c \<and> queued_on_evidence E S w es c"
    if "EvRelease ctx x tok q \<in> set es3" for ctx x tok q
    using that w3(4) es(4) by (fastforce simp: list_all2_conv_all_nth in_set_conv_nth)
  obtain w4 es4 where fin: "run S (if released es3 \<noteq> {} \<or> ch then save_state else Ret ()) w3 = Some ((), w4)"
    "w_trace w4 = w_trace w3 @ es4" "list_all keeps_sandboxes es4"
    using run_save_if [OF w3(3)] by blast
  have "run S (recheck_owners E t base) w = Some ((), w4)"
    using loop(1) w3(1) fin(1) by (simp add: recheck_owners_def)
  moreover have "w_trace w4 = w_trace w @ (es @ es3 @ es4)" using es(2) w3(2) fin(2) by simp
  moreover have "\<exists>c. x = cl_id c \<and> tok = cl_token c \<and> queued_on_evidence E S w (es @ es3 @ es4) c"
    if "EvRelease ctx x tok q \<in> set (es @ es3 @ es4)" for ctx x tok q
  proof -
    have "EvRelease ctx x tok q \<notin> set es \<union> set es4" using es(3) fin(3) by (auto simp: list_all_iff)
    with that have "EvRelease ctx x tok q \<in> set es3" by simp
    from drained [OF this] show ?thesis by (blast intro: queued_on_evidence_later)
  qed
  ultimately show ?thesis by blast
qed

theorem recheck_releases_on_evidence_witness:
  "\<exists>w' es. run demo (recheck_owners demo_ext 0 (10 * second)) demo_preserved = Some ((), w') \<and> w_trace w' = es
    \<and> (\<forall>ctx x tok q. (EvRelease ctx x tok q \<in> set es) = (EvRelease ctx x tok q \<in> set es
         \<and> (\<exists>c. x = cl_id c \<and> tok = cl_token c \<and> queued_on_evidence demo_ext demo demo_preserved es c)))"
proof -
  from recheck_releases_on_evidence [of demo_preserved demo demo_ext 0 "10 * second"] obtain w' es where
    "run demo (recheck_owners demo_ext 0 (10 * second)) demo_preserved = Some ((), w')" "w_trace w' = es"
    "\<forall>ctx x tok q. EvRelease ctx x tok q \<in> set es \<longrightarrow>
         (\<exists>c. x = cl_id c \<and> tok = cl_token c \<and> queued_on_evidence demo_ext demo demo_preserved es c)" by auto
  then show ?thesis by blast
qed

end
