(* ===== verification/Orphan_Scan.thy ===== *)
theory Orphan_Scan
  imports Owner_Recheck
begin

text \<open>
  The background loops (\<^verbatim>\<open>provider/orphan.go\<close>, and the tickers of \<^verbatim>\<open>provider/recheck.go\<close>): the
  audit-only orphan scan, the verification loop that lifts the startup quarantine, the lease watch
  that publishes expired leases, and the ticker they all run on.
\<close>

definition verdict_external :: string where "verdict_external = ''external''"

definition verdict_orphan :: string where "verdict_orphan = ''orphan''"

definition verdict_stale :: string where "verdict_stale = ''stale''"

text \<open>
  The locals of a scan: the two result lists, the verdicts of this scan, and the verdict changes
  that are logged.
\<close>

record scan_state =
  sc_orphans :: "string list"
  sc_stale :: "string list"
  sc_verdicts :: "string \<rightharpoonup> string"
  sc_logged :: "(string \<times> string) list"

definition record_verdict ::
    "(string \<rightharpoonup> string) \<Rightarrow> string \<Rightarrow> string \<Rightarrow> scan_state \<Rightarrow> scan_state" where
  "record_verdict previous i verdict s =
     s\<lparr>sc_verdicts := (sc_verdicts s)(i \<mapsto> verdict),
       sc_logged := (if previous i \<noteq> Some verdict then sc_logged s @ [(i, verdict)] else sc_logged s)\<rparr>"

definition claimed_index :: "(string \<rightharpoonup> claim) \<Rightarrow> string list \<Rightarrow> (string \<rightharpoonup> string)" where
  "claimed_index m ks =
     fold (\<lambda>key idx. case m key of Some c \<Rightarrow> idx(cl_id c \<mapsto> key) | None \<Rightarrow> idx) ks Map.empty"

definition scan_row ::
    "(string \<rightharpoonup> string) \<Rightarrow> (string \<rightharpoonup> string) \<Rightarrow> string set \<Rightarrow> sandbox_summary \<Rightarrow> scan_state \<Rightarrow> scan_state" where
  "scan_row previous claimed queued s st =
     (if claimed (ss_id s) \<noteq> None then st
      else if ss_id s \<in> queued then st
      else if ss_claimRef s \<noteq> '''' then record_verdict previous (ss_id s) verdict_external st
      else record_verdict previous (ss_id s) verdict_orphan
             (st\<lparr>sc_orphans := sc_orphans st @ [ss_id s]\<rparr>))"

definition scan_claim ::
    "(string \<rightharpoonup> string) \<Rightarrow> (string \<rightharpoonup> string) \<Rightarrow> (string \<rightharpoonup> gtime) \<Rightarrow> string \<Rightarrow> scan_state \<Rightarrow> scan_state" where
  "scan_claim previous claimed live i st =
     (case claimed i of
        None \<Rightarrow> st
      | Some key \<Rightarrow>
          if live i = None
          then record_verdict previous i verdict_stale (st\<lparr>sc_stale := sc_stale st @ [key]\<rparr>)
          else st)"

definition orphan_scan :: "scan_state option prog" where
  "orphan_scan =
     bind (reads pv_lister) (\<lambda>lister.
     if \<not> lister then Ret None else
     bind lister_sandboxes (\<lambda>r.
       case r of
         Inl e \<Rightarrow> Ret None
       | Inr listed \<Rightarrow>
           bind (reads (\<lambda>p. (pv_claims p, cl_id ` set (pv_releasing p)))) (\<lambda>(m, queued).
           bind (range_keys (dom m)) (\<lambda>ks.
           let claimed = claimed_index m ks in
           bind (range_keys (dom claimed)) (\<lambda>ids.
           bind (locked (\<lambda>p.
             let previous = pv_orphanVerdicts p;
                 st0 = \<lparr>sc_orphans = [], sc_stale = [], sc_verdicts = Map.empty, sc_logged = []\<rparr>;
                 st1 = fold (scan_row previous claimed queued) listed st0;
                 st2 = fold (scan_claim previous claimed (live_deadlines listed)) ids st1
             in (p\<lparr>pv_orphanVerdicts := sc_verdicts st2\<rparr>, st2))) (\<lambda>st. Ret (Some st)))))))"

subsection \<open>The lease watch\<close>

definition expired_candidates :: "gtime \<Rightarrow> provider \<Rightarrow> (string \<rightharpoonup> claim)" where
  "expired_candidates t p =
     (\<lambda>key. case pv_claims p key of
              Some c \<Rightarrow>
                if \<not> claim_expired c t \<or> \<not> settled p key \<or> pv_pods p key = None then None else Some c
            | None \<Rightarrow> None)"

definition publish_one ::
    "ext \<Rightarrow> (string \<rightharpoonup> claim) \<Rightarrow> (string \<rightharpoonup> gtime) \<Rightarrow> string \<Rightarrow> unit \<Rightarrow> unit prog" where
  "publish_one E candidates live key u =
     (case candidates key of
        None \<Rightarrow> Ret ()
      | Some c \<Rightarrow>
          (case live (cl_id c) of
             Some rowDeadline \<Rightarrow> modify (refresh_deadline key (cl_id c) rowDeadline)
           | None \<Rightarrow>
               bind (reads (\<lambda>p. (pv_pods p key, pv_claims p key))) (\<lambda>(pd, current).
                 case (pd, current) of
                   (Some pd, Some cur) \<Rightarrow>
                     if cl_id cur \<noteq> cl_id c then Ret ()
                     else notify (pd\<lparr>pod_status := expired_status E pd c\<rparr>)
                 | _ \<Rightarrow> Ret ())))"

definition publish_expired_leases :: "ext \<Rightarrow> unit prog" where
  "publish_expired_leases E =
     bind now (\<lambda>t.
     bind (reads (expired_candidates t)) (\<lambda>candidates.
     if dom candidates = {} then Ret () else
     bind (reads pv_lister) (\<lambda>lister.
     bind (if lister then bind lister_sandboxes (\<lambda>r. Ret (map_sum id live_deadlines r))
           else Ret (Inr Map.empty)) (\<lambda>r.
       case r of
         Inl e \<Rightarrow> Ret ()
       | Inr live \<Rightarrow>
           bind (range_keys (dom candidates)) (\<lambda>ks.
           for_each (publish_one E candidates live) ks ())))))"

subsection \<open>The loops\<close>

text \<open>
  \<^verbatim>\<open>runTicker\<close>: the action runs once per tick until it asks to stop or the context is done;
  \<open>n\<close> is the number of ticks that arrive before the context is done.
\<close>

primrec run_ticker :: "nat \<Rightarrow> bool prog \<Rightarrow> unit prog" where
  "run_ticker 0 action = Ret ()"
| "run_ticker (Suc n) action = bind action (\<lambda>go. if go then run_ticker n action else Ret ())"

definition run_orphan_scan :: "nat \<Rightarrow> unit prog" where
  "run_orphan_scan n = run_ticker n (bind orphan_scan (\<lambda>_. Ret True))"

definition run_claim_verification :: "nat \<Rightarrow> unit prog" where
  "run_claim_verification n =
     run_ticker n
       (bind verify_claims_against_node (\<lambda>ok. if \<not> ok then Ret True else reads has_quarantined))"

definition run_lease_watch :: "ext \<Rightarrow> nat \<Rightarrow> unit prog" where
  "run_lease_watch E n = run_ticker n (bind (publish_expired_leases E) (\<lambda>_. Ret True))"

definition run_owner_recheck :: "ext \<Rightarrow> duration \<Rightarrow> nat \<Rightarrow> unit prog" where
  "run_owner_recheck E interval n =
     run_ticker n (bind now (\<lambda>t. bind (recheck_owners E t interval) (\<lambda>_. Ret True)))"

subsection \<open>What a scan finds\<close>

lemma claimed_index_snoc:
  "claimed_index m (ks @ [k]) =
     (case m k of Some c \<Rightarrow> (claimed_index m ks)(cl_id c \<mapsto> k) | None \<Rightarrow> claimed_index m ks)"
  by (simp add: claimed_index_def split: option.splits)

lemma claimed_index_sound:
  "claimed_index m ks i = Some k \<Longrightarrow> k \<in> set ks \<and> (\<exists>c. m k = Some c \<and> cl_id c = i)"
proof (induction ks rule: rev_induct)
  case (snoc k' ks)
  then show ?case by (auto simp: claimed_index_snoc split: option.splits if_splits)
qed (simp add: claimed_index_def)

lemma claimed_index_complete:
  "k \<in> set ks \<Longrightarrow> m k = Some c \<Longrightarrow> claimed_index m ks (cl_id c) \<noteq> None"
proof (induction ks rule: rev_induct)
  case (snoc k' ks)
  then show ?case by (auto simp: claimed_index_snoc split: option.splits if_splits)
qed simp

lemma claimed_index_none:
  assumes "set ks = dom m"
  shows "claimed_index m ks i = None \<longleftrightarrow> i \<notin> cl_id ` ran m"
proof
  assume "claimed_index m ks i = None"
  with claimed_index_complete [of _ ks m] assms show "i \<notin> cl_id ` ran m"
    by (fastforce simp: ran_def dom_def)
next
  assume "i \<notin> cl_id ` ran m"
  with claimed_index_sound [of m ks i] show "claimed_index m ks i = None"
    by (cases "claimed_index m ks i") (auto simp: ran_def)
qed

text \<open>The verdict on a listed sandbox that the table does not hold.\<close>

definition row_verdict :: "sandbox_summary \<Rightarrow> string" where
  "row_verdict s = (if ss_claimRef s \<noteq> '''' then verdict_external else verdict_orphan)"

lemma scan_rows:
  assumes "U = filter (\<lambda>s. claimed (ss_id s) = None \<and> ss_id s \<notin> queued) l"
  shows "sc_orphans (fold (scan_row previous claimed queued) l st) =
      sc_orphans st @ map ss_id (filter (\<lambda>s. ss_claimRef s = '''') U)"
    and "sc_stale (fold (scan_row previous claimed queued) l st) = sc_stale st"
    and "sc_verdicts (fold (scan_row previous claimed queued) l st) =
      foldl (\<lambda>m s. m(ss_id s \<mapsto> row_verdict s)) (sc_verdicts st) U"
    and "sc_logged (fold (scan_row previous claimed queued) l st) = sc_logged st
      @ map (\<lambda>s. (ss_id s, row_verdict s)) (filter (\<lambda>s. previous (ss_id s) \<noteq> Some (row_verdict s)) U)"
  unfolding assms
  by (induction l arbitrary: st)
    (simp_all add: scan_row_def record_verdict_def row_verdict_def)

lemma scan_claims:
  "sc_orphans (fold (scan_claim previous claimed live) ids st) = sc_orphans st"
  "sc_stale (fold (scan_claim previous claimed live) ids st) =
     sc_stale st @ List.map_filter (\<lambda>i. if live i = None then claimed i else None) ids"
  "sc_verdicts (fold (scan_claim previous claimed live) ids st) i =
     (if i \<in> set ids \<and> claimed i \<noteq> None \<and> live i = None then Some verdict_stale else sc_verdicts st i)"
  "sc_logged (fold (scan_claim previous claimed live) ids st) = sc_logged st
     @ map (\<lambda>i. (i, verdict_stale))
         (filter (\<lambda>i. claimed i \<noteq> None \<and> live i = None \<and> previous i \<noteq> Some verdict_stale) ids)"
  by (induction ids arbitrary: st)
    (auto simp: scan_claim_def record_verdict_def List.map_filter_simps split: option.splits)

definition scan_result :: "provider \<Rightarrow> sandbox_summary list \<Rightarrow> string list \<Rightarrow> string list \<Rightarrow> scan_state" where
  "scan_result p l ks ids =
     fold (scan_claim (pv_orphanVerdicts p) (claimed_index (pv_claims p) ks) (live_deadlines l)) ids
       (fold (scan_row (pv_orphanVerdicts p) (claimed_index (pv_claims p) ks) (cl_id ` set (pv_releasing p))) l
          \<lparr>sc_orphans = [], sc_stale = [], sc_verdicts = Map.empty, sc_logged = []\<rparr>)"

lemma run_scan:
  assumes "map_ranges S" "pv_lister (w_prov w)" "finite (dom (pv_claims (w_prov w)))"
    and "svc_list S (w_trace w) = Inr l"
  shows "\<exists>ks ids w'. run S orphan_scan w = Some (Some (scan_result (w_prov w) l ks ids), w')
    \<and> set ks = dom (pv_claims (w_prov w))
    \<and> distinct ids \<and> set ids = dom (claimed_index (pv_claims (w_prov w)) ks)
    \<and> w_prov w' = (w_prov w)\<lparr>pv_orphanVerdicts := sc_verdicts (scan_result (w_prov w) l ks ids)\<rparr>
    \<and> w_disk w' = w_disk w
    \<and> (\<exists>es. w_trace w' = w_trace w @ es \<and> list_all keeps_sandboxes es)"
proof -
  let ?p = "w_prov w"
  define ks where "ks = svc_range S (w_trace w @ [EvList (Inr l)]) (dom (pv_claims ?p))"
  let ?C = "claimed_index (pv_claims ?p) ks"
  define ids where "ids = svc_range S ((w_trace w @ [EvList (Inr l)]) @ [EvRange ks]) (dom ?C)"
  have ks: "set ks = dom (pv_claims ?p)" using assms(1,3) by (simp add: ks_def map_ranges_def)
  have "dom ?C \<subseteq> cl_id ` ran (pv_claims ?p)"
  proof
    fix i assume "i \<in> dom ?C"
    then have "?C i \<noteq> None" by (rule domD [THEN exE]) simp
    then show "i \<in> cl_id ` ran (pv_claims ?p)" by (simp only: claimed_index_none [OF ks] not_not)
  qed
  then have "finite (dom ?C)" by (rule finite_subset) (rule finite_imageI [OF finite_ran [OF assms(3)]])
  then have ids: "distinct ids" "set ids = dom ?C" using assms(1) by (simp_all add: ids_def map_ranges_def)
  let ?w = "log_event (EvRange ids) (log_event (EvRange ks) (log_event (EvList (Inr l)) w))"
  have "run S orphan_scan w = Some (Some (scan_result ?p l ks ids),
      ?w\<lparr>w_prov := ?p\<lparr>pv_orphanVerdicts := sc_verdicts (scan_result ?p l ks ids)\<rparr>\<rparr>)"
    using assms(2,4) by (simp add: orphan_scan_def ks_def ids_def scan_result_def Let_def)
  with ks ids show ?thesis
    by (intro exI [of _ ks] exI [of _ ids]
        exI [of _ "?w\<lparr>w_prov := ?p\<lparr>pv_orphanVerdicts := sc_verdicts (scan_result ?p l ks ids)\<rparr>\<rparr>"]) simp
qed

text \<open>No two rows of a table carry the same sandbox.\<close>

definition one_key_per_id :: "(string \<rightharpoonup> claim) \<Rightarrow> bool" where
  "one_key_per_id m \<longleftrightarrow> (\<forall>k k' c c'. m k = Some c \<longrightarrow> m k' = Some c' \<longrightarrow> cl_id c = cl_id c' \<longrightarrow> k = k')"

lemma stale_keys:
  assumes "one_key_per_id m" "set ks = dom m" "distinct ids" "set ids = dom (claimed_index m ks)"
  shows "set (List.map_filter (\<lambda>i. if live i = None then claimed_index m ks i else None) ids) =
      {k. \<exists>c. m k = Some c \<and> live (cl_id c) = None}"
    and "distinct (List.map_filter (\<lambda>i. if live i = None then claimed_index m ks i else None) ids)"
proof -
  let ?C = "claimed_index m ks"
  have C: "?C i = Some k \<longleftrightarrow> (\<exists>c. m k = Some c \<and> cl_id c = i)" for i k
  proof
    assume "\<exists>c. m k = Some c \<and> cl_id c = i"
    then obtain c where c: "m k = Some c" "cl_id c = i" by blast
    with assms(2) obtain k' where k': "?C i = Some k'" using claimed_index_complete [of k ks m c] by auto
    with claimed_index_sound [OF k'] c assms(1) show "?C i = Some k" by (auto simp: one_key_per_id_def)
  qed (use claimed_index_sound in blast)
  show "set (List.map_filter (\<lambda>i. if live i = None then ?C i else None) ids) =
      {k. \<exists>c. m k = Some c \<and> live (cl_id c) = None}" (is "set ?ks = ?K")
  proof (rule set_eqI)
    fix k
    have "k \<in> set ?ks \<longleftrightarrow> (\<exists>i. live i = None \<and> ?C i = Some k)"
      using assms(4) by (auto simp: set_map_filter_iff split: if_splits)
    then show "k \<in> set ?ks \<longleftrightarrow> k \<in> ?K" by (auto simp: C)
  qed
  show "distinct ?ks"
    by (rule distinct_map_filter_inj [OF assms(3)]) (auto simp: C split: if_splits)
qed

text \<open>
  C33: the orphan scan reports exactly and touches nothing. Against a listing it returns, as orphans, the
  listed sandboxes that carry no claim reference and that neither the table nor the release queue holds,
  in the order of the listing, and, as stale, each key whose sandbox is not listed, once. It obtains and
  releases nothing, and of the provider only the verdicts of this scan change.
\<close>

theorem orphan_scan_exact:
  assumes "map_ranges S" "pv_lister (w_prov w)" "finite (dom (pv_claims (w_prov w)))"
    and "one_key_per_id (pv_claims (w_prov w))" "svc_list S (w_trace w) = Inr l"
  shows "\<exists>st w' es. run S orphan_scan w = Some (Some st, w')
    \<and> sc_orphans st = map ss_id (filter (\<lambda>s. ss_id s \<notin> held_ids (w_prov w) \<and> ss_claimRef s = '''') l)
    \<and> set (sc_stale st) = {k. \<exists>c. pv_claims (w_prov w) k = Some c \<and> cl_id c \<notin> ss_id ` set l}
    \<and> distinct (sc_stale st)
    \<and> w_prov w' = (w_prov w)\<lparr>pv_orphanVerdicts := sc_verdicts st\<rparr> \<and> w_disk w' = w_disk w
    \<and> w_trace w' = w_trace w @ es \<and> list_all keeps_sandboxes es"
proof -
  let ?p = "w_prov w"
  obtain ks ids w' es where run: "run S orphan_scan w = Some (Some (scan_result ?p l ks ids), w')"
    and ks: "set ks = dom (pv_claims ?p)"
    and ids: "distinct ids" "set ids = dom (claimed_index (pv_claims ?p) ks)"
    and w': "w_prov w' = ?p\<lparr>pv_orphanVerdicts := sc_verdicts (scan_result ?p l ks ids)\<rparr>" "w_disk w' = w_disk w"
      "w_trace w' = w_trace w @ es" "list_all keeps_sandboxes es"
    using run_scan [OF assms(1-3,5)] by blast
  have live: "live_deadlines l i = None \<longleftrightarrow> i \<notin> ss_id ` set l" for i
    using dom_live_deadlines [of l] by (auto simp: domIff)
  have "sc_orphans (scan_result ?p l ks ids) =
      map ss_id (filter (\<lambda>s. ss_id s \<notin> held_ids ?p \<and> ss_claimRef s = '''') l)"
    by (simp add: scan_result_def scan_claims scan_rows [OF refl] claimed_index_none [OF ks] held_ids_def
        conj_commute conj_left_commute cong: conj_cong)
  moreover have "set (sc_stale (scan_result ?p l ks ids)) =
      {k. \<exists>c. pv_claims ?p k = Some c \<and> cl_id c \<notin> ss_id ` set l}" "distinct (sc_stale (scan_result ?p l ks ids))"
    using stale_keys [OF assms(4) ks ids, of "live_deadlines l"]
    by (simp_all add: scan_result_def scan_claims scan_rows [OF refl] live)
  ultimately show ?thesis using run w' by blast
qed

theorem orphan_scan_exact_witness:
  "\<exists>st w' es. run demo_listing orphan_scan demo_loaded = Some (Some st, w')
    \<and> sc_orphans st = [] \<and> set (sc_stale st) = {''ns/b''}
    \<and> w_trace w' = w_trace demo_loaded @ es \<and> list_all keeps_sandboxes es"
proof -
  let ?l = "[\<lparr>ss_id = ''x'', ss_claimRef = ''ns/a'', ss_deadline = 9 * second\<rparr>]"
  have "pv_lister (w_prov demo_loaded)" "finite (dom (pv_claims (w_prov demo_loaded)))"
    "one_key_per_id (pv_claims (w_prov demo_loaded))" "svc_list demo_listing (w_trace demo_loaded) = Inr ?l"
    by (simp_all add: demo_loaded_def demo_blank_def demo_listing_def one_key_per_id_def demo_claimed_def)
  from orphan_scan_exact [OF demo_variant_ranges(1) this] obtain st w' es where
    "run demo_listing orphan_scan demo_loaded = Some (Some st, w')" "sc_orphans st = []"
    "set (sc_stale st) = {k. \<exists>c. pv_claims (w_prov demo_loaded) k = Some c \<and> cl_id c \<notin> ss_id ` set ?l}"
    "w_trace w' = w_trace demo_loaded @ es" "list_all keeps_sandboxes es" by auto
  then show ?thesis by (auto simp: demo_loaded_def demo_blank_def demo_claimed_def split: if_splits)
qed

subsection \<open>Each verdict is logged once\<close>

lemma foldl_verdicts:
  "distinct (map ss_id U) \<Longrightarrow> s \<in> set U \<Longrightarrow>
     foldl (\<lambda>m s. m(ss_id s \<mapsto> row_verdict s)) m U (ss_id s) = Some (row_verdict s)"
proof (induction U rule: rev_induct)
  case (snoc s' U)
  then show ?case by (cases "s = s'") (auto simp: image_iff)
qed simp

lemma scan_verdicts:
  assumes "distinct (map ss_id l)" "set ks = dom (pv_claims p)" "set ids = dom (claimed_index (pv_claims p) ks)"
  shows "s \<in> set l \<Longrightarrow> ss_id s \<notin> held_ids p \<Longrightarrow>
      sc_verdicts (scan_result p l ks ids) (ss_id s) = Some (row_verdict s)"
    and "i \<in> cl_id ` ran (pv_claims p) \<Longrightarrow> live_deadlines l i = None \<Longrightarrow>
      sc_verdicts (scan_result p l ks ids) i = Some verdict_stale"
proof -
  let ?C = "claimed_index (pv_claims p) ks"
  let ?U = "filter (\<lambda>s. ?C (ss_id s) = None \<and> ss_id s \<notin> cl_id ` set (pv_releasing p)) l"
  have U: "distinct (map ss_id ?U)" using assms(1) by (rule distinct_map_filter)
  show "sc_verdicts (scan_result p l ks ids) (ss_id s) = Some (row_verdict s)"
    if "s \<in> set l" "ss_id s \<notin> held_ids p"
  proof -
    have "?C (ss_id s) = None" "s \<in> set ?U"
      using that claimed_index_none [OF assms(2)] by (auto simp: held_ids_def)
    with foldl_verdicts [OF U, of s Map.empty] show ?thesis
      by (simp add: scan_result_def scan_claims scan_rows [OF refl])
  qed
  show "sc_verdicts (scan_result p l ks ids) i = Some verdict_stale"
    if "i \<in> cl_id ` ran (pv_claims p)" "live_deadlines l i = None"
    using that assms(3) claimed_index_none [OF assms(2), of i] by (simp add: scan_result_def scan_claims domIff)
qed

text \<open>
  A verdict is logged when it changes and not again. When two successive scans see the same listing,
  with no sandbox listed twice, and the table and the queue are the same, the second scan logs nothing.
\<close>

lemma orphan_scan_logs_once:
  assumes "map_ranges S" "pv_lister (w_prov w)" "finite (dom (pv_claims (w_prov w)))"
    and "svc_list S (w_trace w) = Inr l" "distinct (map ss_id l)"
    and "run S orphan_scan w = Some (Some st1, w1)" "svc_list S (w_trace w1) = Inr l"
  shows "\<exists>st2 w2. run S orphan_scan w1 = Some (Some st2, w2) \<and> sc_logged st2 = []
    \<and> sc_orphans st2 = sc_orphans st1"
proof -
  let ?p = "w_prov w" and ?q = "w_prov w1"
  obtain ks ids where ks: "set ks = dom (pv_claims ?p)" "set ids = dom (claimed_index (pv_claims ?p) ks)"
    and st1: "st1 = scan_result ?p l ks ids" and q: "?q = ?p\<lparr>pv_orphanVerdicts := sc_verdicts st1\<rparr>"
    using run_scan [OF assms(1-4)] assms(6) by auto
  have "pv_lister ?q" "finite (dom (pv_claims ?q))" using q assms(2,3) by simp_all
  from run_scan [OF assms(1) this assms(7)] obtain ks' ids' w2 where
    run2: "run S orphan_scan w1 = Some (Some (scan_result ?q l ks' ids'), w2)"
    and ks': "set ks' = dom (pv_claims ?p)" "set ids' = dom (claimed_index (pv_claims ?p) ks')"
    using q by auto
  note none = claimed_index_none [OF ks(1)] claimed_index_none [OF ks'(1)]
  have old: "s \<in> set l \<Longrightarrow> ss_id s \<notin> held_ids ?p \<Longrightarrow> sc_verdicts st1 (ss_id s) = Some (row_verdict s)"
    "i \<in> cl_id ` ran (pv_claims ?p) \<Longrightarrow> live_deadlines l i = None \<Longrightarrow> sc_verdicts st1 i = Some verdict_stale" for s i
    using scan_verdicts [OF assms(5) ks] by (simp_all add: st1)
  have "filter (\<lambda>s. sc_verdicts st1 (ss_id s) \<noteq> Some (row_verdict s))
      (filter (\<lambda>s. claimed_index (pv_claims ?p) ks' (ss_id s) = None \<and> ss_id s \<notin> cl_id ` set (pv_releasing ?p)) l) = []"
    by (rule filter_False) (auto simp: none(2) old(1) held_ids_def)
  moreover have "filter (\<lambda>i. claimed_index (pv_claims ?p) ks' i \<noteq> None \<and> live_deadlines l i = None
      \<and> sc_verdicts st1 i \<noteq> Some verdict_stale) ids' = []"
  proof (rule filter_False, rule ballI)
    fix i
    show "\<not> (claimed_index (pv_claims ?p) ks' i \<noteq> None \<and> live_deadlines l i = None
        \<and> sc_verdicts st1 i \<noteq> Some verdict_stale)"
      by (cases "live_deadlines l i") (simp_all add: none(2) old(2))
  qed
  ultimately have "sc_logged (scan_result ?q l ks' ids') = []"
    unfolding scan_result_def q by (simp add: scan_claims scan_rows [OF refl])
  moreover have "sc_orphans (scan_result ?q l ks' ids') = sc_orphans st1"
    unfolding scan_result_def q st1 by (simp add: scan_claims scan_rows [OF refl] none)
  ultimately show ?thesis using run2 by blast
qed

lemma orphan_scan_logs_once_witness:
  "\<exists>st2 w2. run demo_listing orphan_scan (snd (the (run demo_listing orphan_scan demo_loaded))) = Some (Some st2, w2)
    \<and> sc_logged st2 = []"
proof -
  let ?l = "[\<lparr>ss_id = ''x'', ss_claimRef = ''ns/a'', ss_deadline = 9 * second\<rparr>]"
  have c: "pv_lister (w_prov demo_loaded)" "finite (dom (pv_claims (w_prov demo_loaded)))"
    and l: "svc_list demo_listing h = Inr ?l" for h
    by (simp_all add: demo_loaded_def demo_blank_def demo_listing_def)
  obtain st1 w1 where "run demo_listing orphan_scan demo_loaded = Some (Some st1, w1)"
    using run_scan [OF demo_variant_ranges(1) c l] by blast
  from orphan_scan_logs_once [OF demo_variant_ranges(1) c l _ this l] this show ?thesis by auto
qed

subsection \<open>The verification loop\<close>



subsection \<open>The lease watch\<close>

text \<open>
  What the loop over the candidates keeps: the Pods, the notifier and the ids of the rows; and each Pod
  it reports is a candidate that the listing does not show.
\<close>

definition lease_inv :: "ext \<Rightarrow> world \<Rightarrow> (string \<rightharpoonup> claim) \<Rightarrow> (string \<rightharpoonup> gtime) \<Rightarrow> world \<Rightarrow> bool" where
  "lease_inv E w cands live v \<longleftrightarrow>
     pv_pods (w_prov v) = pv_pods (w_prov w) \<and> w_disk v = w_disk w
     \<and> (\<exists>es. w_trace v = w_trace w @ es \<and> list_all keeps_sandboxes es
          \<and> (\<forall>out. EvNotify out \<in> set es \<longrightarrow>
               (\<exists>key c pd. cands key = Some c \<and> live (cl_id c) = None \<and> pv_pods (w_prov w) key = Some pd
                  \<and> out = pd\<lparr>pod_status := expired_status E pd c\<rparr>)))"

lemma publish_one_inv:
  assumes "lease_inv E w cands live v"
  shows "\<exists>a' v'. run S (publish_one E cands live key u) v = Some (a', v') \<and> lease_inv E w cands live v'"
proof (cases "cands key")
  case None
  with assms show ?thesis by (simp add: publish_one_def)
next
  case (Some c)
  show ?thesis
  proof (cases "live (cl_id c)")
    case None
    show ?thesis
    proof (cases "\<exists>pd cur. pv_pods (w_prov v) key = Some pd \<and> pv_claims (w_prov v) key = Some cur
        \<and> cl_id cur = cl_id c \<and> pv_notifier (w_prov v)")
      case True
      then obtain pd cur where pd: "pv_pods (w_prov v) key = Some pd" "pv_claims (w_prov v) key = Some cur"
        "cl_id cur = cl_id c" "pv_notifier (w_prov v)" by blast
      let ?out = "pd\<lparr>pod_status := expired_status E pd c\<rparr>"
      have "run S (publish_one E cands live key u) v = Some ((), log_event (EvNotify ?out) v)"
        using Some None pd by (simp add: publish_one_def notify_def)
      moreover have "lease_inv E w cands live (log_event (EvNotify ?out) v)"
        using assms Some None pd(1) by (fastforce simp: lease_inv_def)
      ultimately show ?thesis by blast
    next
      case False
      then have "run S (publish_one E cands live key u) v = Some ((), v)"
        using Some None by (auto simp: publish_one_def notify_def split: option.splits)
      with assms show ?thesis by blast
    qed
  next
    case (Some d)
    have "run S (publish_one E cands live key u) v
        = Some ((), v\<lparr>w_prov := refresh_deadline key (cl_id c) d (w_prov v)\<rparr>)"
      using \<open>cands key = Some c\<close> Some by (simp add: publish_one_def)
    moreover have "lease_inv E w cands live (v\<lparr>w_prov := refresh_deadline key (cl_id c) d (w_prov v)\<rparr>)"
      using assms by (auto simp: lease_inv_def refresh_deadline_def split: option.splits)
    ultimately show ?thesis by blast
  qed
qed

text \<open>A round of the watch, once the node has been listed.\<close>

definition confirmed_expiry :: "ext \<Rightarrow> services \<Rightarrow> world \<Rightarrow> event list \<Rightarrow> pod \<Rightarrow> bool" where
  "confirmed_expiry E S w es out \<longleftrightarrow>
     (\<exists>key c pd l. pv_pods (w_prov w) key = Some pd
        \<and> pv_claims (w_prov w) key = Some c \<and> settled (w_prov w) key
        \<and> claim_expired c (svc_now S (w_trace w))
        \<and> EvList (Inr l) \<in> set es \<and> cl_id c \<notin> ss_id ` set l
        \<and> out = pd\<lparr>pod_status := expired_status E pd c\<rparr>)"

lemma run_publish_listed:
  assumes "pv_lister (w_prov w)" "dom (expired_candidates (svc_now S (w_trace w)) (w_prov w)) \<noteq> {}"
    and "svc_list S (w_trace w @ [EvNow (svc_now S (w_trace w))]) = Inr l"
  shows "\<exists>w' es. run S (publish_expired_leases E) w = Some ((), w') \<and> w_trace w' = w_trace w @ es
    \<and> list_all keeps_sandboxes es
    \<and> (\<forall>out. EvNotify out \<in> set es \<longrightarrow> confirmed_expiry E S w es out)"
proof -
  let ?t = "svc_now S (w_trace w)"
  let ?w1 = "log_event (EvNow ?t) w" and ?cands = "expired_candidates ?t (w_prov w)"
  have cand: "pv_claims (w_prov w) k = Some c \<and> settled (w_prov w) k \<and> claim_expired c ?t"
    if "?cands k = Some c" for k c
    using that by (auto simp: expired_candidates_def split: option.splits if_splits)
  let ?w2 = "log_event (EvList (Inr l)) ?w1"
  define ks where "ks = svc_range S (w_trace ?w2) (dom ?cands)"
  let ?w3 = "log_event (EvRange ks) ?w2" and ?live = "live_deadlines l"
  have "lease_inv E ?w3 ?cands ?live ?w3" by (simp add: lease_inv_def)
  from run_for_each [where I = "\<lambda>_. lease_inv E ?w3 ?cands ?live" and body = "publish_one E ?cands ?live"
      and xs = ks and S = S and a = "()", OF publish_one_inv this]
  obtain w' where loop: "run S (for_each (publish_one E ?cands ?live) ks ()) ?w3 = Some ((), w')"
    "lease_inv E ?w3 ?cands ?live w'" by auto
  then obtain es where es: "w_trace w' = w_trace ?w3 @ es" "list_all keeps_sandboxes es"
    and out: "\<And>out. EvNotify out \<in> set es \<Longrightarrow> \<exists>key c pd. ?cands key = Some c \<and> ?live (cl_id c) = None
        \<and> pv_pods (w_prov w) key = Some pd \<and> out = pd\<lparr>pod_status := expired_status E pd c\<rparr>"
    by (auto simp: lease_inv_def)
  have "run S (publish_expired_leases E) w = Some ((), w')"
    using assms loop(1) by (simp add: publish_expired_leases_def ks_def del: dom_eq_empty_conv)
  moreover let ?es = "[EvNow ?t, EvList (Inr l), EvRange ks] @ es"
  have "w_trace w' = w_trace w @ ?es" "list_all keeps_sandboxes ?es" using es by simp_all
  moreover have "confirmed_expiry E S w ?es out" if o: "EvNotify out \<in> set ?es" for out
  proof -
    from o have "EvNotify out \<in> set es" by simp
    from out [OF this] obtain key c pd where k: "?cands key = Some c" "?live (cl_id c) = None"
      "pv_pods (w_prov w) key = Some pd" "out = pd\<lparr>pod_status := expired_status E pd c\<rparr>" by blast
    have "cl_id c \<notin> ss_id ` set l" using k(2) dom_live_deadlines [of l] by (auto simp: domIff)
    with k(3,4) cand [OF k(1)] show ?thesis unfolding confirmed_expiry_def
      by (intro exI [of _ key] exI [of _ c] exI [of _ pd] exI [of _ l]) simp
  qed
  ultimately show ?thesis by blast
qed

text \<open>
  C30: a Pod is failed only when the node confirms that its lease has ended. Each Pod the lease watch
  reports is tracked, its settled claim is past its deadline now, the listing taken in this round
  succeeded and does not show the sandbox, and the status it is given is the expiry of that claim. The
  watch obtains and releases nothing.
\<close>

theorem lease_watch_confirms:
  assumes "pv_lister (w_prov w)"
  shows "\<exists>w' es. run S (publish_expired_leases E) w = Some ((), w') \<and> w_trace w' = w_trace w @ es
    \<and> list_all keeps_sandboxes es
    \<and> (\<forall>out. EvNotify out \<in> set es \<longrightarrow> confirmed_expiry E S w es out)"
proof -
  let ?t = "svc_now S (w_trace w)"
  let ?cands = "expired_candidates ?t (w_prov w)"
  consider "dom ?cands = {}" | e where "dom ?cands \<noteq> {}" "svc_list S (w_trace w @ [EvNow ?t]) = Inl e"
    | l where "dom ?cands \<noteq> {}" "svc_list S (w_trace w @ [EvNow ?t]) = Inr l"
    by (cases "svc_list S (w_trace w @ [EvNow ?t])") auto
  then show ?thesis
  proof cases
    case 1
    then show ?thesis by (auto simp: publish_expired_leases_def simp del: dom_eq_empty_conv)
  next
    case 2
    with assms show ?thesis by (auto simp: publish_expired_leases_def simp del: dom_eq_empty_conv)
  next
    case 3
    with assms show ?thesis by (intro run_publish_listed)
  qed
qed

theorem lease_watch_confirms_witness:
  "\<exists>w' es. run demo (publish_expired_leases demo_ext) demo_expired = Some ((), w') \<and> w_trace w' = es
    \<and> list_all keeps_sandboxes es
    \<and> (\<forall>out. (EvNotify out \<in> set es) = (EvNotify out \<in> set es \<and> confirmed_expiry demo_ext demo demo_expired es out))"
proof -
  have "pv_lister (w_prov demo_expired)" "w_trace demo_expired = []" by (simp_all add: demo_expired_def)
  with lease_watch_confirms [of demo_expired demo demo_ext] show ?thesis by auto
qed

subsection \<open>Pushed and polled statuses agree\<close>



end
