(* ===== verification/Credentials.thy ===== *)
theory Credentials
  imports Rely_Guarantee Orphan_Scan
begin

text \<open>
  Release credentials across goroutines: which credentials the table holds, which of them must be
  on disk, and what has become of every sandbox id the node ever handed out. The theory states
  the invariant of the claims table (\<open>table_inv\<close>) and what a goroutine may rely on while others
  run (\<open>env\<close>), and proves for every critical section and every call that it respects both.
\<close>

subsection \<open>Credentials in memory and on disk\<close>

definition cred :: "claim \<Rightarrow> string \<times> string" where
  "cred c = (cl_id c, cl_token c)"

definition durable :: "provider \<Rightarrow> (string \<times> string) set" where
  "durable p = {cred c | k c. pv_claims p k = Some c \<and> k \<notin> pv_tentative p}
                 \<union> cred ` set (pv_releasing p)"

definition state_creds :: "state_file \<Rightarrow> (string \<times> string) set" where
  "state_creds st = cred ` ran (sf_claims st) \<union> cred ` set (sf_releasing st)"

definition disk_creds :: "world \<Rightarrow> (string \<times> string) set" where
  "disk_creds w =
     (case w_disk w of
        None \<Rightarrow> {}
      | Some j \<Rightarrow> (case decode_state j of None \<Rightarrow> {} | Some st \<Rightarrow> state_creds st))"

subsection \<open>The history of sandbox ids\<close>

text \<open>\<open>T\<close> gives the tokens of the ids that were in the table when the history began.\<close>

definition learn :: "event \<Rightarrow> (string \<rightharpoonup> string) \<Rightarrow> (string \<rightharpoonup> string)" where
  "learn e m =
     (case e of EvClaim sp (Inr res) \<Rightarrow> m(cr_id res \<mapsto> cr_token res) | _ \<Rightarrow> m)"

definition known :: "(string \<rightharpoonup> string) \<Rightarrow> event list \<Rightarrow> (string \<rightharpoonup> string)" where
  "known T h = foldl (\<lambda>m e. learn e m) T h"

definition obtained :: "event list \<Rightarrow> string \<Rightarrow> string set" where
  "obtained h k = {cr_id res | sp res. EvClaim sp (Inr res) \<in> set h \<and> sp_claimRef sp = k}"

text \<open>An id is gone when a listing taken after the id was handed out does not show it.\<close>

definition gone :: "(string \<rightharpoonup> string) \<Rightarrow> event list \<Rightarrow> string set" where
  "gone T h =
     {x. \<exists>h1 l h2. h = h1 @ EvList (Inr l) # h2 \<and> known T h1 x \<noteq> None \<and> x \<notin> ss_id ` set l}"

definition accounted :: "(string \<rightharpoonup> string) \<Rightarrow> world \<Rightarrow> string set" where
  "accounted T w = held_ids (w_prov w) \<union> released (w_trace w) \<union> gone T (w_trace w)"

text \<open>Every release in a history presents the token that was issued with the id.\<close>

definition presented :: "(string \<rightharpoonup> string) \<Rightarrow> event list \<Rightarrow> bool" where
  "presented T h \<longleftrightarrow> (\<forall>cc x t r. EvRelease cc x t r \<in> set h \<longrightarrow> known T h x = Some t)"

subsection \<open>What the services promise\<close>

text \<open>
  sandboxd hands out ids it never handed out before.
\<close>

definition fresh_ids :: "services \<Rightarrow> (string \<rightharpoonup> string) \<Rightarrow> bool" where
  "fresh_ids S T \<longleftrightarrow>
     (\<forall>h sp res. svc_claim S h sp = Inr res \<longrightarrow> known T h (cr_id res) = None)"

subsection \<open>The invariant\<close>

definition table_ok :: "provider \<Rightarrow> bool" where
  "table_ok p \<longleftrightarrow>
     pv_tentative p \<subseteq> dom (pv_claims p) \<and> pv_quarantined p \<subseteq> dom (pv_claims p)
     \<and> pv_tentative p \<inter> pv_quarantined p = {} \<and> finite (dom (pv_claims p))"

definition tokens_ok :: "(string \<rightharpoonup> string) \<Rightarrow> provider \<Rightarrow> bool" where
  "tokens_ok m p \<longleftrightarrow>
     (\<forall>k c. pv_claims p k = Some c \<longrightarrow> m (cl_id c) = Some (cl_token c))
     \<and> (\<forall>c \<in> set (pv_releasing p). m (cl_id c) = Some (cl_token c))"

definition creds_known :: "(string \<rightharpoonup> string) \<Rightarrow> (string \<times> string) set \<Rightarrow> bool" where
  "creds_known m X \<longleftrightarrow> (\<forall>(x, t) \<in> X. m x = Some t)"

subsection \<open>What a goroutine relies on\<close>

text \<open>The row at \<open>k\<close> that carries id \<open>x\<close>, if there is one, is not tentative.\<close>

definition nontent :: "provider \<Rightarrow> string \<Rightarrow> string \<Rightarrow> bool" where
  "nontent p k x \<longleftrightarrow> (\<forall>c. pv_claims p k = Some c \<longrightarrow> cl_id c = x \<longrightarrow> k \<notin> pv_tentative p)"

text \<open>What another goroutine may do to the key a pod worker owns.\<close>

definition frame :: "provider \<Rightarrow> provider \<Rightarrow> string \<Rightarrow> bool" where
  "frame p p' k \<longleftrightarrow>
     pv_pods p' k = pv_pods p k \<and> (k \<in> pv_tentative p' \<longleftrightarrow> k \<in> pv_tentative p)
     \<and> (case pv_claims p k of
          None \<Rightarrow> pv_claims p' k = None
        | Some c \<Rightarrow>
            (\<exists>c'. pv_claims p' k = Some c' \<and> cl_id c' = cl_id c)
            \<or> (pv_claims p' k = None \<and> k \<notin> pv_tentative p))"

text \<open>
  \<open>seen\<close> records every id that has been in the table so far. No row is ever overwritten by the row of
  another sandbox: the key is free in between.
\<close>

definition calm :: "string set \<Rightarrow> provider \<Rightarrow> provider \<Rightarrow> bool" where
  "calm seen p p' \<longleftrightarrow>
     pv_lister p' = pv_lister p \<and> pv_dyn p' = pv_dyn p \<and> pv_statePath p' = pv_statePath p
     \<and> pv_quarantined p' \<subseteq> pv_quarantined p
     \<and> (\<forall>k x. x \<in> seen \<longrightarrow> nontent p k x \<longrightarrow> nontent p' k x)
     \<and> (\<forall>k c c'. pv_claims p k = Some c \<longrightarrow> pv_claims p' k = Some c' \<longrightarrow> cl_id c' = cl_id c)"

definition lock_rely :: "nat \<Rightarrow> world \<Rightarrow> world \<Rightarrow> bool" where
  "lock_rely j w w' \<longleftrightarrow>
     (w_saveMu w = Some j \<longrightarrow>
        w_saveMu w' = Some j \<and> w_disk w' = w_disk w \<and> w_tmp w' = w_tmp w
        \<and> durable (w_prov w') \<subseteq> durable (w_prov w))
     \<and> (w_saveMu w \<noteq> Some j \<longrightarrow> w_saveMu w' \<noteq> Some j)"

definition env :: "(nat \<Rightarrow> string option) \<Rightarrow> (string \<rightharpoonup> string) \<Rightarrow> nat \<Rightarrow> string set trans" where
  "env own T j = (\<lambda>(w, seen) (w', seen').
     known T (w_trace w) \<subseteq>\<^sub>m known T (w_trace w') \<and> (\<exists>es. w_trace w' = w_trace w @ es)
     \<and> accounted T w \<subseteq> accounted T w' \<and> seen \<subseteq> seen'
     \<and> calm seen (w_prov w) (w_prov w')
     \<and> lock_rely j w w'
     \<and> (\<forall>k. own j = Some k \<longrightarrow>
           frame (w_prov w) (w_prov w') k \<and> obtained (w_trace w') k = obtained (w_trace w) k
           \<and> (\<forall>x \<in> obtained (w_trace w) k. x \<notin> seen \<longrightarrow> x \<notin> seen')))"

definition exclusive :: "(nat \<Rightarrow> string option) \<Rightarrow> bool" where
  "exclusive own \<longleftrightarrow> (\<forall>i j k. own i = Some k \<longrightarrow> own j = Some k \<longrightarrow> i = j)"

subsection \<open>The invariant of the table and its history\<close>

text \<open>No Pod was reported Running with an id whose row is tentative.\<close>

definition notified_ok :: "string set \<Rightarrow> world \<Rightarrow> bool" where
  "notified_ok seen w \<longleftrightarrow>
     (\<forall>pd. EvNotify pd \<in> set (w_trace w) \<longrightarrow> ps_phase (pod_status pd) = PodRunning \<longrightarrow>
        (\<exists>x \<in> seen. pod_annotations pd ann_claim_id = Some x
           \<and> nontent (w_prov w) (pod_key (pod_namespace pd) (pod_name pd)) x))"

definition table_inv :: "(string \<rightharpoonup> string) \<Rightarrow> string set assn" where
  "table_inv T = (\<lambda>(w, seen).
     table_ok (w_prov w) \<and> tokens_ok (known T (w_trace w)) (w_prov w)
     \<and> pv_lister (w_prov w) \<and> pv_statePath (w_prov w) \<noteq> ''''
     \<and> durable (w_prov w) \<subseteq> disk_creds w \<and> creds_known (known T (w_trace w)) (disk_creds w)
     \<and> held_ids (w_prov w) \<subseteq> seen \<and> seen \<subseteq> dom (known T (w_trace w))
     \<and> (\<forall>k k' x. x \<in> obtained (w_trace w) k \<longrightarrow> x \<in> obtained (w_trace w) k' \<longrightarrow> k = k')
     \<and> notified_ok seen w \<and> presented T (w_trace w))"

subsection \<open>Histories grow\<close>

lemma known_append: "known T (h @ h') = known (known T h) h'"
  by (simp add: known_def)

lemma known_snoc: "known T (h @ [e]) = learn e (known T h)"
  by (simp add: known_def)

lemma obtained_append: "obtained (h @ h') k = obtained h k \<union> obtained h' k"
  by (auto simp: obtained_def)

lemma released_append: "released (h @ h') = released h \<union> released h'"
  by (auto simp: released_def)

lemma gone_append: "gone T h \<subseteq> gone T (h @ h')"
  by (fastforce simp: gone_def)

lemma gone_listed:
  "known T h x \<noteq> None \<Longrightarrow> x \<notin> ss_id ` set l \<Longrightarrow> x \<in> gone T (h @ [EvList (Inr l)])"
  by (fastforce simp: gone_def)

lemma obtained_known: "x \<in> obtained h k \<Longrightarrow> known T h x \<noteq> None"
proof (induction h rule: rev_induct)
  case Nil
  then show ?case by (simp add: obtained_def)
next
  case (snoc e h)
  then have "x \<in> obtained h k \<or> x \<in> obtained [e] k" by (simp add: obtained_append)
  with snoc.IH show ?case
    by (auto simp: known_snoc learn_def obtained_def split: event.splits sum.splits)
qed

lemma nontent_absent: "x \<notin> held_ids p \<Longrightarrow> nontent p k x"
  by (auto simp: nontent_def held_ids_def ran_def)

lemma frame_refl [simp]: "frame p p k"
  by (simp add: frame_def split: option.splits)

lemma calm_refl [simp]: "calm seen p p"
  by (simp add: calm_def)

lemma lock_rely_refl [simp]: "lock_rely j w w"
  by (simp add: lock_rely_def)

lemma env_refl [simp]: "env own T j s s"
  by (cases s) (simp add: env_def)

lemma others_env_refl [simp]: "others (env own T) i s s"
  by (simp add: others_def)

subsection \<open>Calls\<close>

definition quiet_event :: "event \<Rightarrow> bool" where
  "quiet_event e =
     (case e of
        EvClaim sp (Inr res) \<Rightarrow> False
      | EvNotify pd \<Rightarrow> ps_phase (pod_status pd) \<noteq> PodRunning
      | _ \<Rightarrow> True)"

lemma quiet_learn: "quiet_event e \<Longrightarrow> learn e m = m"
  by (auto simp: quiet_event_def learn_def split: event.splits sum.splits)

lemma quiet_obtained: "quiet_event e \<Longrightarrow> obtained (h @ [e]) k = obtained h k"
  by (auto simp: quiet_event_def obtained_def)

text \<open>The calls a goroutine may make: a release needs the issued token.\<close>

definition allowed :: "(string \<rightharpoonup> string) \<Rightarrow> event list \<Rightarrow> event \<Rightarrow> bool" where
  "allowed T h e \<longleftrightarrow> quiet_event e \<and> (\<forall>cc x t r. e = EvRelease cc x t r \<longrightarrow> known T h x = Some t)"

lemmas allowed_simps = allowed_def quiet_event_def

lemma presented_snoc:
  "presented T h \<Longrightarrow> allowed T h e \<Longrightarrow> presented T (h @ [e])"
  by (auto simp: presented_def allowed_def known_snoc quiet_learn)

lemma disk_creds_log [simp]: "disk_creds (log_event e w) = disk_creds w"
  by (simp add: disk_creds_def)

lemma disk_creds_prov [simp]: "disk_creds (w\<lparr>w_prov := p\<rparr>) = disk_creds w"
  by (simp add: disk_creds_def)

lemma accounted_log: "accounted T w \<subseteq> accounted T (log_event e w)"
  using gone_append [of T "w_trace w" "[e]"] by (auto simp: accounted_def released_append)

lemma notified_log:
  assumes "notified_ok seen w"
    and "\<And>pd. e = EvNotify pd \<Longrightarrow> ps_phase (pod_status pd) = PodRunning \<Longrightarrow>
           \<exists>x \<in> seen. pod_annotations pd ann_claim_id = Some x
             \<and> nontent (w_prov w) (pod_key (pod_namespace pd) (pod_name pd)) x"
  shows "notified_ok seen (log_event e w)"
  using assms by (auto simp: notified_ok_def)

lemma env_log:
  assumes "known T (w_trace w) \<subseteq>\<^sub>m known T (w_trace w @ [e])"
    and "\<And>k. own j = Some k \<Longrightarrow> obtained (w_trace w @ [e]) k = obtained (w_trace w) k"
  shows "env own T j (w, g) (log_event e w, g)"
  using assms accounted_log [of T w e] by (auto simp: env_def lock_rely_def)

lemma quiet_env:
  assumes "quiet_event e"
  shows "others (env own T) i (w, g) (log_event e w, g)"
  using assms by (auto simp: others_def quiet_obtained known_snoc quiet_learn intro!: env_log)

lemma quiet_step:
  assumes "table_inv T (w, g)" "allowed T (w_trace w) e"
  shows "table_inv T (log_event e w, g) \<and> others (env own T) i (w, g) (log_event e w, g)"
proof
  have q: "quiet_event e" using assms(2) by (simp add: allowed_def)
  then have k: "known T (w_trace w @ [e]) = known T (w_trace w)" by (simp add: known_snoc quiet_learn)
  have "notified_ok g (log_event e w)"
    by (rule notified_log) (use assms q in \<open>auto simp: table_inv_def quiet_event_def\<close>)
  moreover have "presented T (w_trace w @ [e])"
    using assms by (auto simp: table_inv_def intro: presented_snoc)
  ultimately show "table_inv T (log_event e w, g)"
    using assms(1) k q by (simp add: table_inv_def quiet_obtained)
  show "others (env own T) i (w, g) (log_event e w, g)" by (rule quiet_env [OF q])
qed

lemma running_step:
  assumes "table_inv T (w, g)" "x \<in> g" "pod_annotations pd ann_claim_id = Some x"
    and "nontent (w_prov w) (pod_key (pod_namespace pd) (pod_name pd)) x"
  shows "table_inv T (log_event (EvNotify pd) w, g)
    \<and> others (env own T) i (w, g) (log_event (EvNotify pd) w, g)"
proof
  have k: "known T (w_trace w @ [EvNotify pd]) = known T (w_trace w)"
    by (simp add: known_snoc learn_def)
  have o: "obtained (w_trace w @ [EvNotify pd]) k = obtained (w_trace w) k" for k
    by (simp add: obtained_def)
  have "notified_ok g (log_event (EvNotify pd) w)"
    by (rule notified_log) (use assms in \<open>auto simp: table_inv_def\<close>)
  moreover have "presented T (w_trace w @ [EvNotify pd])"
    using assms(1) by (auto simp: table_inv_def presented_def k)
  ultimately show "table_inv T (log_event (EvNotify pd) w, g)"
    using assms(1) k o by (simp add: table_inv_def)
  show "others (env own T) i (w, g) (log_event (EvNotify pd) w, g)"
    using k o by (auto simp: others_def intro!: env_log)
qed

lemma map_le_SomeD: "m \<subseteq>\<^sub>m m' \<Longrightarrow> m x = Some y \<Longrightarrow> m' x = Some y"
  by (metis domI map_le_def)

lemma tokens_ok_mono: "tokens_ok m p \<Longrightarrow> m \<subseteq>\<^sub>m m' \<Longrightarrow> tokens_ok m' p"
  unfolding tokens_ok_def by (blast dest: map_le_SomeD)

lemma creds_known_mono: "creds_known m X \<Longrightarrow> m \<subseteq>\<^sub>m m' \<Longrightarrow> creds_known m' X"
  unfolding creds_known_def by (blast dest: map_le_SomeD)

lemma claim_step:
  assumes inv: "table_inv T (w, g)" and fresh: "fresh_ids S T" and ex: "exclusive own"
    and key: "own i = Some (sp_claimRef sp)"
    and res: "svc_claim S (w_trace w) sp = Inr res"
  shows "table_inv T (log_event (EvClaim sp (Inr res)) w, g)
    \<and> others (env own T) i (w, g) (log_event (EvClaim sp (Inr res)) w, g)"
proof
  let ?e = "EvClaim sp (Inr res)" and ?h = "w_trace w"
  have new: "known T ?h (cr_id res) = None" using fresh res by (auto simp: fresh_ids_def)
  have k: "known T (?h @ [?e]) = (known T ?h)(cr_id res \<mapsto> cr_token res)"
    by (simp add: known_snoc learn_def)
  then have le: "known T ?h \<subseteq>\<^sub>m known T (?h @ [?e])"
    using new by (auto simp: map_le_def dom_def)
  have o: "obtained (?h @ [?e]) k'
      = obtained ?h k' \<union> (if k' = sp_claimRef sp then {cr_id res} else {})" for k'
    by (auto simp: obtained_def)
  have noto: "cr_id res \<notin> obtained ?h k'" for k'
    using new obtained_known [of "cr_id res" ?h k' T] by auto
  have tok: "tokens_ok (known T (?h @ [?e])) (w_prov w)"
    "creds_known (known T (?h @ [?e])) (disk_creds w)"
    using inv le by (auto simp: table_inv_def intro: tokens_ok_mono creds_known_mono)
  have "presented T (?h @ [?e])"
    using inv map_le_SomeD [OF le] by (auto simp: table_inv_def presented_def)
  moreover have "notified_ok g (log_event ?e w)"
    by (rule notified_log) (use inv in \<open>auto simp: table_inv_def\<close>)
  moreover have "g \<subseteq> dom (known T (?h @ [?e]))"
    using inv k by (auto simp: table_inv_def)
  moreover have "\<forall>k k' x. x \<in> obtained (?h @ [?e]) k \<longrightarrow> x \<in> obtained (?h @ [?e]) k' \<longrightarrow> k = k'"
    using inv noto by (auto simp: o table_inv_def split: if_splits)
  ultimately show "table_inv T (log_event ?e w, g)"
    using inv tok by (simp add: table_inv_def)
  show "others (env own T) i (w, g) (log_event ?e w, g)"
    unfolding others_def
  proof (intro allI impI env_log)
    show "known T ?h \<subseteq>\<^sub>m known T (?h @ [?e])" by (rule le)
    fix j k' assume "j \<noteq> i" "own j = Some k'"
    with ex key have "k' \<noteq> sp_claimRef sp" by (auto simp: exclusive_def)
    then show "obtained (?h @ [?e]) k' = obtained ?h k'" by (simp add: o)
  qed
qed

subsection \<open>Critical sections\<close>

definition section_ok ::
    "(nat \<Rightarrow> string option) \<Rightarrow> nat \<Rightarrow> (string \<rightharpoonup> string) \<Rightarrow> world \<Rightarrow> string set \<Rightarrow> provider \<Rightarrow> bool" where
  "section_ok own i T w seen p' \<longleftrightarrow>
     table_ok p' \<and> tokens_ok (known T (w_trace w)) p'
     \<and> durable p' \<subseteq> durable (w_prov w) \<and> calm seen (w_prov w) p'
     \<and> (\<forall>k. own i \<noteq> Some k \<longrightarrow> frame (w_prov w) p' k)
     \<and> held_ids (w_prov w) \<subseteq> held_ids p' \<union> released (w_trace w) \<union> gone T (w_trace w)
     \<and> held_ids p' \<subseteq> seen"

lemma notified_prov:
  "notified_ok seen w \<Longrightarrow> calm seen (w_prov w) p' \<Longrightarrow> notified_ok seen (w\<lparr>w_prov := p'\<rparr>)"
  unfolding notified_ok_def calm_def by fastforce

lemma section_step:
  assumes inv: "table_inv T (w, g)" and sec: "section_ok own i T w g p'" and ex: "exclusive own"
  shows "table_inv T (w\<lparr>w_prov := p'\<rparr>, g) \<and> others (env own T) i (w, g) (w\<lparr>w_prov := p'\<rparr>, g)"
proof
  have n: "notified_ok g (w\<lparr>w_prov := p'\<rparr>)"
    by (rule notified_prov) (use inv sec in \<open>auto simp: table_inv_def section_ok_def\<close>)
  have "calm g (w_prov w) p'" using sec by (simp add: section_ok_def)
  then have "pv_lister p' = pv_lister (w_prov w)" "pv_statePath p' = pv_statePath (w_prov w)"
    by (simp_all add: calm_def)
  with n inv sec show "table_inv T (w\<lparr>w_prov := p'\<rparr>, g)"
    by (auto simp: table_inv_def section_ok_def)
  have a: "accounted T w \<subseteq> accounted T (w\<lparr>w_prov := p'\<rparr>)"
    using sec by (auto simp: accounted_def section_ok_def)
  have "frame (w_prov w) p' k" if "j \<noteq> i" "own j = Some k" for j k
  proof -
    from that ex have "own i \<noteq> Some k" unfolding exclusive_def by blast
    with sec show ?thesis by (simp add: section_ok_def)
  qed
  with a sec show "others (env own T) i (w, g) (w\<lparr>w_prov := p'\<rparr>, g)"
    by (auto simp: others_def env_def lock_rely_def section_ok_def)
qed

lemma held_ids_iff:
  "x \<in> held_ids p \<longleftrightarrow>
     (\<exists>k c. pv_claims p k = Some c \<and> cl_id c = x) \<or> (\<exists>c \<in> set (pv_releasing p). cl_id c = x)"
  by (auto simp: held_ids_def ran_def)

lemma durable_iff:
  "y \<in> durable p \<longleftrightarrow>
     (\<exists>k c. pv_claims p k = Some c \<and> k \<notin> pv_tentative p \<and> cred c = y)
     \<or> (\<exists>c \<in> set (pv_releasing p). cred c = y)"
  by (auto simp: durable_def)

text \<open>
  A section that only keeps, drops or queues rows: every row it leaves stood at the same key with
  the same credential, what it queues was not tentative, what it drops is accounted for, and a
  tentative mark goes only together with its row.
\<close>

definition static_same :: "provider \<Rightarrow> provider \<Rightarrow> bool" where
  "static_same p p' \<longleftrightarrow>
     pv_lister p' = pv_lister p \<and> pv_dyn p' = pv_dyn p \<and> pv_statePath p' = pv_statePath p"

definition rows_from :: "provider \<Rightarrow> provider \<Rightarrow> bool" where
  "rows_from p p' \<longleftrightarrow>
     (\<forall>k c'. pv_claims p' k = Some c' \<longrightarrow> (\<exists>c. pv_claims p k = Some c \<and> cred c' = cred c))"

definition queue_from :: "provider \<Rightarrow> provider \<Rightarrow> bool" where
  "queue_from p p' \<longleftrightarrow>
     (\<forall>c' \<in> set (pv_releasing p'). c' \<in> set (pv_releasing p)
        \<or> (\<exists>k c. pv_claims p k = Some c \<and> k \<notin> pv_tentative p \<and> cred c' = cred c))"

definition rows_accounted :: "string set \<Rightarrow> provider \<Rightarrow> provider \<Rightarrow> bool" where
  "rows_accounted A p p' \<longleftrightarrow>
     (\<forall>k c. pv_claims p k = Some c \<longrightarrow> pv_claims p' k = None \<longrightarrow>
        cl_id c \<in> cl_id ` set (pv_releasing p') \<union> A)"

definition queue_accounted :: "string set \<Rightarrow> provider \<Rightarrow> provider \<Rightarrow> bool" where
  "queue_accounted A p p' \<longleftrightarrow>
     (\<forall>c \<in> set (pv_releasing p). c \<in> set (pv_releasing p') \<or> cl_id c \<in> A)"

definition marks_kept :: "(nat \<Rightarrow> string option) \<Rightarrow> nat \<Rightarrow> provider \<Rightarrow> provider \<Rightarrow> bool" where
  "marks_kept own i p p' \<longleftrightarrow>
     pv_tentative p' \<subseteq> pv_tentative p \<inter> dom (pv_claims p')
     \<and> pv_quarantined p' \<subseteq> pv_quarantined p \<inter> dom (pv_claims p')
     \<and> (\<forall>k \<in> pv_tentative p - pv_tentative p'. pv_claims p' k = None \<and> own i = Some k)
     \<and> (\<forall>k. own i \<noteq> Some k \<longrightarrow> pv_pods p' k = pv_pods p k)"

definition rows_kept ::
    "(nat \<Rightarrow> string option) \<Rightarrow> nat \<Rightarrow> string set \<Rightarrow> provider \<Rightarrow> provider \<Rightarrow> bool" where
  "rows_kept own i A p p' \<longleftrightarrow>
     static_same p p' \<and> rows_from p p' \<and> queue_from p p' \<and> rows_accounted A p p'
     \<and> queue_accounted A p p' \<and> marks_kept own i p p'"

lemma cred_id: "cred c' = cred c \<Longrightarrow> cl_id c' = cl_id c"
  by (simp add: cred_def)

lemma rows_fromE:
  assumes "rows_kept own i A p p'" "pv_claims p' k = Some c'"
  obtains c where "pv_claims p k = Some c" "cred c' = cred c" "cl_id c' = cl_id c"
  using assms cred_id unfolding rows_kept_def rows_from_def by blast

lemma queue_fromE:
  assumes "rows_kept own i A p p'" "c' \<in> set (pv_releasing p')"
  obtains (queued) "c' \<in> set (pv_releasing p)"
    | (row) k c where "pv_claims p k = Some c" "k \<notin> pv_tentative p" "cred c' = cred c"
        "cl_id c' = cl_id c"
  using assms cred_id unfolding rows_kept_def queue_from_def by blast

lemma rows_kept_held:
  assumes "rows_kept own i A p p'"
  shows "held_ids p' \<subseteq> held_ids p" "held_ids p \<subseteq> held_ids p' \<union> A"
proof -
  show "held_ids p' \<subseteq> held_ids p"
  proof
    fix x assume "x \<in> held_ids p'"
    then consider (row) k c where "pv_claims p' k = Some c" "cl_id c = x"
      | (queue) c where "c \<in> set (pv_releasing p')" "cl_id c = x" by (auto simp: held_ids_iff)
    then show "x \<in> held_ids p"
    proof cases
      case row
      from rows_fromE [OF assms row(1)] row(2) show ?thesis by (metis held_ids_iff)
    next
      case queue
      from queue_fromE [OF assms queue(1)] queue(2) show ?thesis by (metis held_ids_iff)
    qed
  qed
  show "held_ids p \<subseteq> held_ids p' \<union> A"
  proof
    fix x assume "x \<in> held_ids p"
    then consider (row) k c where "pv_claims p k = Some c" "cl_id c = x"
      | (queue) c where "c \<in> set (pv_releasing p)" "cl_id c = x" by (auto simp: held_ids_iff)
    then show "x \<in> held_ids p' \<union> A"
    proof cases
      case row
      show ?thesis
      proof (cases "pv_claims p' k")
        case None
        with assms row have "x \<in> cl_id ` set (pv_releasing p') \<union> A"
          unfolding rows_kept_def rows_accounted_def by blast
        then show ?thesis by (auto simp: held_ids_iff)
      next
        case (Some c')
        from rows_fromE [OF assms Some] row have "cl_id c' = x" by (metis option.inject)
        with Some show ?thesis by (metis UnCI held_ids_iff)
      qed
    next
      case queue
      with assms have "c \<in> set (pv_releasing p') \<or> x \<in> A"
        unfolding rows_kept_def queue_accounted_def by blast
      with queue show ?thesis by (auto simp: held_ids_iff)
    qed
  qed
qed

lemma rows_kept_nontent:
  assumes "rows_kept own i A p p'" "nontent p k x"
  shows "nontent p' k x"
  unfolding nontent_def
proof (intro allI impI)
  fix c' assume c': "pv_claims p' k = Some c'" "cl_id c' = x"
  obtain c where "pv_claims p k = Some c" "cl_id c' = cl_id c"
    by (rule rows_fromE [OF assms(1) c'(1)])
  with assms(2) c' have "k \<notin> pv_tentative p" by (simp add: nontent_def)
  with assms(1) show "k \<notin> pv_tentative p'" unfolding rows_kept_def marks_kept_def by blast
qed

lemma rows_kept_durable:
  assumes "rows_kept own i A p p'"
  shows "durable p' \<subseteq> durable p"
proof
  fix y assume "y \<in> durable p'"
  then consider (row) k c where "pv_claims p' k = Some c" "k \<notin> pv_tentative p'" "cred c = y"
    | (queue) c where "c \<in> set (pv_releasing p')" "cred c = y" by (auto simp: durable_iff)
  then show "y \<in> durable p"
  proof cases
    case row
    have "k \<notin> pv_tentative p"
      using assms row(1,2) unfolding rows_kept_def marks_kept_def by force
    then show ?thesis using rows_fromE [OF assms row(1)] row(3) by (metis durable_iff)
  next
    case queue
    from queue_fromE [OF assms queue(1)] queue(2) show ?thesis by (metis durable_iff)
  qed
qed

lemma rows_kept_frame:
  assumes "rows_kept own i A p p'" "own i \<noteq> Some k"
  shows "frame p p' k"
proof -
  have m: "marks_kept own i p p'" using assms(1) by (simp add: rows_kept_def)
  then have tent: "k \<in> pv_tentative p' \<longleftrightarrow> k \<in> pv_tentative p" and pods: "pv_pods p' k = pv_pods p k"
    using assms(2) unfolding marks_kept_def by blast+
  show ?thesis
  proof (cases "pv_claims p' k")
    case None
    with m have "k \<notin> pv_tentative p'" unfolding marks_kept_def by blast
    with tent pods None show ?thesis by (simp add: frame_def split: option.splits)
  next
    case (Some c')
    obtain c where "pv_claims p k = Some c" "cl_id c' = cl_id c"
      by (rule rows_fromE [OF assms(1) Some])
    with tent pods Some show ?thesis by (simp add: frame_def)
  qed
qed

lemma rows_kept_tokens:
  assumes "rows_kept own i A p p'" "tokens_ok m p"
  shows "tokens_ok m p'"
  unfolding tokens_ok_def
proof (intro conjI allI impI ballI)
  fix k c' assume "pv_claims p' k = Some c'"
  from rows_fromE [OF assms(1) this] obtain c where "pv_claims p k = Some c" "cred c' = cred c" .
  with assms(2) show "m (cl_id c') = Some (cl_token c')" by (simp add: tokens_ok_def cred_def)
next
  fix c' assume "c' \<in> set (pv_releasing p')"
  from queue_fromE [OF assms(1) this] show "m (cl_id c') = Some (cl_token c')"
    using assms(2) by cases (simp_all add: tokens_ok_def cred_def)
qed

lemma rows_kept_table:
  assumes "rows_kept own i A p p'" "table_ok p"
  shows "table_ok p'"
proof -
  have "dom (pv_claims p') \<subseteq> dom (pv_claims p)"
    using rows_fromE [OF assms(1)] by (metis domD domI subsetI)
  with assms(2) have "finite (dom (pv_claims p'))" by (auto simp: table_ok_def intro: finite_subset)
  with assms show ?thesis unfolding table_ok_def rows_kept_def marks_kept_def by blast
qed

lemma rows_kept_section:
  assumes "table_inv T (w, g)"
    and "rows_kept own i (released (w_trace w) \<union> gone T (w_trace w)) (w_prov w) p'"
  shows "section_ok own i T w g p'"
proof -
  have "static_same (w_prov w) p'" "marks_kept own i (w_prov w) p'"
    using assms(2) by (simp_all add: rows_kept_def)
  moreover have "cl_id c' = cl_id c" if "pv_claims (w_prov w) k = Some c" "pv_claims p' k = Some c'" for k c c'
    using rows_fromE [OF assms(2) that(2)] that(1) by auto
  ultimately have "calm g (w_prov w) p'"
    using rows_kept_nontent [OF assms(2)]
    unfolding calm_def static_same_def marks_kept_def by blast
  moreover have "held_ids p' \<subseteq> g"
    using rows_kept_held(1) [OF assms(2)] assms(1) by (auto simp: table_inv_def)
  moreover have "held_ids (w_prov w) \<subseteq> held_ids p' \<union> released (w_trace w) \<union> gone T (w_trace w)"
    using rows_kept_held(2) [OF assms(2)] by blast
  moreover have "table_ok p'" "tokens_ok (known T (w_trace w)) p'"
    using rows_kept_table [OF assms(2)] rows_kept_tokens [OF assms(2)] assms(1)
    by (simp_all add: table_inv_def)
  ultimately show ?thesis
    using rows_kept_durable [OF assms(2)] rows_kept_frame [OF assms(2)]
    by (simp add: section_ok_def)
qed

end
