(* ===== verification/Goroutines.thy ===== *)
theory Goroutines
  imports Credentials
begin

text \<open>
  The assertions and proof rules for the goroutines of the provider: what a handler knows about
  the row of its own key, about a sandbox id, about \<open>saveMu\<close> and about the state file, which of
  these facts survive the actions of other goroutines, and one rule per kind of action.
\<close>

named_theorems stables \<open>assertions that other goroutines cannot falsify\<close>
named_theorems idles \<open>assertions that a call without effect on the table cannot falsify\<close>

subsection \<open>Guarantees\<close>

text \<open>
  A goroutine may do what all others tolerate (\<open>busy\<close>); most programs moreover claim no sandbox
  (\<open>unclaiming\<close>), and many do not touch the table at all (\<open>idle\<close>).
\<close>

definition busy :: "(nat \<Rightarrow> string option) \<Rightarrow> (string \<rightharpoonup> string) \<Rightarrow> nat \<Rightarrow> string set trans" where
  "busy own T i = others (env own T) i"

definition unclaiming :: "(nat \<Rightarrow> string option) \<Rightarrow> (string \<rightharpoonup> string) \<Rightarrow> nat \<Rightarrow> string set trans" where
  "unclaiming own T i s s' \<longleftrightarrow>
     busy own T i s s' \<and> obtained (w_trace (fst s')) = obtained (w_trace (fst s))"

definition idle :: "(nat \<Rightarrow> string option) \<Rightarrow> (string \<rightharpoonup> string) \<Rightarrow> nat \<Rightarrow> string set trans" where
  "idle own T i s s' \<longleftrightarrow>
     unclaiming own T i s s' \<and> w_prov (fst s') = w_prov (fst s) \<and> snd s' = snd s"

abbreviation gor ::
    "services \<Rightarrow> (nat \<Rightarrow> string option) \<Rightarrow> (string \<rightharpoonup> string) \<Rightarrow> nat \<Rightarrow>
     ((nat \<Rightarrow> string option) \<Rightarrow> (string \<rightharpoonup> string) \<Rightarrow> nat \<Rightarrow> string set trans) \<Rightarrow>
     ('a \<Rightarrow> string set assn) \<Rightarrow> string set assn \<Rightarrow> 'a prog \<Rightarrow> bool" where
  "gor S own T i G Q P m \<equiv> rg S i (table_inv T) (env own T i) (G own T i) Q P m"

lemma rg_guar:
  assumes "rg S i I R G Q P m" "\<And>s s'. G s s' \<Longrightarrow> G' s s'"
  shows "rg S i I R G' Q P m"
  using assms
proof (induction rule: rg.induct)
  case (rg_Ret P a)
  then show ?case by (auto intro: rg.rg_Ret)
next
  case (rg_Act P m)
  show ?case
  proof (rule rg.rg_Act [OF rg_Act(1,2)])
    fix w g w' m'
    assume "I (w, g)" "P (w, g)" "astep S i m w = Some (w', m')"
    from rg_Act(3) [OF this] rg_Act.prems
    show "\<exists>g'. I (w', g') \<and> G' (w, g) (w', g') \<and> (\<exists>P'. P' (w', g') \<and> rg S i I R G' Q P' m')"
      by blast
  qed
qed

lemma rg_frame:
  assumes "rg S i I R G Q P m" "stable_under I R F" "stable_under I G F"
  shows "rg S i I R G (\<lambda>a s. Q a s \<and> F s) (\<lambda>s. P s \<and> F s) m"
  using assms(1)
proof (induction rule: rg.induct)
  case (rg_Ret P a)
  then show ?case using stable_conj [OF rg_Ret(1) assms(2)] by (auto intro: rg.rg_Ret)
next
  case (rg_Act P m)
  show ?case
  proof (rule rg.rg_Act [OF stable_conj [OF rg_Act(1) assms(2)] rg_Act(2)])
    fix w g w' m'
    assume w: "I (w, g)" "P (w, g) \<and> F (w, g)" "astep S i m w = Some (w', m')"
    from rg_Act(3) [OF w(1) _ w(3)] w(2) obtain g' P' where
      st: "I (w', g')" "G (w, g) (w', g')" and P': "P' (w', g')"
        "rg S i I R G (\<lambda>a s. Q a s \<and> F s) (\<lambda>s. P' s \<and> F s) m'" by blast
    have "F (w', g')" by (rule stableD [OF assms(3) w(1) st(1) _ st(2)]) (use w(2) in simp)
    with st P' show "\<exists>g'. I (w', g') \<and> G (w, g) (w', g')
        \<and> (\<exists>P'. P' (w', g') \<and> rg S i I R G (\<lambda>a s. Q a s \<and> F s) P' m')"
      by (intro exI [of _ g'] conjI exI [of _ "\<lambda>s. P' s \<and> F s"]) auto
  qed
qed

lemma gor_unclaiming_busy: "gor S own T i unclaiming Q P m \<Longrightarrow> gor S own T i busy Q P m"
  by (erule rg_guar) (simp add: unclaiming_def)

lemma gor_idle_unclaiming: "gor S own T i idle Q P m \<Longrightarrow> gor S own T i unclaiming Q P m"
  by (erule rg_guar) (simp add: idle_def)

text \<open>What every goroutine respects, each goroutine can also say of its own steps.\<close>

lemma busy_env: "busy own T i s s' \<Longrightarrow> \<exists>j. env own T j s s'"
  unfolding busy_def others_def by (metis n_not_Suc_n)

lemma stable_busy:
  assumes "\<And>j. stable_under I (env own T j) F"
  shows "stable_under I (busy own T i) F"
proof
  fix s s' assume s: "I s" "I s'" "F s" "busy own T i s s'"
  then obtain j where "env own T j s s'" using busy_env by blast
  then show "F s'" by (rule stableD [OF assms s(1-3)])
qed

lemma stable_unclaiming_busy:
  "stable_under I (busy own T i) F \<Longrightarrow> stable_under I (unclaiming own T i) F"
  unfolding stable_under_def unclaiming_def by blast

lemma stable_idle_unclaiming:
  "stable_under I (unclaiming own T i) F \<Longrightarrow> stable_under I (idle own T i) F"
  unfolding stable_under_def idle_def by blast

subsection \<open>Assertions\<close>

definition verified :: "string \<Rightarrow> string set assn" where
  "verified k = (\<lambda>(w, _). k \<notin> pv_quarantined (w_prov w))"

definition vacant :: "string \<Rightarrow> string set assn" where
  "vacant k = (\<lambda>(w, _). pv_claims (w_prov w) k = None)"

definition unsettled :: "string \<Rightarrow> string set assn" where
  "unsettled k = (\<lambda>(w, _). pv_claims (w_prov w) k = None \<or> k \<in> pv_tentative (w_prov w))"

definition tentative_row :: "string \<Rightarrow> string \<Rightarrow> string set assn" where
  "tentative_row k x = (\<lambda>(w, _).
     k \<in> pv_tentative (w_prov w) \<and> (\<exists>c. pv_claims (w_prov w) k = Some c \<and> cl_id c = x))"

definition only_id :: "string \<Rightarrow> string \<Rightarrow> string set assn" where
  "only_id k x = (\<lambda>(w, _). \<forall>c. pv_claims (w_prov w) k = Some c \<longrightarrow> cl_id c = x)"

definition firm :: "string \<Rightarrow> string \<Rightarrow> string set assn" where
  "firm k x = (\<lambda>(w, seen). x \<in> seen \<and> nontent (w_prov w) k x)"

definition has_token :: "(string \<rightharpoonup> string) \<Rightarrow> string \<Rightarrow> string \<Rightarrow> string set assn" where
  "has_token T x t = (\<lambda>(w, _). known T (w_trace w) x = Some t)"

definition was_released :: "string \<Rightarrow> string set assn" where
  "was_released x = (\<lambda>(w, _). x \<in> released (w_trace w))"

definition was_gone :: "(string \<rightharpoonup> string) \<Rightarrow> string \<Rightarrow> string set assn" where
  "was_gone T x = (\<lambda>(w, _). x \<in> gone T (w_trace w))"

definition balanced :: "(string \<rightharpoonup> string) \<Rightarrow> string \<Rightarrow> string set \<Rightarrow> string set assn" where
  "balanced T k X = (\<lambda>(w, _). obtained (w_trace w) k \<subseteq> X \<union> accounted T w)"

definition in_flight :: "string \<Rightarrow> string \<Rightarrow> string set assn" where
  "in_flight k x = (\<lambda>(w, seen). x \<in> obtained (w_trace w) k \<and> x \<notin> seen)"

definition holding :: "nat \<Rightarrow> string set assn" where
  "holding i = (\<lambda>(w, _). w_saveMu w = Some i)"

definition row_on_disk :: "nat \<Rightarrow> string \<Rightarrow> string set assn" where
  "row_on_disk i k = (\<lambda>(w, _). w_saveMu w = Some i
     \<and> (\<forall>c. pv_claims (w_prov w) k = Some c \<longrightarrow> cred c \<in> disk_creds w))"

definition row_in :: "string \<Rightarrow> state_file \<Rightarrow> string set assn" where
  "row_in k st = (\<lambda>(w, _). \<forall>c. pv_claims (w_prov w) k = Some c \<longrightarrow> cred c \<in> state_creds st)"

definition covers :: "(string \<rightharpoonup> string) \<Rightarrow> nat \<Rightarrow> state_file \<Rightarrow> string set assn" where
  "covers T i st = (\<lambda>(w, _). w_saveMu w = Some i \<and> durable (w_prov w) \<subseteq> state_creds st
     \<and> creds_known (known T (w_trace w)) (state_creds st))"

definition staged :: "nat \<Rightarrow> json \<Rightarrow> string set assn" where
  "staged i j = (\<lambda>(w, _). w_saveMu w = Some i \<and> w_tmp w = Some j)"

subsection \<open>What other goroutines cannot falsify\<close>

lemma stable_verified [stables]: "stable_under I (env own T j) (verified k)"
  unfolding stable_under_def by (auto simp: verified_def env_def calm_def)

lemma stable_firm [stables]: "stable_under I (env own T j) (firm k x)"
  unfolding stable_under_def by (auto simp: firm_def env_def calm_def)

lemma stable_has_token [stables]: "stable_under I (env own T j) (has_token T x t)"
  unfolding stable_under_def by (auto simp: has_token_def env_def dest: map_le_SomeD)

lemma stable_was_released [stables]: "stable_under I (env own T j) (was_released x)"
  unfolding stable_under_def by (auto simp: was_released_def env_def released_append)

lemma stable_was_gone [stables]: "stable_under I (env own T j) (was_gone T x)"
  unfolding stable_under_def using gone_append by (fastforce simp: was_gone_def env_def)

lemma env_frame: "env own T j (w, g) (w', g') \<Longrightarrow> own j = Some k \<Longrightarrow> frame (w_prov w) (w_prov w') k"
  by (simp add: env_def)

lemma frame_claims:
  assumes "frame p p' k" "pv_claims p' k = Some c'"
  obtains c where "pv_claims p k = Some c" "cl_id c' = cl_id c"
  using assms by (auto simp: frame_def split: option.splits)

lemma stable_vacant [stables]: "own j = Some k \<Longrightarrow> stable_under I (env own T j) (vacant k)"
  unfolding stable_under_def by (auto simp: vacant_def frame_def dest!: env_frame)

lemma stable_unsettled [stables]: "own j = Some k \<Longrightarrow> stable_under I (env own T j) (unsettled k)"
  unfolding stable_under_def by (auto simp: unsettled_def frame_def dest!: env_frame)

lemma stable_tentative_row [stables]:
  "own j = Some k \<Longrightarrow> stable_under I (env own T j) (tentative_row k x)"
  unfolding stable_under_def by (auto simp: tentative_row_def frame_def dest!: env_frame)

lemma stable_only_id [stables]: "own j = Some k \<Longrightarrow> stable_under I (env own T j) (only_id k x)"
  unfolding stable_under_def
  by (auto simp: only_id_def dest!: env_frame elim!: frame_claims)

lemma stable_balanced [stables]:
  "own j = Some k \<Longrightarrow> stable_under I (env own T j) (balanced T k X)"
  unfolding stable_under_def by (auto simp: balanced_def env_def)

lemma stable_in_flight [stables]:
  "own j = Some k \<Longrightarrow> stable_under I (env own T j) (in_flight k x)"
  unfolding stable_under_def by (auto simp: in_flight_def env_def)

lemma stable_holding [stables]: "stable_under I (env own T j) (holding j)"
  unfolding stable_under_def by (auto simp: holding_def env_def lock_rely_def)

lemma stable_staged [stables]: "stable_under I (env own T j) (staged j x)"
  unfolding stable_under_def by (auto simp: staged_def env_def lock_rely_def)

lemma stable_covers [stables]: "stable_under I (env own T j) (covers T j st)"
  unfolding stable_under_def by (auto simp: covers_def env_def lock_rely_def intro: creds_known_mono)

text \<open>A row keeps its credential as long as it keeps its id: the invariant fixes the token.\<close>

lemma frame_cred:
  assumes "table_inv T (w, g)" "table_inv T (w', g')" "env own T j (w, g) (w', g')" "own j = Some k"
    and "pv_claims (w_prov w') k = Some c'"
  obtains c where "pv_claims (w_prov w) k = Some c" "cred c' = cred c"
proof -
  from frame_claims [OF env_frame [OF assms(3,4)] assms(5)] obtain c where
    c: "pv_claims (w_prov w) k = Some c" "cl_id c' = cl_id c" .
  have "known T (w_trace w) (cl_id c) = Some (cl_token c)"
    using assms(1) c(1) by (simp add: table_inv_def tokens_ok_def)
  moreover have "known T (w_trace w') (cl_id c') = Some (cl_token c')"
    using assms(2,5) by (simp add: table_inv_def tokens_ok_def)
  moreover have "known T (w_trace w) \<subseteq>\<^sub>m known T (w_trace w')"
    using assms(3) by (simp add: env_def)
  ultimately have "cl_token c' = cl_token c" using c(2) by (metis map_le_SomeD option.inject)
  with c that show thesis by (simp add: cred_def)
qed

lemma stable_row_in [stables]:
  assumes "own j = Some k"
  shows "stable_under (table_inv T) (env own T j) (row_in k st)"
  unfolding row_in_def
proof (rule stableI, clarify)
  fix w g w' g' c'
  assume inv: "table_inv T (w, g)" "table_inv T (w', g')" and e: "env own T j (w, g) (w', g')"
    and d: "\<forall>c. pv_claims (w_prov w) k = Some c \<longrightarrow> cred c \<in> state_creds st"
    and c': "pv_claims (w_prov w') k = Some c'"
  from frame_cred [OF inv e assms c'] d show "cred c' \<in> state_creds st" by metis
qed

lemma stable_row_on_disk [stables]:
  assumes "own j = Some k"
  shows "stable_under (table_inv T) (env own T j) (row_on_disk j k)"
  unfolding row_on_disk_def
proof (rule stableI, clarify, intro conjI allI impI)
  fix w g w' g'
  assume inv: "table_inv T (w, g)" "table_inv T (w', g')"
    and e: "env own T j (w, g) (w', g')" and l: "w_saveMu w = Some j"
    and d: "\<forall>c. pv_claims (w_prov w) k = Some c \<longrightarrow> cred c \<in> disk_creds w"
  have lr: "w_saveMu w' = Some j" "w_disk w' = w_disk w"
    using e l by (auto simp: env_def lock_rely_def)
  then show "w_saveMu w' = Some j" by simp
  fix c' assume "pv_claims (w_prov w') k = Some c'"
  from frame_cred [OF inv e assms this] d have "cred c' \<in> disk_creds w"
    by metis
  with lr show "cred c' \<in> disk_creds w'" by (simp add: disk_creds_def)
qed

lemmas stab = stable_conj stable_all stable_ex stable_imp_const stable_const stables

subsection \<open>What the goroutine itself keeps\<close>

named_theorems unclaims \<open>assertions that a program which claims no sandbox cannot falsify\<close>

lemma unclaiming_global [unclaims]:
  "stable_under I (unclaiming own T i) (verified k)"
  "stable_under I (unclaiming own T i) (firm k x)"
  "stable_under I (unclaiming own T i) (has_token T x t)"
  "stable_under I (unclaiming own T i) (was_released x)"
  "stable_under I (unclaiming own T i) (was_gone T x)"
  by (intro stable_unclaiming_busy stable_busy stables)+

lemma unclaiming_balanced [unclaims]: "stable_under I (unclaiming own T i) (balanced T k X)"
proof
  fix s s' assume s: "balanced T k X s" "unclaiming own T i s s'"
  then obtain j where "env own T j s s'" using busy_env unclaiming_def by blast
  with s show "balanced T k X s'"
    by (cases s; cases s') (auto simp: balanced_def env_def unclaiming_def)
qed

lemma idle_local [idles]:
  "stable_under I (idle own T i) (vacant k)"
  "stable_under I (idle own T i) (unsettled k)"
  "stable_under I (idle own T i) (tentative_row k x)"
  "stable_under I (idle own T i) (only_id k x)"
  "stable_under I (idle own T i) (in_flight k x)"
  by (auto simp: stable_under_def idle_def unclaiming_def vacant_def unsettled_def
      tentative_row_def only_id_def in_flight_def)

lemma idle_unclaiming [idles]:
  "stable_under I (idle own T i) (verified k)"
  "stable_under I (idle own T i) (firm k x)"
  "stable_under I (idle own T i) (has_token T x t)"
  "stable_under I (idle own T i) (was_released x)"
  "stable_under I (idle own T i) (was_gone T x)"
  "stable_under I (idle own T i) (balanced T k X)"
  by (intro stable_idle_unclaiming unclaims)+

lemmas idle_stab = stable_conj stable_all stable_ex stable_imp_const stable_const idles
lemmas unclaim_stab = stable_conj stable_all stable_ex stable_imp_const stable_const unclaims

subsection \<open>Calls\<close>

lemma quiet_idle:
  assumes "table_inv T (w, g)" "allowed T (w_trace w) e"
  shows "table_inv T (log_event e w, g) \<and> idle own T i (w, g) (log_event e w, g)"
  using quiet_step [OF assms, of own i] assms(2)
  by (simp add: idle_def unclaiming_def busy_def fun_eq_iff allowed_def quiet_obtained)

lemma gor_call:
  assumes "stable_under (table_inv T) (env own T i) P" "\<forall>a. m \<noteq> Ret a"
    and "\<And>w g w' m'. table_inv T (w, g) \<Longrightarrow> P (w, g) \<Longrightarrow> astep S i m w = Some (w', m') \<Longrightarrow>
           \<exists>a e. m' = Ret a \<and> w' = log_event e w \<and> allowed T (w_trace w) e \<and> Q a (w', g)"
    and "\<And>a. stable_under (table_inv T) (env own T i) (Q a)"
  shows "gor S own T i idle Q P m"
proof (rule rg_single [OF assms(1,2) _ assms(4)])
  fix w g w' m'
  assume w: "table_inv T (w, g)" "P (w, g)" "astep S i m w = Some (w', m')"
  from assms(3) [OF this] obtain a e where
    a: "m' = Ret a" "w' = log_event e w" "allowed T (w_trace w) e" "Q a (w', g)" by blast
  from quiet_idle [OF w(1) a(3), of own i] a
  show "\<exists>a g'. m' = Ret a \<and> table_inv T (w', g') \<and> idle own T i (w, g) (w', g') \<and> Q a (w', g')"
    by blast
qed

definition quietly :: "string set trans" where
  "quietly = (\<lambda>(w, g) (w', g'). g' = g \<and> (\<exists>e. quiet_event e \<and> w' = log_event e w))"

lemma quietly_idle: "quietly s s' \<Longrightarrow> idle own T i s s'"
  using quiet_env [of _ own T i]
  by (cases s; cases s') (auto simp: quietly_def idle_def unclaiming_def busy_def fun_eq_iff quiet_obtained)

lemma stable_quietly: "stable_under (table_inv T) (idle own T i) P \<Longrightarrow> stable_under (table_inv T) quietly P"
  unfolding stable_under_def using quietly_idle by blast

named_theorems quiets \<open>assertions that a call to the outside does not falsify\<close>

lemma quiet_table [quiets]:
  "stable_under (table_inv T) quietly (vacant k)"
  "stable_under (table_inv T) quietly (unsettled k)"
  "stable_under (table_inv T) quietly (tentative_row k x)"
  "stable_under (table_inv T) quietly (only_id k x)"
  "stable_under (table_inv T) quietly (in_flight k x)"
  "stable_under (table_inv T) quietly (verified k)"
  "stable_under (table_inv T) quietly (firm k x)"
  "stable_under (table_inv T) quietly (has_token T x t)"
  "stable_under (table_inv T) quietly (was_released x)"
  "stable_under (table_inv T) quietly (was_gone T x)"
  "stable_under (table_inv T) quietly (balanced T k X)"
  by (rule stable_quietly, rule idles)+

lemma quiet_store [quiets]:
  "stable_under (table_inv T) quietly (holding i)"
  "stable_under (table_inv T) quietly (row_on_disk i k)"
  "stable_under (table_inv T) quietly (row_in k st)"
  "stable_under (table_inv T) quietly (covers T i st)"
  "stable_under (table_inv T) quietly (staged i j)"
  by (auto simp: stable_under_def quietly_def holding_def row_on_disk_def row_in_def covers_def
      staged_def known_snoc quiet_learn)

lemmas quiet_stab = stable_conj stable_all stable_ex stable_imp_const stable_const quiets

text \<open>A call adds what its reply says and keeps what calls keep.\<close>

lemma gor_call_keep:
  assumes "stable_under (table_inv T) (env own T i) P" "stable_under (table_inv T) quietly P"
    and "\<forall>a. m \<noteq> Ret a"
    and "\<And>w g w' m'. table_inv T (w, g) \<Longrightarrow> P (w, g) \<Longrightarrow> astep S i m w = Some (w', m') \<Longrightarrow>
           \<exists>a e. m' = Ret a \<and> w' = log_event e w \<and> allowed T (w_trace w) e \<and> N a (w', g)"
    and "\<And>a. stable_under (table_inv T) (env own T i) (N a)"
  shows "gor S own T i idle (\<lambda>a s. P s \<and> N a s) P m"
proof (rule gor_call [OF assms(1,3) _ stable_conj [OF assms(1,5)]])
  fix w g w' m'
  assume w: "table_inv T (w, g)" "P (w, g)" "astep S i m w = Some (w', m')"
  from assms(4) [OF this] obtain a e where
    a: "m' = Ret a" "w' = log_event e w" "allowed T (w_trace w) e" "N a (w', g)" by blast
  have "P (w', g)" unfolding a(2)
    by (rule stableD [OF assms(2) w(1)]) (use quiet_step [OF w(1) a(3)] w(2) a(3) in \<open>auto simp: quietly_def allowed_def\<close>)
  with a show "\<exists>a e. m' = Ret a \<and> w' = log_event e w \<and> allowed T (w_trace w) e \<and> P (w', g) \<and> N a (w', g)"
    by blast
qed

lemma gor_call_quiet:
  assumes "stable_under (table_inv T) (env own T i) P" "stable_under (table_inv T) quietly P"
    and "\<forall>a. m \<noteq> Ret a"
    and "\<And>w w' m'. astep S i m w = Some (w', m') \<Longrightarrow>
           \<exists>a e. m' = Ret a \<and> w' = log_event e w \<and> allowed T (w_trace w) e"
  shows "gor S own T i idle (\<lambda>_. P) P m"
  by (rule rg_post [OF gor_call_keep [OF assms(1-3), where N = "\<lambda>_ _. True"]])
    (use assms(4) in auto)

lemma gor_now:
  assumes "stable_under (table_inv T) (env own T i) P" "stable_under (table_inv T) quietly P"
  shows "gor S own T i idle (\<lambda>_. P) P now"
  by (rule gor_call_quiet [OF assms]) (auto simp: allowed_simps)

lemma gor_dyn_get:
  assumes "stable_under (table_inv T) (env own T i) P" "stable_under (table_inv T) quietly P"
  shows "gor S own T i idle (\<lambda>_. P) P (dyn_get gv ns n)"
  by (rule gor_call_quiet [OF assms]) (auto simp: allowed_simps)

lemma gor_range:
  assumes "stable_under (table_inv T) (env own T i) P" "stable_under (table_inv T) quietly P"
    and "map_ranges S" "finite K"
  shows "gor S own T i idle (\<lambda>ks s. P s \<and> set ks = K) P (range_keys K)"
  by (rule gor_call_keep [OF assms(1,2)])
    (use assms(3,4) in \<open>auto simp: allowed_simps map_ranges_def\<close>)

lemma gor_list:
  assumes "stable_under (table_inv T) (env own T i) P" "stable_under (table_inv T) quietly P"
    and "\<And>w g. P (w, g) \<Longrightarrow> X \<subseteq> g"
  shows "gor S own T i idle
    (\<lambda>r s. P s \<and> (\<forall>l x. r = Inr l \<and> x \<in> X \<and> x \<notin> ss_id ` set l \<longrightarrow> was_gone T x s)) P lister_sandboxes"
proof (rule gor_call_keep [OF assms(1,2)])
  show "\<forall>a. lister_sandboxes \<noteq> Ret a" by simp
  show "stable_under (table_inv T) (env own T i)
      (\<lambda>s. \<forall>l x. a = Inr l \<and> x \<in> X \<and> x \<notin> ss_id ` set l \<longrightarrow> was_gone T x s)" for a
    by (intro stab)
  fix w g w' m'
  assume w: "table_inv T (w, g)" "P (w, g)" "astep S i lister_sandboxes w = Some (w', m')"
  have "was_gone T x (w', g)" if "svc_list S (w_trace w) = Inr l" "x \<in> X" "x \<notin> ss_id ` set l" for x l
  proof -
    have "known T (w_trace w) x \<noteq> None"
      using assms(3) [OF w(2)] w(1) that(2) by (auto simp: table_inv_def)
    from gone_listed [OF this that(3)] w(3) that(1) show ?thesis by (auto simp: was_gone_def)
  qed
  with w(3) show "\<exists>a e. m' = Ret a \<and> w' = log_event e w \<and> allowed T (w_trace w) e
      \<and> (\<forall>l x. a = Inr l \<and> x \<in> X \<and> x \<notin> ss_id ` set l \<longrightarrow> was_gone T x (w', g))"
    by (intro exI [of _ "svc_list S (w_trace w)"] exI [of _ "EvList (svc_list S (w_trace w))"])
      (auto simp: allowed_simps)
qed

lemma released_snoc: "released (h @ [EvRelease cc x t None]) = insert x (released h)"
  unfolding released_def by fastforce

lemma gor_release:
  assumes "stable_under (table_inv T) (env own T i) P" "stable_under (table_inv T) quietly P"
    and "\<And>s. P s \<Longrightarrow> has_token T x t s"
  shows "gor S own T i idle (\<lambda>r s. P s \<and> (r = None \<longrightarrow> was_released x s)) P (client_release cc x t)"
proof (rule gor_call_keep [OF assms(1,2)])
  show "\<forall>a. client_release cc x t \<noteq> Ret a" by simp
  show "stable_under (table_inv T) (env own T i) (\<lambda>s. a = None \<longrightarrow> was_released x s)" for a :: "err option"
    by (intro stab)
  fix w g w' m'
  assume w: "P (w, g)" "astep S i (client_release cc x t) w = Some (w', m')"
  have "known T (w_trace w) x = Some t" using assms(3) [OF w(1)] by (simp add: has_token_def)
  with w(2) show "\<exists>a e. m' = Ret a \<and> w' = log_event e w \<and> allowed T (w_trace w) e \<and> (a = None \<longrightarrow> was_released x (w', g))"
    by (intro exI [of _ "svc_release S (w_trace w) cc x t"]
        exI [of _ "EvRelease cc x t (svc_release S (w_trace w) cc x t)"])
      (auto simp: allowed_simps was_released_def released_snoc)
qed

lemma gor_reads:
  assumes "stable_under (table_inv T) (env own T i) P"
    and "\<And>w g. table_inv T (w, g) \<Longrightarrow> P (w, g) \<Longrightarrow> Q (h (w_prov w)) (w, g)"
    and "\<And>a. stable_under (table_inv T) (env own T i) (Q a)"
  shows "gor S own T i idle Q P (reads h)"
  by (rule rg_single [OF assms(1) _ _ assms(3)])
    (use assms(2) in \<open>auto simp: idle_def unclaiming_def busy_def\<close>)

subsection \<open>Sections\<close>

lemma gor_locked:
  assumes "exclusive own" "stable_under (table_inv T) (env own T i) P"
    and "\<And>w g p' a. table_inv T (w, g) \<Longrightarrow> P (w, g) \<Longrightarrow> f (w_prov w) = (p', a) \<Longrightarrow>
           rows_kept own i (released (w_trace w) \<union> gone T (w_trace w)) (w_prov w) p'
           \<and> Q a (w\<lparr>w_prov := p'\<rparr>, g)"
    and "\<And>a. stable_under (table_inv T) (env own T i) (Q a)"
  shows "gor S own T i unclaiming Q P (locked f)"
proof (rule rg_single [OF assms(2) _ _ assms(4)])
  show "\<forall>a. locked f \<noteq> Ret a" by simp
  fix w g w' m'
  assume w: "table_inv T (w, g)" "P (w, g)" "astep S i (locked f) w = Some (w', m')"
  obtain p' a where f: "f (w_prov w) = (p', a)" by (cases "f (w_prov w)")
  with w(3) have w': "w' = w\<lparr>w_prov := p'\<rparr>" "m' = Ret a" by simp_all
  from assms(3) [OF w(1,2) f] have r: "rows_kept own i (released (w_trace w) \<union> gone T (w_trace w)) (w_prov w) p'"
    and q: "Q a (w', g)" by (simp_all add: w')
  from section_step [OF w(1) rows_kept_section [OF w(1) r] assms(1)] q
  show "\<exists>a g'. m' = Ret a \<and> table_inv T (w', g') \<and> unclaiming own T i (w, g) (w', g') \<and> Q a (w', g')"
    by (auto simp: w' unclaiming_def busy_def)
qed

lemma gor_modify:
  assumes "exclusive own" "stable_under (table_inv T) (env own T i) P"
    and "\<And>w g. table_inv T (w, g) \<Longrightarrow> P (w, g) \<Longrightarrow>
           rows_kept own i (released (w_trace w) \<union> gone T (w_trace w)) (w_prov w) (u (w_prov w))
           \<and> Q (w\<lparr>w_prov := u (w_prov w)\<rparr>, g)"
    and "stable_under (table_inv T) (env own T i) Q"
  shows "gor S own T i unclaiming (\<lambda>_. Q) P (modify u)"
  unfolding modify_def
  by (rule gor_locked [OF assms(1,2) _ assms(4)]) (use assms(3) in auto)

end
