(* ===== verification/Conc_Store.thy ===== *)
theory Conc_Store
  imports Goroutines
begin

text \<open>
  Persistence under concurrency (\<^verbatim>\<open>persist\<close>, \<^verbatim>\<open>write\<close> and \<^verbatim>\<open>commitClaim\<close> of
  \<^verbatim>\<open>provider/provider.go\<close>): whoever holds \<open>saveMu\<close> may replace the state file, because the table
  it snapshotted covers every durable credential until it lets go, whatever the others do to the
  table meanwhile; and a tentative mark is cleared only after the row is on disk.
\<close>

lemma inv_row:
  assumes "table_inv T (w, g)" "pv_claims (w_prov w) k = Some c"
  shows "cl_id c \<in> g" "known T (w_trace w) (cl_id c) = Some (cl_token c)"
proof -
  have "cl_id c \<in> held_ids (w_prov w)" using assms(2) by (auto simp: held_ids_iff)
  with assms show "cl_id c \<in> g" "known T (w_trace w) (cl_id c) = Some (cl_token c)"
    by (auto simp: table_inv_def tokens_ok_def)
qed

lemma inv_queued:
  assumes "table_inv T (w, g)" "c \<in> set (pv_releasing (w_prov w))"
  shows "cl_id c \<in> g" "known T (w_trace w) (cl_id c) = Some (cl_token c)"
proof -
  have "cl_id c \<in> held_ids (w_prov w)" using assms(2) by (auto simp: held_ids_iff)
  with assms show "cl_id c \<in> g" "known T (w_trace w) (cl_id c) = Some (cl_token c)"
    by (auto simp: table_inv_def tokens_ok_def)
qed

lemma inv_marks:
  assumes "table_inv T (w, g)"
  shows "k \<in> pv_tentative (w_prov w) \<Longrightarrow> pv_claims (w_prov w) k \<noteq> None"
    "k \<in> pv_quarantined (w_prov w) \<Longrightarrow> pv_claims (w_prov w) k \<noteq> None"
    "k \<in> pv_quarantined (w_prov w) \<Longrightarrow> k \<notin> pv_tentative (w_prov w)"
    "finite (dom (pv_claims (w_prov w)))" "pv_lister (w_prov w)"
  using assms by (auto simp: table_inv_def table_ok_def)

subsection \<open>The two locks and the file system\<close>

lemma gor_lock:
  assumes "stable_under (table_inv T) (env own T i) P" "stable_under (table_inv T) (idle own T i) P"
  shows "gor S own T i idle (\<lambda>_ s. P s \<and> holding i s) P lock_save"
proof (rule rg_single [OF assms(1)])
  show "\<forall>a. lock_save \<noteq> Ret a" by simp
  show "stable_under (table_inv T) (env own T i) (\<lambda>s. P s \<and> holding i s)"
    by (intro stable_conj assms stables)
  fix w g w' m'
  assume w: "table_inv T (w, g)" "P (w, g)" "astep S i lock_save w = Some (w', m')"
  then have w': "w_saveMu w = None" "w' = w\<lparr>w_saveMu := Some i\<rparr>" "m' = Ret ()"
    by (auto split: if_splits)
  have inv: "table_inv T (w', g)"
    using w(1) by (simp add: w' table_inv_def disk_creds_def notified_ok_def)
  have g: "idle own T i (w, g) (w', g)"
    using w'(1)
    by (auto simp: w'(2) idle_def unclaiming_def busy_def others_def env_def lock_rely_def accounted_def)
  have "P (w', g)" by (rule stableD [OF assms(2) w(1) inv w(2) g])
  with inv g w' show "\<exists>a g'. m' = Ret a \<and> table_inv T (w', g') \<and> idle own T i (w, g) (w', g')
      \<and> P (w', g') \<and> holding i (w', g')"
    by (auto simp: holding_def)
qed

lemma gor_unlock:
  assumes "stable_under (table_inv T) (env own T i) P" "stable_under (table_inv T) (idle own T i) P"
  shows "gor S own T i idle (\<lambda>_. P) (\<lambda>s. P s \<and> holding i s) unlock_save"
proof (rule rg_single [OF _ _ _ assms(1)])
  show "\<forall>a. unlock_save \<noteq> Ret a" by simp
  show "stable_under (table_inv T) (env own T i) (\<lambda>s. P s \<and> holding i s)"
    by (intro stable_conj assms stables)
  fix w g w' m'
  assume w: "table_inv T (w, g)" "P (w, g) \<and> holding i (w, g)" "astep S i unlock_save w = Some (w', m')"
  then have w': "w_saveMu w = Some i" "w' = w\<lparr>w_saveMu := None\<rparr>" "m' = Ret ()"
    by (auto simp: holding_def)
  have inv: "table_inv T (w', g)"
    using w(1) by (simp add: w' table_inv_def disk_creds_def notified_ok_def)
  have g: "idle own T i (w, g) (w', g)"
    using w'(1)
    by (auto simp: w'(2) idle_def unclaiming_def busy_def others_def env_def lock_rely_def accounted_def)
  have "P (w', g)" by (rule stableD [OF assms(2) w(1) inv _ g]) (use w(2) in simp)
  with inv g w' show "\<exists>a g'. m' = Ret a \<and> table_inv T (w', g') \<and> idle own T i (w, g) (w', g') \<and> P (w', g')"
    by auto
qed

text \<open>The holder of \<open>saveMu\<close> replaces the files.\<close>

lemma files_step:
  assumes "table_inv T (w, g)" "w_saveMu w = Some i" "allowed T (w_trace w) e"
    and "durable (w_prov w) \<subseteq> disk_creds (w\<lparr>w_disk := d\<rparr>)"
    and "creds_known (known T (w_trace w)) (disk_creds (w\<lparr>w_disk := d\<rparr>))"
    and w'_def: "w' = log_event e (w\<lparr>w_disk := d, w_tmp := t\<rparr>)"
  shows "table_inv T (w', g) \<and> idle own T i (w, g) (w', g)"
proof
  have q: "quiet_event e" using assms(3) by (simp add: allowed_def)
  then have k: "known T (w_trace w @ [e]) = known T (w_trace w)" by (simp add: known_snoc quiet_learn)
  have d: "disk_creds w' = disk_creds (w\<lparr>w_disk := d\<rparr>)" by (simp add: w'_def disk_creds_def)
  have "notified_ok g w'"
    using assms(1) q by (auto simp: w'_def table_inv_def notified_ok_def quiet_event_def)
  moreover have "presented T (w_trace w @ [e])"
    using assms(1,3) by (auto simp: table_inv_def intro: presented_snoc)
  ultimately show "table_inv T (w', g)"
    using assms(1,4,5) k d by (simp add: table_inv_def quiet_obtained [OF q] w'_def)
  have "accounted T w \<subseteq> accounted T w'"
    using accounted_log [of T w e] by (simp add: w'_def accounted_def)
  with assms(2) k show "idle own T i (w, g) (w', g)"
    by (auto simp: w'_def idle_def unclaiming_def busy_def others_def env_def lock_rely_def
        quiet_obtained [OF q])
qed

lemma state_creds_trunc [simp]: "state_creds (trunc_state st) = state_creds st"
proof -
  have "cred (trunc_claim c) = cred c" for c by (simp add: cred_def)
  then show ?thesis
    by (simp add: state_creds_def trunc_state_def comp_def ran_map_option image_image)
qed

lemma disk_creds_encoded:
  assumes "set ks = dom (sf_claims st)"
  shows "disk_creds (w\<lparr>w_disk := Some (encode_state ks st)\<rparr>) = state_creds st"
  by (simp add: disk_creds_def decode_encode_state [OF assms])

lemma gor_mkdir:
  assumes "stable_under (table_inv T) (env own T i) P" "stable_under (table_inv T) quietly P"
  shows "gor S own T i idle (\<lambda>_. P) P (fs_call MkdirAll)"
  by (rule gor_call_quiet [OF assms]) (auto simp: allowed_simps)

lemma gor_write_tmp:
  assumes "own i = Some key \<or> \<not> b"
  shows "gor S own T i idle
     (\<lambda>r s. covers T i st s \<and> (b \<longrightarrow> row_in key st s) \<and> (r = None \<longrightarrow> staged i j s))
     (\<lambda>s. covers T i st s \<and> (b \<longrightarrow> row_in key st s)) (fs_call (WriteTmp j))"
proof (rule rg_single)
  have st: "stable_under (table_inv T) (env own T i) (\<lambda>s. covers T i st s \<and> (b \<longrightarrow> row_in key st s))"
    using assms by (intro stable_conj stable_imp_const stables) auto
  show "stable_under (table_inv T) (env own T i) (\<lambda>s. covers T i st s \<and> (b \<longrightarrow> row_in key st s))"
    by (rule st)
  show "stable_under (table_inv T) (env own T i)
      (\<lambda>s. covers T i st s \<and> (b \<longrightarrow> row_in key st s) \<and> (a = None \<longrightarrow> staged i j s))" for a :: "err option"
    using stable_conj [OF st, of "\<lambda>s. a = None \<longrightarrow> staged i j s"]
    by (simp add: stable_imp_const stable_staged)
  show "\<forall>a. fs_call (WriteTmp j) \<noteq> Ret a" by simp
  fix w g w' m'
  assume w: "table_inv T (w, g)" "covers T i st (w, g) \<and> (b \<longrightarrow> row_in key st (w, g))"
    and s: "astep S i (fs_call (WriteTmp j)) w = Some (w', m')"
  let ?r = "svc_fs S (w_trace w) (WriteTmp j)"
  let ?e = "EvFs (WriteTmp j) ?r"
  let ?t = "if ?r = None then Some j else None"
  have w': "w' = log_event ?e (w\<lparr>w_disk := w_disk w, w_tmp := ?t\<rparr>)" "m' = Ret ?r"
    using s by auto
  have q: "quiet_event ?e" and al: "allowed T (w_trace w) ?e" by (simp_all add: allowed_simps)
  have "table_inv T (w', g) \<and> idle own T i (w, g) (w', g)"
    by (rule files_step [OF w(1) _ al _ _ w'(1)]) (use w in \<open>auto simp: covers_def table_inv_def\<close>)
  moreover have "covers T i st (w', g) \<and> (b \<longrightarrow> row_in key st (w', g)) \<and> (?r = None \<longrightarrow> staged i j (w', g))"
    using w(2) by (auto simp: w'(1) covers_def row_in_def staged_def known_snoc quiet_learn [OF q])
  ultimately show "\<exists>a g'. m' = Ret a \<and> table_inv T (w', g') \<and> idle own T i (w, g) (w', g')
      \<and> covers T i st (w', g') \<and> (b \<longrightarrow> row_in key st (w', g')) \<and> (a = None \<longrightarrow> staged i j (w', g'))"
    using w'(2) by blast
qed

lemma gor_rename:
  assumes "own i = Some key \<or> \<not> b" "set ks = dom (sf_claims st)"
  shows "gor S own T i idle
     (\<lambda>r s. holding i s \<and> (r = None \<and> b \<longrightarrow> row_on_disk i key s))
     (\<lambda>s. covers T i st s \<and> (b \<longrightarrow> row_in key st s) \<and> staged i (encode_state ks st) s)
     (fs_call RenameTmp)"
proof (rule rg_single)
  show "stable_under (table_inv T) (env own T i)
      (\<lambda>s. covers T i st s \<and> (b \<longrightarrow> row_in key st s) \<and> staged i (encode_state ks st) s)"
    using assms(1) by (intro stable_conj stable_imp_const stables) auto
  show "stable_under (table_inv T) (env own T i)
      (\<lambda>s. holding i s \<and> (a = None \<and> b \<longrightarrow> row_on_disk i key s))" for a :: "err option"
    using assms(1) by (intro stable_conj stable_imp_const stables) auto
  show "\<forall>a. fs_call RenameTmp \<noteq> Ret a" by simp
  fix w g w' m'
  assume w: "table_inv T (w, g)"
      "covers T i st (w, g) \<and> (b \<longrightarrow> row_in key st (w, g)) \<and> staged i (encode_state ks st) (w, g)"
    and s: "astep S i (fs_call RenameTmp) w = Some (w', m')"
  let ?r = "svc_fs S (w_trace w) RenameTmp"
  let ?e = "EvFs RenameTmp ?r"
  let ?d = "if ?r = None then Some (encode_state ks st) else w_disk w"
  let ?t = "if ?r = None then None else w_tmp w"
  have w': "w' = log_event ?e (w\<lparr>w_disk := ?d, w_tmp := ?t\<rparr>)" "m' = Ret ?r"
    using s w(2) by (auto simp: staged_def)
  have q: "quiet_event ?e" and al: "allowed T (w_trace w) ?e" by (simp_all add: allowed_simps)
  have d: "disk_creds (w\<lparr>w_disk := ?d\<rparr>) = (if ?r = None then state_creds st else disk_creds w)"
    by (simp add: disk_creds_encoded [OF assms(2)])
  have "table_inv T (w', g) \<and> idle own T i (w, g) (w', g)"
    by (rule files_step [OF w(1) _ al _ _ w'(1)]) (use w d in \<open>auto simp: covers_def table_inv_def\<close>)
  moreover have "disk_creds w' = disk_creds (w\<lparr>w_disk := ?d\<rparr>)"
    by (simp add: w'(1) disk_creds_def)
  then have "holding i (w', g) \<and> (?r = None \<and> b \<longrightarrow> row_on_disk i key (w', g))"
    using w(2) d by (auto simp: w'(1) covers_def row_in_def holding_def row_on_disk_def)
  ultimately show "\<exists>a g'. m' = Ret a \<and> table_inv T (w', g') \<and> idle own T i (w, g) (w', g')
      \<and> holding i (w', g') \<and> (a = None \<and> b \<longrightarrow> row_on_disk i key (w', g'))"
    using w'(2) by blast
qed

subsection \<open>write, persist and commitClaim\<close>

lemma snapshot_covers: "durable p \<subseteq> state_creds (snapshot key p)"
  by (auto simp: durable_def state_creds_def snapshot_def ran_def)

lemma snapshot_known:
  assumes "tokens_ok m p"
  shows "creds_known m (state_creds (snapshot key p))"
  using assms by (auto simp: creds_known_def state_creds_def snapshot_def ran_def tokens_ok_def cred_def
      split: if_splits)

lemma snapshot_row: "pv_claims p key = Some c \<Longrightarrow> cred c \<in> state_creds (snapshot key p)"
  by (auto simp: state_creds_def snapshot_def ran_def)

lemma snapshot_finite: "finite (dom (pv_claims p)) \<Longrightarrow> finite (dom (sf_claims (snapshot key p)))"
  by (rule finite_subset [of _ "dom (pv_claims p)"]) (auto simp: snapshot_def dom_def split: if_splits)

lemma gor_write_files:
  assumes "own i = Some key \<or> \<not> b" "set ks = dom (sf_claims st)"
  shows "gor S own T i idle
      (\<lambda>r s. holding i s \<and> (r = None \<and> b \<longrightarrow> row_on_disk i key s))
      (\<lambda>s. covers T i st s \<and> (b \<longrightarrow> row_in key st s))
      (bind (fs_call MkdirAll) (\<lambda>r1. case r1 of Some e \<Rightarrow> Ret (Some (MkdirFailed e)) | None \<Rightarrow>
       bind (fs_call (WriteTmp (encode_state ks st))) (\<lambda>r2.
         case r2 of Some e \<Rightarrow> Ret (Some (WriteFailed e)) | None \<Rightarrow>
       bind (fs_call RenameTmp) (\<lambda>r3.
         case r3 of Some e \<Rightarrow> Ret (Some (RenameFailed e)) | None \<Rightarrow> Ret None))))"
  (is "gor S own T i idle ?Q ?C _")
proof (rule rg_bind [OF gor_mkdir])
  show st: "stable_under (table_inv T) (env own T i) ?C" "stable_under (table_inv T) quietly ?C"
    using assms(1) by (intro stable_conj stable_imp_const stables quiets; auto)+
  have failed: "gor S own T i idle ?Q (\<lambda>s. ?C s) (Ret (Some e))" for e
    by (rule rg_Ret [OF st(1)]) (auto simp: covers_def holding_def)
  have stQ: "stable_under (table_inv T) (env own T i) (\<lambda>s. holding i s \<and> (r = None \<and> b \<longrightarrow> row_on_disk i key s))"
    for r :: "err option"
    using assms(1) by (intro stable_conj stable_imp_const stables) auto
  have rename: "gor S own T i idle ?Q
      (\<lambda>s. covers T i st s \<and> (b \<longrightarrow> row_in key st s) \<and> staged i (encode_state ks st) s)
      (bind (fs_call RenameTmp) (\<lambda>r3.
         case r3 of Some e \<Rightarrow> Ret (Some (RenameFailed e)) | None \<Rightarrow> Ret None))"
  proof (rule rg_bind [OF gor_rename [where own = own and i = i and key = key and b = b, OF assms]])
    show "gor S own T i idle ?Q (\<lambda>s. holding i s \<and> (r3 = None \<and> b \<longrightarrow> row_on_disk i key s))
        (case r3 of Some e \<Rightarrow> Ret (Some (RenameFailed e)) | None \<Rightarrow> Ret None)" for r3
      using stQ [of r3] by (cases r3) (auto intro: rg_Ret)
  qed
  show "gor S own T i idle ?Q ?C
      (case r1 of Some e \<Rightarrow> Ret (Some (MkdirFailed e)) | None \<Rightarrow>
       bind (fs_call (WriteTmp (encode_state ks st))) (\<lambda>r2.
         case r2 of Some e \<Rightarrow> Ret (Some (WriteFailed e)) | None \<Rightarrow>
       bind (fs_call RenameTmp) (\<lambda>r3.
         case r3 of Some e \<Rightarrow> Ret (Some (RenameFailed e)) | None \<Rightarrow> Ret None)))" for r1
  proof (cases r1)
    case None
    have "gor S own T i idle ?Q
        (\<lambda>s. covers T i st s \<and> (b \<longrightarrow> row_in key st s) \<and> (r2 = None \<longrightarrow> staged i (encode_state ks st) s))
        (case r2 of Some e \<Rightarrow> Ret (Some (WriteFailed e)) | None \<Rightarrow>
           bind (fs_call RenameTmp) (\<lambda>r3.
             case r3 of Some e \<Rightarrow> Ret (Some (RenameFailed e)) | None \<Rightarrow> Ret None))" for r2
      using failed rename by (cases r2) auto
    then show ?thesis unfolding None option.case
      by (rule rg_bind [OF gor_write_tmp [where own = own and i = i and key = key and b = b, OF assms(1)]])
  next
    case (Some e)
    with failed show ?thesis by simp
  qed
qed

lemma gor_write_state:
  assumes "map_ranges S" "own i = Some key \<or> \<not> b"
  shows "gor S own T i idle
     (\<lambda>r s. holding i s \<and> (r = None \<and> b \<longrightarrow> row_on_disk i key s)) (holding i) (write_state key)"
  (is "gor S own T i idle ?Q _ _")
  unfolding write_state_def
proof (rule rg_bind)
  show "gor S own T i idle (\<lambda>path s. holding i s \<and> path \<noteq> '''') (holding i) (reads pv_statePath)"
    by (rule gor_reads) (auto simp: table_inv_def intro: stab)
  let ?C = "\<lambda>st s. covers T i st s \<and> (b \<longrightarrow> row_in key st s)"
  have stC: "stable_under (table_inv T) (env own T i) (?C st)" "stable_under (table_inv T) quietly (?C st)" for st
    using assms(2) by (intro stable_conj stable_imp_const stables quiets; auto)+
  have snap: "gor S own T i idle (\<lambda>st s. ?C st s \<and> finite (dom (sf_claims st))) (holding i)
      (reads (snapshot key))"
  proof (rule gor_reads)
    show "stable_under (table_inv T) (env own T i) (\<lambda>s. ?C st s \<and> finite (dom (sf_claims st)))" for st
      by (intro stable_conj [OF stC(1)] stable_const)
    fix w g assume "table_inv T (w, g)" "holding i (w, g)"
    then show "?C (snapshot key (w_prov w)) (w, g) \<and> finite (dom (sf_claims (snapshot key (w_prov w))))"
      by (simp add: covers_def row_in_def holding_def table_inv_def table_ok_def snapshot_covers
          snapshot_known snapshot_row snapshot_finite)
  qed (rule stables)
  have rest: "gor S own T i idle ?Q (\<lambda>s. ?C st s \<and> finite (dom (sf_claims st)))
     (bind (range_keys (dom (sf_claims st))) (\<lambda>ks.
      bind (fs_call MkdirAll) (\<lambda>r1. case r1 of Some e \<Rightarrow> Ret (Some (MkdirFailed e)) | None \<Rightarrow>
      bind (fs_call (WriteTmp (encode_state ks st))) (\<lambda>r2.
        case r2 of Some e \<Rightarrow> Ret (Some (WriteFailed e)) | None \<Rightarrow>
      bind (fs_call RenameTmp) (\<lambda>r3.
        case r3 of Some e \<Rightarrow> Ret (Some (RenameFailed e)) | None \<Rightarrow> Ret None)))))" for st
  proof (rule rg_assume [where b = "finite (dom (sf_claims st))"])
    show "stable_under (table_inv T) (env own T i) (\<lambda>s. ?C st s \<and> finite (dom (sf_claims st)))"
      by (intro stable_conj [OF stC(1)] stable_const)
    assume fin: "finite (dom (sf_claims st))"
    have "gor S own T i idle (\<lambda>ks s. ?C st s \<and> set ks = dom (sf_claims st)) (?C st)
        (range_keys (dom (sf_claims st)))"
      by (rule gor_range [OF stC assms(1) fin])
    then have "gor S own T i idle (\<lambda>ks s. ?C st s \<and> set ks = dom (sf_claims st))
        (\<lambda>s. ?C st s \<and> finite (dom (sf_claims st))) (range_keys (dom (sf_claims st)))"
      using fin by simp
    then show ?thesis
    proof (rule rg_bind)
      show "gor S own T i idle ?Q (\<lambda>s. ?C st s \<and> set ks = dom (sf_claims st))
          (bind (fs_call MkdirAll) (\<lambda>r1. case r1 of Some e \<Rightarrow> Ret (Some (MkdirFailed e)) | None \<Rightarrow>
           bind (fs_call (WriteTmp (encode_state ks st))) (\<lambda>r2.
             case r2 of Some e \<Rightarrow> Ret (Some (WriteFailed e)) | None \<Rightarrow>
           bind (fs_call RenameTmp) (\<lambda>r3.
             case r3 of Some e \<Rightarrow> Ret (Some (RenameFailed e)) | None \<Rightarrow> Ret None))))" for ks
        using gor_write_files [where own = own and i = i and key = key and b = b, OF assms(2)] rg_False
        by (cases "set ks = dom (sf_claims st)") simp_all
    qed
  qed auto
  show "gor S own T i idle ?Q (\<lambda>s. holding i s \<and> path \<noteq> '''')
      (if path = '''' then Ret None else
       bind (reads (snapshot key)) (\<lambda>st.
       bind (range_keys (dom (sf_claims st))) (\<lambda>ks.
       bind (fs_call MkdirAll) (\<lambda>r1. case r1 of Some e \<Rightarrow> Ret (Some (MkdirFailed e)) | None \<Rightarrow>
       bind (fs_call (WriteTmp (encode_state ks st))) (\<lambda>r2.
         case r2 of Some e \<Rightarrow> Ret (Some (WriteFailed e)) | None \<Rightarrow>
       bind (fs_call RenameTmp) (\<lambda>r3.
         case r3 of Some e \<Rightarrow> Ret (Some (RenameFailed e)) | None \<Rightarrow> Ret None))))))" for path
    using rg_bind [OF snap rest] by (auto intro: rg_False)
qed

lemma gor_persist_only:
  assumes "map_ranges S"
  shows "gor S own T i idle (\<lambda>_ _. True) (\<lambda>_. True) persist"
  unfolding persist_def
proof (rule rg_bind)
  show "gor S own T i idle (\<lambda>_. holding i) (\<lambda>_. True) lock_save"
    by (rule rg_post [OF gor_lock [where P = "\<lambda>_. True", OF stable_const stable_const]]) simp
  show "gor S own T i idle (\<lambda>_ _. True) (holding i)
      (bind (write_state '''') (\<lambda>r. bind unlock_save (\<lambda>_. Ret r)))"
  proof (rule rg_bind)
    show "gor S own T i idle (\<lambda>_. holding i) (holding i) (write_state '''')"
      by (rule rg_post [OF gor_write_state [where b = False]]) (use assms in auto)
    show "gor S own T i idle (\<lambda>_ _. True) (holding i) (bind unlock_save (\<lambda>_. Ret r))"
      for r :: "save_error option"
      by (rule rg_bind [OF rg_pre [OF gor_unlock [where P = "\<lambda>_. True"]]])
        (auto intro: rg_Ret stab)
  qed
qed

lemma gor_persist:
  assumes "map_ranges S" "stable_under (table_inv T) (env own T i) P"
    and "stable_under (table_inv T) (idle own T i) P"
  shows "gor S own T i idle (\<lambda>_. P) P persist"
  using rg_frame [OF gor_persist_only [OF assms(1)] assms(2,3)] by simp

lemma gor_save_state:
  assumes "map_ranges S" "stable_under (table_inv T) (env own T i) P"
    and "stable_under (table_inv T) (idle own T i) P"
  shows "gor S own T i idle (\<lambda>_. P) P save_state"
  unfolding save_state_def by (rule rg_bind [OF gor_persist [OF assms]]) (auto intro: rg_Ret assms)

text \<open>The holder of \<open>saveMu\<close> makes a row that is on disk durable.\<close>

lemma commit_step:
  assumes inv: "table_inv T (w, g)" and own: "own i = Some key" "exclusive own"
    and disk: "row_on_disk i key (w, g)"
  defines "w' \<equiv> w\<lparr>w_prov := clear_tentative key (w_prov w)\<rparr>"
  shows "table_inv T (w', g) \<and> unclaiming own T i (w, g) (w', g)"
proof
  let ?p = "w_prov w" and ?p' = "clear_tentative key (w_prov w)"
  have sel: "pv_claims ?p' = pv_claims ?p" "pv_releasing ?p' = pv_releasing ?p"
    "pv_tentative ?p' = pv_tentative ?p - {key}" "pv_quarantined ?p' = pv_quarantined ?p"
    "pv_lister ?p' = pv_lister ?p" "pv_dyn ?p' = pv_dyn ?p" "pv_statePath ?p' = pv_statePath ?p"
    "pv_pods ?p' = pv_pods ?p"
    by (simp_all add: clear_tentative_def)
  have calm: "calm g ?p ?p'" by (auto simp: calm_def sel nontent_def)
  have "durable ?p' \<subseteq> durable ?p \<union> disk_creds w"
    using disk by (auto simp: durable_def sel row_on_disk_def)
  moreover have "notified_ok g w'"
    unfolding w'_def by (rule notified_prov [OF _ calm]) (use inv in \<open>simp add: table_inv_def\<close>)
  moreover have "held_ids ?p' = held_ids ?p" by (simp add: held_ids_def sel)
  ultimately show "table_inv T (w', g)"
    using inv by (auto simp: w'_def table_inv_def table_ok_def tokens_ok_def sel)
  have "frame ?p ?p' k" if "j \<noteq> i" "own j = Some k" for j k
  proof -
    from that own have "k \<noteq> key" unfolding exclusive_def by blast
    then show ?thesis by (auto simp: frame_def sel split: option.splits)
  qed
  with calm disk show "unclaiming own T i (w, g) (w', g)"
    by (auto simp: w'_def unclaiming_def busy_def others_def env_def lock_rely_def accounted_def
        held_ids_def sel row_on_disk_def)
qed

lemma gor_commit_claim:
  assumes "map_ranges S" "exclusive own" "own i = Some key"
  shows "gor S own T i unclaiming
    (\<lambda>r. case r of None \<Rightarrow> firm key x | Some e \<Rightarrow> tentative_row key x)
    (tentative_row key x) (commit_claim key)"
  (is "gor S own T i unclaiming ?Q ?P _")
  unfolding commit_claim_def
proof (rule rg_bind)
  have st: "stable_under (table_inv T) (env own T i) ?P" "stable_under (table_inv T) (idle own T i) ?P"
    using assms(3) by (auto intro: stables idles)
  show "gor S own T i unclaiming (\<lambda>_ s. ?P s \<and> holding i s) ?P lock_save"
    by (rule gor_idle_unclaiming [OF gor_lock [OF st]])
  have "gor S own T i idle
      (\<lambda>r s. (holding i s \<and> (r = None \<and> True \<longrightarrow> row_on_disk i key s)) \<and> ?P s)
      (\<lambda>s. holding i s \<and> ?P s) (write_state key)"
    by (rule rg_frame [OF gor_write_state st]) (use assms in auto)
  then have written: "gor S own T i unclaiming
      (\<lambda>r s. (holding i s \<and> (r = None \<and> True \<longrightarrow> row_on_disk i key s)) \<and> ?P s)
      (\<lambda>s. ?P s \<and> holding i s) (write_state key)"
    by (subst conj_commute) (rule gor_idle_unclaiming)
  have clear: "gor S own T i unclaiming (\<lambda>_ s. firm key x s \<and> holding i s)
      (\<lambda>s. row_on_disk i key s \<and> ?P s) (modify (clear_tentative key))"
  proof (rule rg_single)
    show "stable_under (table_inv T) (env own T i) (\<lambda>s. row_on_disk i key s \<and> ?P s)"
      using assms(3) by (intro stable_conj stables)
    show "stable_under (table_inv T) (env own T i) (\<lambda>s. firm key x s \<and> holding i s)"
      by (intro stable_conj stables)
    show "\<forall>a. modify (clear_tentative key) \<noteq> Ret a" by simp
    fix w g w' m'
    assume w: "table_inv T (w, g)" "row_on_disk i key (w, g) \<and> ?P (w, g)"
      "astep S i (modify (clear_tentative key)) w = Some (w', m')"
    then have w': "w' = w\<lparr>w_prov := clear_tentative key (w_prov w)\<rparr>" "m' = Ret ()" by simp_all
    have "x \<in> g"
      using w(2) inv_row(1) [OF w(1)] by (auto simp: tentative_row_def)
    then have "firm key x (w', g) \<and> holding i (w', g)"
      using w(2) by (auto simp: w' firm_def holding_def nontent_def clear_tentative_def row_on_disk_def)
    with commit_step [OF w(1) assms(3,2)] w(2) w'
    show "\<exists>a g'. m' = Ret a \<and> table_inv T (w', g') \<and> unclaiming own T i (w, g) (w', g')
        \<and> firm key x (w', g') \<and> holding i (w', g')" by blast
  qed
  have unlock: "gor S own T i unclaiming ?Q (\<lambda>s. ?Q r s \<and> holding i s) (bind unlock_save (\<lambda>_. Ret r))" for r
  proof (rule rg_bind [OF gor_idle_unclaiming [OF gor_unlock]])
    show "stable_under (table_inv T) (env own T i) (?Q r)" "stable_under (table_inv T) (idle own T i) (?Q r)"
      using assms(3) by (auto intro: stables idles split: option.splits)
    then show "gor S own T i unclaiming ?Q (?Q r) (Ret r)" by (auto intro: rg_Ret)
  qed
  show "gor S own T i unclaiming ?Q (\<lambda>s. ?P s \<and> holding i s)
      (bind (write_state key) (\<lambda>r. case r of Some e \<Rightarrow> bind unlock_save (\<lambda>_. Ret (Some e))
         | None \<Rightarrow> bind (modify (clear_tentative key)) (\<lambda>_. bind unlock_save (\<lambda>_. Ret None))))"
  proof (rule rg_bind [OF written])
    fix r
    show "gor S own T i unclaiming ?Q
        (\<lambda>s. (holding i s \<and> (r = None \<and> True \<longrightarrow> row_on_disk i key s)) \<and> ?P s)
        (case r of Some e \<Rightarrow> bind unlock_save (\<lambda>_. Ret (Some e))
         | None \<Rightarrow> bind (modify (clear_tentative key)) (\<lambda>_. bind unlock_save (\<lambda>_. Ret None)))"
    proof (cases r)
      case None
      have "gor S own T i unclaiming ?Q (\<lambda>s. row_on_disk i key s \<and> ?P s)
          (bind (modify (clear_tentative key)) (\<lambda>_. bind unlock_save (\<lambda>_. Ret None)))"
        using unlock [of None] by (intro rg_bind [OF clear]) simp
      then show ?thesis unfolding None option.case
        by (rule rg_pre) (use assms(3) in \<open>auto intro!: stab\<close>)
    next
      case (Some e)
      show ?thesis unfolding Some option.case
        by (rule rg_pre [OF unlock]) (use assms(3) in \<open>auto intro!: stab\<close>)
    qed
  qed
qed

end
