(* ===== verification/Conc_Sections.thy ===== *)
theory Conc_Sections
  imports Credentials
begin

text \<open>
  Every critical section of the provider that can run while others do, except the insertion of a
  fresh claim, only keeps, drops or queues rows (\<^const>\<open>rows_kept\<close>): what it drops has been
  released or is gone from the node, and what it queues was durable.
\<close>

lemmas kept_defs = rows_kept_def static_same_def rows_from_def queue_from_def rows_accounted_def
  queue_accounted_def marks_kept_def

lemma rows_kept_refl: "table_ok p \<Longrightarrow> rows_kept own i A p p"
  by (auto simp: kept_defs table_ok_def)

lemma rows_kept_trans:
  assumes "rows_kept own i A p p'" "rows_kept own i A p' p''"
  shows "rows_kept own i A p p''"
proof -
  have r1: "rows_from p p'" "queue_from p p'" "rows_accounted A p p'" "queue_accounted A p p'"
    "marks_kept own i p p'" "static_same p p'"
    and r2: "rows_from p' p''" "queue_from p' p''" "rows_accounted A p' p''" "queue_accounted A p' p''"
    "marks_kept own i p' p''" "static_same p' p''"
    using assms by (simp_all add: rows_kept_def)
  have "rows_from p p''"
    using r1(1) r2(1) unfolding rows_from_def by metis
  moreover have "queue_from p p''"
    unfolding queue_from_def
  proof
    fix c assume c: "c \<in> set (pv_releasing p'')"
    from assms(2) c show "c \<in> set (pv_releasing p)
        \<or> (\<exists>k c0. pv_claims p k = Some c0 \<and> k \<notin> pv_tentative p \<and> cred c = cred c0)"
    proof (cases rule: queue_fromE)
      case queued
      with r1(2) show ?thesis unfolding queue_from_def by blast
    next
      case (row k c1)
      from rows_fromE [OF assms(1) row(1)] obtain c0 where
        c0: "pv_claims p k = Some c0" "cred c1 = cred c0" by metis
      have "k \<notin> pv_tentative p"
        using r1(5) row(1,2) unfolding marks_kept_def by force
      with c0 row(3) show ?thesis by metis
    qed
  qed
  moreover have "rows_accounted A p p''"
    unfolding rows_accounted_def
  proof (intro allI impI)
    fix k c assume c: "pv_claims p k = Some c" "pv_claims p'' k = None"
    show "cl_id c \<in> cl_id ` set (pv_releasing p'') \<union> A"
    proof (cases "pv_claims p' k")
      case None
      with c r1(3) have "cl_id c \<in> cl_id ` set (pv_releasing p') \<union> A"
        by (simp add: rows_accounted_def)
      then consider "cl_id c \<in> A" | c1 where "c1 \<in> set (pv_releasing p')" "cl_id c1 = cl_id c"
        by auto
      then show ?thesis
      proof cases
        case 2
        from r2(4) 2(1) have "c1 \<in> set (pv_releasing p'') \<or> cl_id c1 \<in> A"
          unfolding queue_accounted_def by blast
        with 2(2) show ?thesis by (auto intro: rev_image_eqI)
      qed simp
    next
      case (Some c')
      from rows_fromE [OF assms(1) Some] c(1) have "cl_id c' = cl_id c" by (metis option.inject)
      moreover from r2(3) c(2) Some have "cl_id c' \<in> cl_id ` set (pv_releasing p'') \<union> A"
        by (simp add: rows_accounted_def)
      ultimately show ?thesis by simp
    qed
  qed
  moreover have "queue_accounted A p p''"
    using r1(4) r2(4) unfolding queue_accounted_def by blast
  moreover have "pv_claims p'' k = None" if "pv_claims p' k = None" for k
  proof (cases "pv_claims p'' k")
    case (Some c)
    show ?thesis by (rule rows_fromE [OF assms(2) Some]) (simp add: that)
  qed
  then have "marks_kept own i p p''"
    using r1(5) r2(5) unfolding marks_kept_def by - (intro conjI; (simp; fail | blast))
  moreover have "static_same p p''" using r1(6) r2(6) by (simp add: static_same_def)
  ultimately show ?thesis by (simp add: rows_kept_def)
qed

text \<open>Sections that touch neither the rows nor their marks.\<close>

lemma rows_kept_aside:
  assumes "table_ok p" "static_same p p'" "pv_claims p' = pv_claims p" "pv_releasing p' = pv_releasing p"
    and "pv_tentative p' = pv_tentative p" "pv_quarantined p' = pv_quarantined p"
    and "\<And>k. own i \<noteq> Some k \<Longrightarrow> pv_pods p' k = pv_pods p k"
  shows "rows_kept own i A p p'"
  using assms unfolding kept_defs table_ok_def by auto

text \<open>Sections that change one row and keep its credential.\<close>

lemma rows_kept_update:
  assumes "table_ok p" "pv_claims p key = Some c" "cred c' = cred c"
    and "static_same p p'" "pv_claims p' = (pv_claims p)(key \<mapsto> c')" "pv_releasing p' = pv_releasing p"
    and "pv_tentative p' = pv_tentative p" "pv_quarantined p' \<subseteq> pv_quarantined p"
    and "\<And>k. own i \<noteq> Some k \<Longrightarrow> pv_pods p' k = pv_pods p k"
  shows "rows_kept own i A p p'"
  using assms unfolding kept_defs table_ok_def by (auto split: if_splits)

text \<open>Sections that remove one row.\<close>

lemma rows_kept_remove:
  assumes "table_ok p" "pv_claims p key = Some c" "static_same p p'"
    and "pv_claims p' = (pv_claims p)(key := None)"
    and "pv_tentative p' = pv_tentative p - {key}" "pv_quarantined p' = pv_quarantined p - {key}"
    and "key \<in> pv_tentative p \<Longrightarrow> own i = Some key \<and> pv_releasing p' = pv_releasing p"
    and "pv_releasing p' = pv_releasing p \<and> cl_id c \<in> A
         \<or> (\<exists>c'. pv_releasing p' = pv_releasing p @ [c'] \<and> cred c' = cred c)"
    and "\<And>k. own i \<noteq> Some k \<Longrightarrow> pv_pods p' k = pv_pods p k"
  shows "rows_kept own i A p p'"
proof -
  have "rows_from p p'" using assms(4) by (auto simp: rows_from_def split: if_splits)
  moreover have "queue_from p p'"
    using assms(2,7,8) unfolding queue_from_def by fastforce
  moreover have "rows_accounted A p p'"
    using assms(2,4,8) by (auto simp: rows_accounted_def cred_def split: if_splits)
  moreover have "queue_accounted A p p'" using assms(8) by (auto simp: queue_accounted_def)
  moreover have "marks_kept own i p p'"
    using assms(1,4-7,9) by (auto simp: marks_kept_def table_ok_def)
  ultimately show ?thesis using assms(3) by (simp add: rows_kept_def)
qed

lemma rows_kept_drop_claim:
  assumes "table_ok p" "nontent p key x" "key \<notin> pv_quarantined p" "x \<in> A"
  shows "rows_kept own i A p (drop_claim key x p)"
proof (cases "\<exists>c. pv_claims p key = Some c \<and> cl_id c = x")
  case True
  then obtain c where c: "pv_claims p key = Some c" "cl_id c = x" by blast
  with assms(2) have "key \<notin> pv_tentative p" by (simp add: nontent_def)
  with c assms show ?thesis
    by (intro rows_kept_remove [OF assms(1) c(1)]) (auto simp: drop_claim_def static_same_def)
next
  case False
  then have "drop_claim key x p = p" by (auto simp: drop_claim_def split: option.splits)
  with assms(1) show ?thesis by (simp add: rows_kept_refl)
qed

lemma rows_kept_refresh_deadline:
  assumes "table_ok p"
  shows "rows_kept own i A p (refresh_deadline key x d p)"
proof (cases "\<exists>c. pv_claims p key = Some c \<and> cl_id c = x")
  case True
  then obtain c where c: "pv_claims p key = Some c" "cl_id c = x" by blast
  then show ?thesis
    by (intro rows_kept_update [OF assms c(1), of "c\<lparr>cl_deadline := d\<rparr>"])
      (auto simp: refresh_deadline_def static_same_def cred_def)
next
  case False
  then have "refresh_deadline key x d p = p" by (auto simp: refresh_deadline_def split: option.splits)
  with assms show ?thesis by (simp add: rows_kept_refl)
qed

lemma rows_kept_verify_row:
  assumes "table_ok p" "\<And>x. before key = Some x \<Longrightarrow> nontent p key x \<and> (live x = None \<longrightarrow> x \<in> A)"
  shows "rows_kept own i A p (verify_row live before key p)"
proof (cases "\<exists>c. pv_claims p key = Some c \<and> before key = Some (cl_id c)")
  case True
  then obtain c where c: "pv_claims p key = Some c" "before key = Some (cl_id c)" by blast
  with assms(2) have nt: "key \<notin> pv_tentative p" by (auto simp: nontent_def)
  show ?thesis
  proof (cases "live (cl_id c)")
    case None
    with c nt assms(2) [OF c(2)] show ?thesis
      by (intro rows_kept_remove [OF assms(1) c(1)]) (auto simp: verify_row_def static_same_def)
  next
    case (Some d)
    with c show ?thesis
      by (intro rows_kept_update [OF assms(1) c(1),
            of "if cl_deadline c = 0 \<and> d \<noteq> 0 then c\<lparr>cl_deadline := d\<rparr> else c"])
        (auto simp: verify_row_def static_same_def cred_def Let_def)
  qed
next
  case False
  then have "verify_row live before key p = p" by (auto simp: verify_row_def split: option.splits)
  with assms(1) show ?thesis by (simp add: rows_kept_refl)
qed

lemma rows_kept_verify_fold:
  assumes "table_ok p"
    and "\<And>key x. before key = Some x \<Longrightarrow> nontent p key x \<and> (live x = None \<longrightarrow> x \<in> A)"
  shows "rows_kept own i A p (fold (verify_row live before) ks p)"
  using assms
proof (induction ks arbitrary: p)
  case Nil
  then show ?case by (simp add: rows_kept_refl)
next
  case (Cons k ks)
  have r: "rows_kept own i A p (verify_row live before k p)"
    by (rule rows_kept_verify_row [OF Cons.prems(1)]) (use Cons.prems(2) in blast)
  have "rows_kept own i A (verify_row live before k p) (fold (verify_row live before) ks (verify_row live before k p))"
    by (rule Cons.IH) (use rows_kept_table [OF r Cons.prems(1)] rows_kept_nontent [OF r] Cons.prems(2) in blast)+
  with r show ?case by (simp add: rows_kept_trans)
qed

lemma rows_kept_withdraw_claim:
  assumes "table_ok p" "own i = Some key" "x \<in> A"
    and "\<And>c. pv_claims p key = Some c \<Longrightarrow> cl_id c = x"
  shows "rows_kept own i A p (withdraw_claim key x p)"
proof (cases "pv_claims p key")
  case None
  with assms(1) have "key \<notin> pv_tentative p" "key \<notin> pv_quarantined p" by (auto simp: table_ok_def)
  with None have "withdraw_claim key x p = p" by (simp add: withdraw_claim_def)
  with assms(1) show ?thesis by (simp add: rows_kept_refl)
next
  case (Some c)
  with assms show ?thesis
    by (intro rows_kept_remove [OF assms(1) Some]) (auto simp: withdraw_claim_def static_same_def)
qed

lemma rows_kept_adopt:
  assumes "table_ok p" "own i = Some key" "adopt_existing_claim key pd p = (p', r)"
  shows "rows_kept own i A p p'"
proof (cases "\<exists>c. pv_claims p key = Some c \<and> settled p key")
  case True
  then obtain c where c: "pv_claims p key = Some c" "settled p key" by blast
  show ?thesis
  proof (cases "adoptable_by c pd")
    case True
    with c assms show ?thesis
      by (intro rows_kept_update [OF assms(1) c(1), of "rebind c pd"])
        (auto simp: adopt_existing_claim_def static_same_def cred_def rebind_def settled_def)
  next
    case False
    with c assms show ?thesis
      by (intro rows_kept_remove [OF assms(1) c(1)])
        (auto simp: adopt_existing_claim_def static_same_def cred_def settled_def)
  qed
next
  case False
  with assms(3) have "p' = p" by (auto simp: adopt_existing_claim_def split: option.splits if_splits)
  with assms(1) show ?thesis by (simp add: rows_kept_refl)
qed

lemma rows_kept_update_section:
  assumes "table_ok p" "own i = Some key"
  shows "rows_kept own i A p (fst (update_section key pd p))"
  using assms
  by (intro rows_kept_aside [OF assms(1)]) (auto simp: update_section_def static_same_def)

lemma rows_kept_forget_pod:
  assumes "table_ok p" "own i = Some key"
  shows "rows_kept own i A p (forget_pod key p)"
  using assms by (intro rows_kept_aside [OF assms(1)]) (auto simp: forget_pod_def static_same_def)

lemma rows_kept_preserve_row:
  assumes "table_ok p" "own i = Some key"
  shows "rows_kept own i A p (preserve_row key x ow p)"
proof (cases "\<exists>c. pv_claims p key = Some c \<and> cl_id c = x")
  case True
  then obtain c where c: "pv_claims p key = Some c" "cl_id c = x" by blast
  with assms show ?thesis
    by (intro rows_kept_update [OF assms(1) c(1), of "c\<lparr>cl_owner := ow\<rparr>"])
      (auto simp: preserve_row_def static_same_def cred_def)
next
  case False
  then have "preserve_row key x ow p = p\<lparr>pv_pods := (pv_pods p)(key := None)\<rparr>"
    by (auto simp: preserve_row_def Let_def split: option.splits)
  with assms show ?thesis
    by (intro rows_kept_aside [OF assms(1)]) (auto simp: static_same_def)
qed

lemma rows_kept_withdraw_for_release:
  assumes "table_ok p" "nontent p key (cl_id c)" "key \<notin> pv_quarantined p"
    and "\<And>c0. pv_claims p key = Some c0 \<Longrightarrow> cl_id c0 = cl_id c \<Longrightarrow> cl_token c0 = cl_token c"
  shows "rows_kept own i A p (fst (withdraw_for_release key c p))"
proof (cases "\<exists>c0. pv_claims p key = Some c0 \<and> cl_id c0 = cl_id c \<and> pv_pods p key = None")
  case True
  then obtain c0 where c0: "pv_claims p key = Some c0" "cl_id c0 = cl_id c" "pv_pods p key = None"
    by blast
  with assms(2) have "key \<notin> pv_tentative p" by (simp add: nontent_def)
  with c0 assms show ?thesis
    by (intro rows_kept_remove [OF assms(1) c0(1)])
      (auto simp: withdraw_for_release_def static_same_def cred_def)
next
  case False
  then have "fst (withdraw_for_release key c p) = p"
    by (auto simp: withdraw_for_release_def split: option.splits)
  with assms(1) show ?thesis by (simp add: rows_kept_refl)
qed

lemma rows_kept_remove_released:
  assumes "table_ok p" "x \<in> A"
  shows "rows_kept own i A p (remove_released x p)"
  using assms unfolding kept_defs table_ok_def by (auto simp: remove_released_def)

lemma rows_kept_bookkeeping:
  assumes "table_ok p"
  shows "rows_kept own i A p (prune_rechecks m p)" "rows_kept own i A p (delete_recheck key p)"
    "rows_kept own i A p (set_recheck key r p)" "rows_kept own i A p (p\<lparr>pv_orphanVerdicts := v\<rparr>)"
    "rows_kept own i A p (set_notifier p)"
  using assms
  by (auto intro!: rows_kept_aside simp: static_same_def prune_rechecks_def delete_recheck_def
      set_recheck_def set_notifier_def)

end
