(* ===== verification/Conc_Handlers.thy ===== *)
theory Conc_Handlers
  imports Conc_Store Conc_Sections
begin

text \<open>
  The pod handlers as goroutines: CreatePod, UpdatePod and DeletePod of a key, run by the one
  worker that owns the key, keep the invariant of the table whatever the other workers and the
  background loops do, and account for every sandbox they obtain.
\<close>

lemma rg_Ret_post: "stable_under I R (Q a) \<Longrightarrow> rg S i I R G Q (Q a) (Ret a)"
  by (rule rg_Ret) auto

lemma inv_table_ok: "table_inv T (w, g) \<Longrightarrow> table_ok (w_prov w)"
  by (simp add: table_inv_def)

subsection \<open>Verification against the node\<close>

lemma live_deadlines_dom: "dom (live_deadlines l) = ss_id ` set l"
proof -
  have "dom (foldl (\<lambda>live s. live(ss_id s \<mapsto> ss_deadline s)) m l) = dom m \<union> ss_id ` set l" for m
    by (induction l arbitrary: m) auto
  then show ?thesis by (simp add: live_deadlines_def)
qed

lemma verify_row_other: "k \<noteq> key \<Longrightarrow> pv_claims (verify_row live before k p) key = pv_claims p key"
  "pv_quarantined (verify_row live before k p) \<subseteq> pv_quarantined p"
  by (auto simp: verify_row_def Let_def split: option.splits if_splits)

lemma verify_fold_shrinks: "pv_quarantined (fold (verify_row live before) ks p) \<subseteq> pv_quarantined p"
  by (induction ks arbitrary: p) (auto dest: subsetD [OF verify_row_other(2)])

text \<open>The pass lifts the quarantine of every row that still carries the id it snapshotted.\<close>

lemma verify_fold_lifts:
  assumes "before key = Some x" "key \<in> set ks"
    and "key \<in> pv_quarantined p \<Longrightarrow> \<exists>c. pv_claims p key = Some c \<and> cl_id c = x"
  shows "key \<notin> pv_quarantined (fold (verify_row live before) ks p)"
  using assms(2,3)
proof (induction ks arbitrary: p)
  case (Cons k ks)
  show ?case
  proof (cases "k = key")
    case True
    have "key \<notin> pv_quarantined (verify_row live before key p)"
      using Cons.prems(2) assms(1)
      by (cases "key \<in> pv_quarantined p")
        (auto simp: verify_row_def Let_def split: option.splits dest: subsetD [OF verify_row_other(2)])
    with True verify_fold_shrinks show ?thesis by fastforce
  next
    case False
    with Cons.prems have "key \<notin> pv_quarantined (fold (verify_row live before) ks (verify_row live before k p))"
      by (intro Cons.IH) (auto simp: verify_row_other(1) dest: subsetD [OF verify_row_other(2)])
    then show ?thesis by simp
  qed
qed simp

lemma gor_verify:
  assumes "map_ranges S" "exclusive own" "own i = Some key \<or> \<not> b"
  shows "gor S own T i unclaiming (\<lambda>ok s. ok \<and> b \<longrightarrow> verified key s) (\<lambda>_. True)
    verify_claims_against_node"
  (is "gor S own T i unclaiming ?Q _ _")
proof -
  let ?B = "\<lambda>before s. finite (dom before) \<and> (\<forall>k x. before k = Some x \<longrightarrow> firm k x s)
      \<and> (b \<and> before key = None \<longrightarrow> verified key s)
      \<and> (\<forall>x. b \<and> before key = Some x \<longrightarrow> only_id key x s)"
  have stB: "stable_under (table_inv T) (env own T i) (?B before)"
    "stable_under (table_inv T) quietly (?B before)" for before
    using assms(3) by (intro stab quiet_stab; auto)+
  have stQ: "stable_under (table_inv T) (env own T i) (?Q ok)" for ok by (intro stab)
  have lister: "gor S own T i unclaiming (\<lambda>_ _. True) (\<lambda>_. True) (reads pv_lister)"
    by (intro gor_idle_unclaiming gor_reads) auto
  have snap: "gor S own T i unclaiming ?B (\<lambda>_. True) (reads verify_snapshot)"
  proof (intro gor_idle_unclaiming gor_reads stB stable_const)
    fix w g assume inv: "table_inv T (w, g)"
    have "dom (verify_snapshot (w_prov w)) \<subseteq> dom (pv_claims (w_prov w))"
      by (auto simp: verify_snapshot_def split: if_splits)
    then have "finite (dom (verify_snapshot (w_prov w)))"
      using inv_marks(4) [OF inv] finite_subset by blast
    moreover have "firm k x (w, g)" if "verify_snapshot (w_prov w) k = Some x" for k x
      using that inv_row(1) [OF inv] inv_marks(3) [OF inv]
      by (auto simp: firm_def nontent_def verify_snapshot_def split: if_splits)
    ultimately show "?B (verify_snapshot (w_prov w)) (w, g)"
      using inv_marks(2) [OF inv, of key]
      by (auto simp: verified_def only_id_def verify_snapshot_def split: if_splits)
  qed
  have pass: "gor S own T i unclaiming ?Q
      (\<lambda>s. ?B before s \<and> (\<forall>x. x \<in> ran before \<and> x \<notin> ss_id ` set l \<longrightarrow> was_gone T x s) \<and> set ks = dom before)
      (bind (modify (fold (verify_row (live_deadlines l) before) ks)) (\<lambda>_. Ret True))" for before l ks
  proof (rule rg_bind [where Q = "\<lambda>_. ?Q True"])
    show "gor S own T i unclaiming (\<lambda>_. ?Q True)
      (\<lambda>s. ?B before s \<and> (\<forall>x. x \<in> ran before \<and> x \<notin> ss_id ` set l \<longrightarrow> was_gone T x s) \<and> set ks = dom before)
      (modify (fold (verify_row (live_deadlines l) before) ks))"
    proof (rule gor_modify [OF assms(2)])
      show "stable_under (table_inv T) (env own T i) (\<lambda>s. ?B before s
          \<and> (\<forall>x. x \<in> ran before \<and> x \<notin> ss_id ` set l \<longrightarrow> was_gone T x s) \<and> set ks = dom before)"
        by (intro stable_conj [OF stB(1)] stab)
      show "stable_under (table_inv T) (env own T i) (?Q True)" by (rule stQ)
      fix w g
      assume inv: "table_inv T (w, g)" and pre: "?B before (w, g)
          \<and> (\<forall>x. x \<in> ran before \<and> x \<notin> ss_id ` set l \<longrightarrow> was_gone T x (w, g)) \<and> set ks = dom before"
      let ?p' = "fold (verify_row (live_deadlines l) before) ks (w_prov w)"
      let ?A = "released (w_trace w) \<union> gone T (w_trace w)"
      have "live_deadlines l x = None \<longleftrightarrow> x \<notin> ss_id ` set l" for x
        using live_deadlines_dom [of l] by blast
      then have r: "rows_kept own i ?A (w_prov w) ?p'"
        using pre by (intro rows_kept_verify_fold inv_table_ok [OF inv])
          (auto simp: firm_def was_gone_def ran_def)
      have "verified key (w\<lparr>w_prov := ?p'\<rparr>, g)" if b
      proof (cases "before key")
        case None
        with pre that have "key \<notin> pv_quarantined (w_prov w)" by (auto simp: verified_def)
        with verify_fold_shrinks show ?thesis by (fastforce simp: verified_def)
      next
        case (Some x)
        with pre that have "only_id key x (w, g)" "key \<in> set ks" by auto
        then have "key \<notin> pv_quarantined ?p'" using inv_marks(2) [OF inv, of key]
          by (intro verify_fold_lifts [where before = before and key = key, OF Some]) (auto simp: only_id_def)
        then show ?thesis by (simp add: verified_def)
      qed
      with r show "rows_kept own i ?A (w_prov w) ?p' \<and> ?Q True (w\<lparr>w_prov := ?p'\<rparr>, g)" by simp
    qed
  qed (use stQ [of True] in \<open>auto intro: rg_Ret\<close>)
  have listed: "gor S own T i unclaiming ?Q (?B before)
      (bind lister_sandboxes (\<lambda>r. case r of Inl e \<Rightarrow> Ret False
         | Inr l \<Rightarrow> bind (range_keys (dom before)) (\<lambda>ks.
             bind (modify (fold (verify_row (live_deadlines l) before) ks)) (\<lambda>_. Ret True))))" for before
  proof (rule rg_bind [OF gor_idle_unclaiming [OF gor_list [OF stB]]])
    show "ran before \<subseteq> g" if "?B before (w, g)" for w g
      using that by (auto simp: ran_def firm_def)
    fix r :: "err + sandbox_summary list"
    let ?L = "\<lambda>s. ?B before s \<and> (\<forall>l x. r = Inr l \<and> x \<in> ran before \<and> x \<notin> ss_id ` set l \<longrightarrow> was_gone T x s)"
    have stL: "stable_under (table_inv T) (env own T i) ?L" "stable_under (table_inv T) quietly ?L"
      by (intro stable_conj [OF stB(1)] stable_conj [OF stB(2)] stab quiet_stab)+
    show "gor S own T i unclaiming ?Q ?L
        (case r of Inl e \<Rightarrow> Ret False
         | Inr l \<Rightarrow> bind (range_keys (dom before)) (\<lambda>ks.
             bind (modify (fold (verify_row (live_deadlines l) before) ks)) (\<lambda>_. Ret True)))"
    proof (cases r)
      case (Inl e)
      show ?thesis unfolding Inl sum.case unfolding Inl [symmetric] by (rule rg_Ret [OF stL(1)]) simp
    next
      case (Inr l)
      show ?thesis unfolding Inr sum.case unfolding Inr [symmetric]
      proof (rule rg_assume [OF stL(1), where b = "finite (dom before)"], simp)
        assume fin: "finite (dom before)"
        show "gor S own T i unclaiming ?Q ?L (bind (range_keys (dom before)) (\<lambda>ks.
             bind (modify (fold (verify_row (live_deadlines l) before) ks)) (\<lambda>_. Ret True)))"
          by (rule rg_bind [OF gor_idle_unclaiming [OF gor_range [OF stL assms(1) fin]]])
            (rule rg_pre [OF pass], intro stable_conj [OF stL(1)] stable_const, auto simp: Inr)
      qed
    qed
  qed
  have "gor S own T i unclaiming ?Q (?B before)
      (if dom before = {} then Ret True else
       bind lister_sandboxes (\<lambda>r. case r of Inl e \<Rightarrow> Ret False
         | Inr l \<Rightarrow> bind (range_keys (dom before)) (\<lambda>ks.
             bind (modify (fold (verify_row (live_deadlines l) before) ks)) (\<lambda>_. Ret True))))" for before
    using listed [of before] stQ [of True]
    by (cases "dom before = {}") (auto intro!: rg_Ret stable_const)
  then have "gor S own T i unclaiming ?Q (\<lambda>_. True)
      (bind (reads verify_snapshot) (\<lambda>before.
       if dom before = {} then Ret True else
       bind lister_sandboxes (\<lambda>r. case r of Inl e \<Rightarrow> Ret False
         | Inr l \<Rightarrow> bind (range_keys (dom before)) (\<lambda>ks.
             bind (modify (fold (verify_row (live_deadlines l) before) ks)) (\<lambda>_. Ret True)))))"
    by (rule rg_bind [OF snap])
  then show ?thesis unfolding verify_claims_against_node_def
    by (intro rg_bind [OF lister]) (auto intro: rg_Ret)
qed

subsection \<open>Resolving and settling the claim of a key\<close>

lemma gor_resolve:
  assumes "map_ranges S" "exclusive own" "own i = Some key"
  shows "gor S own T i unclaiming (\<lambda>r s. r = None \<longrightarrow> verified key s) (\<lambda>_. True)
    (resolve_unverified_claim key)"
  (is "gor S own T i unclaiming ?Q _ _")
proof -
  have unv: "gor S own T i unclaiming (\<lambda>u s. \<not> u \<longrightarrow> verified key s) (\<lambda>_. True)
      (reads (\<lambda>p. key \<in> pv_quarantined p))"
    by (intro gor_idle_unclaiming gor_reads stab) (auto simp: verified_def)
  have ver: "gor S own T i unclaiming (\<lambda>ok s. ok \<and> True \<longrightarrow> verified key s) (\<lambda>_. True)
      verify_claims_against_node"
    by (rule gor_verify) (use assms in auto)
  have ret: "gor S own T i unclaiming ?Q (\<lambda>s. ok \<and> True \<longrightarrow> verified key s)
      (if ok then Ret None else Ret (Some (ErrUnverified key)))" for ok
    by (cases ok) (auto intro: rg_Ret stab)
  show ?thesis unfolding resolve_unverified_claim_def
    apply (rule rg_bind [OF unv])
    subgoal for u
      using rg_bind [OF ver ret] by (cases u) (auto intro: rg_Ret stab)
    done
qed

lemma gor_drop_claim:
  assumes "exclusive own"
  shows "gor S own T i unclaiming (\<lambda>_. verified key)
    (\<lambda>s. verified key s \<and> firm key x s \<and> was_gone T x s) (modify (drop_claim key x))"
proof (rule gor_modify [OF assms])
  show "stable_under (table_inv T) (env own T i) (\<lambda>s. verified key s \<and> firm key x s \<and> was_gone T x s)"
    by (intro stab)
  fix w g
  assume inv: "table_inv T (w, g)" and pre: "verified key (w, g) \<and> firm key x (w, g) \<and> was_gone T x (w, g)"
  have "rows_kept own i (released (w_trace w) \<union> gone T (w_trace w)) (w_prov w) (drop_claim key x (w_prov w))"
    by (rule rows_kept_drop_claim [OF inv_table_ok [OF inv]])
      (use pre in \<open>auto simp: firm_def verified_def was_gone_def\<close>)
  moreover have "verified key (w\<lparr>w_prov := drop_claim key x (w_prov w)\<rparr>, g)"
    using pre by (auto simp: verified_def drop_claim_def split: option.splits)
  ultimately show "rows_kept own i (released (w_trace w) \<union> gone T (w_trace w)) (w_prov w)
      (drop_claim key x (w_prov w)) \<and> verified key (w\<lparr>w_prov := drop_claim key x (w_prov w)\<rparr>, g)" ..
qed (rule stables)

lemma gor_refresh_deadline:
  assumes "exclusive own" "stable_under (table_inv T) (env own T i) P"
    and "stable_under (table_inv T) (unclaiming own T i) P"
  shows "gor S own T i unclaiming (\<lambda>_. P) P (modify (refresh_deadline key x d))"
proof -
  have "gor S own T i unclaiming (\<lambda>_ _. True) (\<lambda>_. True) (modify (refresh_deadline key x d))"
    by (rule gor_modify [OF assms(1)]) (auto intro: rows_kept_refresh_deadline inv_table_ok)
  from rg_frame [OF this assms(2,3)] show ?thesis by simp
qed

lemma gor_settle:
  assumes "exclusive own" "own i = Some key"
  shows "gor S own T i unclaiming (\<lambda>_. verified key) (verified key) (settle_expired_claim key)"
  (is "gor S own T i unclaiming ?Q _ _")
proof -
  have rd: "gor S own T i unclaiming
      (\<lambda>held s. verified key s \<and> (\<forall>c. held = Some c \<longrightarrow> firm key (cl_id c) s)) (verified key)
      (reads (claim_for key))"
    by (intro gor_idle_unclaiming gor_reads stab)
      (auto simp: claim_for_def settled_def firm_def nontent_def split: if_splits dest: inv_row(1))
  let ?F = "\<lambda>(c :: claim) s. verified key s \<and> firm key (cl_id c) s"
  have st: "stable_under (table_inv T) (env own T i) (?F c)" "stable_under (table_inv T) quietly (?F c)" for c
    by (intro stab quiet_stab)+
  have li: "gor S own T i unclaiming (\<lambda>b s. ?F c s \<and> b) (?F c) (reads pv_lister)" for c
    by (intro gor_idle_unclaiming gor_reads stab) (auto simp: inv_marks)
  have ret: "gor S own T i unclaiming ?Q (verified key) (Ret a)" for a
    by (rule rg_Ret_post) (rule stables)
  have retF: "gor S own T i unclaiming ?Q (?F c) (Ret a)" for a c
    by (rule rg_pre [OF ret st(1)]) simp
  let ?L = "\<lambda>c (r :: err + sandbox_summary list) s. ?F c s \<and> (\<forall>l x. r = Inr l \<and> x \<in> {cl_id c} \<and> x \<notin> ss_id ` set l \<longrightarrow> was_gone T x s)"
  have ls: "gor S own T i unclaiming (?L c) (?F c) lister_sandboxes" for c
    by (rule gor_idle_unclaiming [OF gor_list [OF st]]) (auto simp: firm_def)
  have stL: "stable_under (table_inv T) (env own T i) (?L c r)" for c r
    by (intro stab)
  have upd: "gor S own T i unclaiming ?Q (?L c r)
      (case r of Inl e \<Rightarrow> Ret (Some (ErrExpiredUnlistable key (cl_id c) e))
       | Inr listed \<Rightarrow>
           (case List.find (\<lambda>row. ss_id row = cl_id c) listed of
              Some row \<Rightarrow> bind (modify (refresh_deadline key (cl_id c) (ss_deadline row))) (\<lambda>_. Ret None)
            | None \<Rightarrow> bind (modify (drop_claim key (cl_id c))) (\<lambda>_. Ret None)))" for c r
  proof (cases r)
    case (Inl e)
    show ?thesis unfolding Inl sum.case unfolding Inl [symmetric] by (rule rg_pre [OF ret], rule stL, simp)
  next
    case (Inr l)
    show ?thesis
    proof (cases "List.find (\<lambda>row. ss_id row = cl_id c) l")
      case None
      then have absent: "cl_id c \<notin> ss_id ` set l" by (auto simp: find_None_iff)
      show ?thesis unfolding Inr sum.case None option.case unfolding Inr [symmetric]
        by (rule rg_pre [OF rg_bind [OF gor_drop_claim [OF assms(1)] ret]], rule stL) (use absent Inr in auto)
    next
      case (Some row)
      show ?thesis unfolding Inr sum.case Some option.case unfolding Inr [symmetric]
        by (rule rg_pre [OF rg_bind [OF gor_refresh_deadline ret]], rule assms(1))
          (rule stables unclaims stL | simp)+
    qed
  qed
  show ?thesis unfolding settle_expired_claim_def
    apply (rule rg_bind [OF rd])
    subgoal for held
      apply (cases held; simp only: option.case)
       apply (rule rg_pre [OF ret]; (intro stab)?; simp)
      subgoal for c
        apply (rule rg_pre [OF rg_bind [OF gor_idle_unclaiming [OF gor_now [OF st(1,2) [of c]]]]];
            (intro stab)?; (simp; fail)?)
        subgoal for t
          apply (cases "\<not> claim_expired c t"; simp only: if_True if_False not_True_eq_False simp_thms)
           apply (rule retF)
          apply (rule rg_bind [OF li])
          subgoal for b using rg_bind [OF ls upd, of c] rg_False by (cases b) auto
          done
        done
      done
    done
qed

subsection \<open>Adoption, withdrawal and the Running push\<close>

lemma gor_withdraw:
  assumes "exclusive own" "own i = Some key"
    and "stable_under (table_inv T) (env own T i) P" "\<And>s. P s \<Longrightarrow> only_id key x s"
  shows "gor S own T i unclaiming (\<lambda>_. vacant key) (\<lambda>s. P s \<and> was_released x s)
    (modify (withdraw_claim key x))"
proof (rule gor_modify [OF assms(1)])
  show "stable_under (table_inv T) (env own T i) (\<lambda>s. P s \<and> was_released x s)"
    by (intro stable_conj assms(3) stables)
  show "stable_under (table_inv T) (env own T i) (vacant key)" using assms(2) by (intro stab)
  fix w g
  assume inv: "table_inv T (w, g)" and "P (w, g) \<and> was_released x (w, g)"
  with assms(4) have pre: "only_id key x (w, g)" "was_released x (w, g)" by auto
  have "rows_kept own i (released (w_trace w) \<union> gone T (w_trace w)) (w_prov w) (withdraw_claim key x (w_prov w))"
    by (rule rows_kept_withdraw_claim [where own = own and i = i, OF inv_table_ok [OF inv] assms(2)])
      (use pre in \<open>auto simp: only_id_def was_released_def\<close>)
  moreover have "vacant key (w\<lparr>w_prov := withdraw_claim key x (w_prov w)\<rparr>, g)"
    using pre by (auto simp: only_id_def vacant_def withdraw_claim_def Let_def split: option.splits)
  ultimately show "rows_kept own i (released (w_trace w) \<union> gone T (w_trace w)) (w_prov w)
      (withdraw_claim key x (w_prov w)) \<and> vacant key (w\<lparr>w_prov := withdraw_claim key x (w_prov w)\<rparr>, g)" ..
qed

lemma gor_adopt:
  assumes "exclusive own" "own i = Some key"
  shows "gor S own T i unclaiming (\<lambda>r. case r of None \<Rightarrow> unsettled key | Some c \<Rightarrow> firm key (cl_id c))
    (verified key) (locked (adopt_existing_claim key pd))"
  (is "gor S own T i unclaiming ?Q _ _")
proof (rule gor_locked [OF assms(1)])
  show "stable_under (table_inv T) (env own T i) (verified key)" by (intro stab)
  show "stable_under (table_inv T) (env own T i) (?Q r)" for r
    using assms(2) by (cases r) (auto intro: stab)
  fix w g p' r
  assume inv: "table_inv T (w, g)" and pre: "verified key (w, g)"
    and st: "adopt_existing_claim key pd (w_prov w) = (p', r)"
  have "rows_kept own i (released (w_trace w) \<union> gone T (w_trace w)) (w_prov w) p'"
    by (rule rows_kept_adopt [where own = own and i = i, OF inv_table_ok [OF inv] assms(2) st])
  moreover have "?Q r (w\<lparr>w_prov := p'\<rparr>, g)"
    using pre st inv_row(1) [OF inv, of key]
    by (auto simp: adopt_existing_claim_def unsettled_def firm_def verified_def nontent_def
        settled_def rebind_def split: option.splits if_splits)
  ultimately show "rows_kept own i (released (w_trace w) \<union> gone T (w_trace w)) (w_prov w) p'
      \<and> ?Q r (w\<lparr>w_prov := p'\<rparr>, g)" ..
qed

lemma gor_notify_running:
  assumes "key = pod_key (pod_namespace pd) (pod_name pd)" "pod_annotations pd ann_claim_id = Some x"
  shows "gor S own T i idle (\<lambda>_ _. True) (firm key x) (notify pd)"
proof -
  have rd: "gor S own T i idle (\<lambda>_. firm key x) (firm key x) (reads pv_notifier)"
    by (intro gor_reads stab)
  have call: "gor S own T i idle (\<lambda>_ _. True) (firm key x) (call_notifier pd)"
  proof (rule rg_single)
    show "stable_under (table_inv T) (env own T i) (firm key x)" by (rule stables)
    fix w g w' m'
    assume w: "table_inv T (w, g)" "firm key x (w, g)" "astep S i (call_notifier pd) w = Some (w', m')"
    then have w': "w' = log_event (EvNotify pd) w" "m' = Ret ()" by simp_all
    have "table_inv T (w', g) \<and> busy own T i (w, g) (w', g)"
      unfolding w' busy_def
      by (rule running_step [OF w(1) _ assms(2)]) (use w(2) assms(1) in \<open>auto simp: firm_def\<close>)
    then show "\<exists>a g'. m' = Ret a \<and> table_inv T (w', g') \<and> idle own T i (w, g) (w', g') \<and> True"
      by (auto simp: w' idle_def unclaiming_def obtained_def fun_eq_iff)
  qed simp_all
  show ?thesis unfolding notify_def
    apply (rule rg_bind [OF rd])
    subgoal for n using call by (cases n) (auto intro: rg_Ret stables)
    done
qed

lemma gor_push_running:
  assumes "key = pod_key (pod_namespace pd) (pod_name pd)"
  shows "gor S own T i idle (\<lambda>_ _. True) (firm key (cl_id c)) (push_running pd c)"
  unfolding push_running_def Let_def
  by (rule gor_notify_running) (auto simp: assms pod_with_claim_def)

lemma gor_clear_stranded:
  assumes "exclusive own" "own i = Some key"
  shows "gor S own T i unclaiming (\<lambda>r s. r = None \<longrightarrow> vacant key s) (unsettled key)
    (clear_stranded_claim key)"
  (is "gor S own T i unclaiming ?Q _ _")
proof -
  let ?O = "\<lambda>c s. only_id key (cl_id c) s \<and> has_token T (cl_id c) (cl_token c) s"
  let ?R = "\<lambda>(held :: claim option, pending) s.
     (held = None \<longrightarrow> vacant key s) \<and> (\<forall>c. held = Some c \<longrightarrow> pending \<and> ?O c s)"
  have stR: "stable_under (table_inv T) (env own T i) (?R hp)" for hp
    using assms(2) by (cases hp) (auto intro!: stab)
  have rd: "gor S own T i unclaiming ?R (unsettled key)
      (reads (\<lambda>p. (pv_claims p key, key \<in> pv_tentative p)))"
    using assms(2)
    by (intro gor_idle_unclaiming gor_reads stR stab)
      (auto simp: unsettled_def vacant_def only_id_def has_token_def inv_row(2))
  have ret: "gor S own T i unclaiming ?Q (vacant key) (Ret None)"
    using assms(2) by (auto intro: rg_Ret stab)
  have st: "stable_under (table_inv T) (env own T i) (?O c)" "stable_under (table_inv T) quietly (?O c)" for c
    using assms(2) by (auto intro!: stab quiet_stab)
  have rel: "gor S own T i unclaiming ?Q (?O c)
      (bind (release_detached c) (\<lambda>r. case r of Some e \<Rightarrow> Ret (Some (ErrStranded key (cl_id c) e))
         | None \<Rightarrow> bind (modify (withdraw_claim key (cl_id c))) (\<lambda>_. Ret None)))" for c
    unfolding release_detached_def
    apply (rule rg_bind [OF gor_idle_unclaiming [OF gor_release [OF st]]])
     apply simp
    subgoal for r
      using rg_bind [OF gor_withdraw [OF assms st(1)] ret] assms(2)
      by (cases r) (auto intro!: rg_Ret stab)
    done
  show ?thesis unfolding clear_stranded_claim_def
    apply (rule rg_bind [OF rd])
    subgoal for hp
      apply (cases hp)
      subgoal for held pending
        using ret rel by (cases held; cases pending) (auto intro: rg_False)
      done
    done
qed

subsection \<open>A fresh claim\<close>

lemma gor_claim:
  assumes "fresh_ids S T" "exclusive own" "own i = Some key" "sp_claimRef sp = key"
  shows "gor S own T i busy
    (\<lambda>r s. vacant key s \<and> (case r of Inl e \<Rightarrow> balanced T key X s
       | Inr res \<Rightarrow> balanced T key (insert (cr_id res) X) s \<and> in_flight key (cr_id res) s
                    \<and> has_token T (cr_id res) (cr_token res) s))
    (\<lambda>s. vacant key s \<and> balanced T key X s) (client_claim sp)"
  (is "gor S own T i busy ?Q ?P _")
proof (rule rg_single)
  show "stable_under (table_inv T) (env own T i) ?P" using assms(3) by (intro stab)
  show "stable_under (table_inv T) (env own T i) (?Q r)" for r
    using assms(3) by (cases r) (auto intro!: stab)
  show "\<forall>a. client_claim sp \<noteq> Ret a" by simp
  fix w g w' m'
  assume w: "table_inv T (w, g)" "?P (w, g)" "astep S i (client_claim sp) w = Some (w', m')"
  let ?r = "svc_claim S (w_trace w) sp"
  from w(3) have w': "w' = log_event (EvClaim sp ?r) w" "m' = Ret ?r" by simp_all
  have acc: "accounted T w \<subseteq> accounted T w'" unfolding w' by (rule accounted_log)
  show "\<exists>a g'. m' = Ret a \<and> table_inv T (w', g') \<and> busy own T i (w, g) (w', g') \<and> ?Q a (w', g')"
  proof (cases ?r)
    case (Inl e)
    then have q: "quiet_event (EvClaim sp ?r)" and al: "allowed T (w_trace w) (EvClaim sp ?r)"
      by (simp_all add: allowed_simps)
    have "?Q ?r (w', g)"
      using w(2) acc by (auto simp: Inl w' vacant_def balanced_def quiet_obtained [OF q, unfolded Inl])
    with quiet_step [OF w(1) al, of own i] show ?thesis by (auto simp: w' busy_def)
  next
    case (Inr res)
    have "known T (w_trace w) (cr_id res) = None" using assms(1) Inr by (auto simp: fresh_ids_def)
    then have "cr_id res \<notin> g" using w(1) by (auto simp: table_inv_def)
    then have "?Q ?r (w', g)"
      using w(2) acc assms(4)
      by (auto simp: Inr w' vacant_def balanced_def in_flight_def has_token_def known_snoc learn_def
          obtained_def)
    moreover have "table_inv T (w', g) \<and> busy own T i (w, g) (w', g)"
      unfolding w' busy_def Inr
      by (rule claim_step [OF w(1) assms(1,2) _ Inr]) (simp add: assms(3,4))
    ultimately show ?thesis using w' by blast
  qed
qed

lemma insert_step:
  assumes inv: "table_inv T (w, g)" and own: "exclusive own" "own i = Some key"
    and pre: "vacant key (w, g)" "in_flight key (cl_id c) (w, g)" "has_token T (cl_id c) (cl_token c) (w, g)"
    and w'_def: "w' = w\<lparr>w_prov := insert_tentative key pd c (w_prov w)\<rparr>"
    and g'_def: "g' = insert (cl_id c) g"
  shows "table_inv T (w', g') \<and> unclaiming own T i (w, g) (w', g')"
proof
  let ?p = "w_prov w" and ?p' = "insert_tentative key pd c (w_prov w)"
  have sel: "pv_claims ?p' = (pv_claims ?p)(key \<mapsto> c)" "pv_releasing ?p' = pv_releasing ?p"
    "pv_tentative ?p' = insert key (pv_tentative ?p)" "pv_quarantined ?p' = pv_quarantined ?p"
    "pv_lister ?p' = pv_lister ?p" "pv_dyn ?p' = pv_dyn ?p" "pv_statePath ?p' = pv_statePath ?p"
    "\<And>k. k \<noteq> key \<Longrightarrow> pv_pods ?p' k = pv_pods ?p k"
    by (simp_all add: insert_tentative_def)
  have none: "pv_claims ?p key = None" using pre(1) by (simp add: vacant_def)
  have new: "cl_id c \<notin> g" and got: "cl_id c \<in> obtained (w_trace w) key"
    using pre(2) by (auto simp: in_flight_def)
  have held: "held_ids ?p' = insert (cl_id c) (held_ids ?p)"
    using none by (simp add: held_ids_def sel)
  have dur: "durable ?p' \<subseteq> durable ?p" by (auto simp: durable_def sel split: if_splits)
  have calm: "calm g ?p ?p'" using new none by (auto simp: calm_def sel nontent_def)
  have "notified_ok g w'" unfolding w'_def
    by (rule notified_prov [OF _ calm]) (use inv in \<open>simp add: table_inv_def\<close>)
  then have n: "notified_ok g' w'" by (auto simp: notified_ok_def g'_def)
  have "key \<notin> pv_quarantined ?p" using inv_marks(2) [OF inv, of key] none by auto
  then have "table_ok ?p'" using inv_table_ok [OF inv] by (auto simp: table_ok_def sel)
  moreover have "tokens_ok (known T (w_trace w)) ?p'"
    using inv pre(3) by (auto simp: table_inv_def tokens_ok_def sel has_token_def)
  ultimately show "table_inv T (w', g')"
    using inv n dur held pre(3)
    by (auto simp: w'_def g'_def table_inv_def sel has_token_def)
  have "frame ?p ?p' k" if "k \<noteq> key" for k
    using that by (auto simp: frame_def sel split: option.splits)
  moreover have "x \<noteq> cl_id c" if "x \<in> obtained (w_trace w) k" "k \<noteq> key" for x k
    using that got inv by (auto simp: table_inv_def)
  moreover have "own j = Some k \<Longrightarrow> j \<noteq> i \<Longrightarrow> k \<noteq> key" for j k
    using own by (auto simp: exclusive_def)
  ultimately show "unclaiming own T i (w, g) (w', g')"
    using calm dur held
    by (auto simp: w'_def g'_def unclaiming_def busy_def others_def env_def lock_rely_def accounted_def)
qed

lemma gor_insert:
  assumes "exclusive own" "own i = Some key"
  shows "gor S own T i unclaiming (\<lambda>_ s. tentative_row key (cl_id c) s \<and> balanced T key X s)
    (\<lambda>s. vacant key s \<and> balanced T key (insert (cl_id c) X) s \<and> in_flight key (cl_id c) s
       \<and> has_token T (cl_id c) (cl_token c) s)
    (modify (insert_tentative key pd c))"
  (is "gor S own T i unclaiming ?Q ?P _")
proof (rule rg_single)
  show "stable_under (table_inv T) (env own T i) ?P" using assms(2) by (intro stab)
  show "stable_under (table_inv T) (env own T i) (?Q a)" for a using assms(2) by (intro stab)
  show "\<forall>a. modify (insert_tentative key pd c) \<noteq> Ret a" by simp
  fix w g w' m'
  assume w: "table_inv T (w, g)" "?P (w, g)" "astep S i (modify (insert_tentative key pd c)) w = Some (w', m')"
  then have w': "w' = w\<lparr>w_prov := insert_tentative key pd c (w_prov w)\<rparr>" "m' = Ret ()" by simp_all
  have "table_inv T (w', insert (cl_id c) g) \<and> unclaiming own T i (w, g) (w', insert (cl_id c) g)"
    by (rule insert_step [OF w(1) assms _ _ _ w'(1) refl]) (use w(2) in auto)
  moreover have "pv_claims (w_prov w) key = None" using w(2) by (simp add: vacant_def)
  then have "held_ids (w_prov w') = insert (cl_id c) (held_ids (w_prov w))"
    by (simp add: w' held_ids_def insert_tentative_def)
  then have "?Q () (w', insert (cl_id c) g)"
    using w(2)
    by (auto simp: w' tentative_row_def balanced_def accounted_def insert_tentative_def)
  ultimately show "\<exists>a g'. m' = Ret a \<and> table_inv T (w', g') \<and> unclaiming own T i (w, g) (w', g') \<and> ?Q a (w', g')"
    using w' by blast
qed

lemma gor_undo:
  assumes "exclusive own" "own i = Some key"
  shows "gor S own T i unclaiming (\<lambda>_ _. True)
    (\<lambda>s. tentative_row key (cl_id c) s \<and> has_token T (cl_id c) (cl_token c) s) (undo_unpersisted_claim key c e)"
    (is "gor S own T i unclaiming _ ?P _")
  unfolding undo_unpersisted_claim_def release_detached_def
proof (rule rg_bind [OF gor_idle_unclaiming [OF gor_release]])
  show "stable_under (table_inv T) (env own T i) ?P" "stable_under (table_inv T) quietly ?P"
    using assms(2) by (auto intro!: stab quiet_stab)
  show "?P s \<Longrightarrow> has_token T (cl_id c) (cl_token c) s" for s by simp
  fix r :: "err option"
  have ret: "gor S own T i unclaiming (\<lambda>_ _. True) (vacant key) (Ret a)" for a :: "pod_error option"
    using assms(2) by (auto intro: rg_Ret stab)
  have "gor S own T i unclaiming (\<lambda>_ _. True)
      (\<lambda>s. ?P s \<and> was_released (cl_id c) s)
      (bind (modify (withdraw_claim key (cl_id c))) (\<lambda>_. Ret (Some (ErrPersist key e))))"
    by (rule rg_bind [OF gor_withdraw [OF assms] ret])
      (use assms(2) in \<open>auto simp: tentative_row_def only_id_def intro!: stab [unfolded tentative_row_def]\<close>)
  then show "gor S own T i unclaiming (\<lambda>_ _. True)
      (\<lambda>s. ?P s \<and> (r = None \<longrightarrow> was_released (cl_id c) s))
      (case r of Some e' \<Rightarrow> Ret (Some (ErrPersistAndRelease key e (cl_id c) e'))
       | None \<Rightarrow> bind (modify (withdraw_claim key (cl_id c))) (\<lambda>_. Ret (Some (ErrPersist key e))))"
    using assms(2) by (cases r) (auto intro!: rg_Ret stab)
qed

lemma claim_request_ref:
  "claim_request E pd = Inr sp \<Longrightarrow> sp_claimRef sp = pod_key (pod_namespace pd) (pod_name pd)"
  by (auto simp: claim_request_def Let_def split: sum.splits if_splits)

lemma gor_claim_fresh:
  assumes "map_ranges S" "fresh_ids S T" "exclusive own" "own i = Some key"
    and "key = pod_key (pod_namespace pd) (pod_name pd)"
  shows "gor S own T i busy (\<lambda>_. balanced T key X) (\<lambda>s. vacant key s \<and> balanced T key X s)
    (claim_fresh E key pd)"
  (is "gor S own T i busy ?Q _ _")
proof -
  let ?B = "balanced T key X"
  have stB: "stable_under (table_inv T) (env own T i) ?B" "stable_under (table_inv T) (unclaiming own T i) ?B"
    using assms(4) by (auto intro: stables unclaims)
  have ret: "gor S own T i busy ?Q (\<lambda>s. P s \<and> ?B s) (Ret a)"
    if "stable_under (table_inv T) (env own T i) P" for P a
    by (rule rg_Ret) (auto intro: stable_conj [OF that stB(1)])
  have fr: "gor S own T i busy (\<lambda>a s. Q a s \<and> ?B s) (\<lambda>s. P s \<and> ?B s) m"
    if "gor S own T i unclaiming Q P m" for Q P and m :: "'z prog"
    by (rule gor_unclaiming_busy [OF rg_frame [OF that stB]])
  let ?K = "\<lambda>c s. has_token T (cl_id c) (cl_token c) s \<and> ?B s"
  have stK: "stable_under (table_inv T) (env own T i) (?K c)" "stable_under (table_inv T) (unclaiming own T i) (?K c)"
    for c using stB by (auto intro!: stab unclaim_stab)
  have frK: "gor S own T i busy (\<lambda>a s. Q a s \<and> ?K c s) (\<lambda>s. P s \<and> ?K c s) m"
    if "gor S own T i unclaiming Q P m" for Q P c and m :: "'z prog"
    by (rule gor_unclaiming_busy [OF rg_frame [OF that stK]])
  have push: "gor S own T i busy ?Q (\<lambda>s. firm key (cl_id c) s \<and> ?K c s)
      (bind (push_running pd c) (\<lambda>_. Ret None))" for c
    by (rule rg_bind [OF frK [OF gor_idle_unclaiming [OF gor_push_running [OF assms(5)]]]])
      (auto intro: rg_Ret stK)
  have undo: "gor S own T i busy ?Q (\<lambda>s. tentative_row key (cl_id c) s \<and> ?K c s)
      (undo_unpersisted_claim key c e)" for c e
    by (rule rg_post [OF rg_pre [OF fr [OF gor_undo [OF assms(3,4)]]]])
      (use assms(4) stK in \<open>auto intro!: stab\<close>)
  have commit: "gor S own T i busy ?Q (\<lambda>s. tentative_row key (cl_id c) s \<and> ?K c s)
      (bind (commit_claim key) (\<lambda>w. case w of Some e \<Rightarrow> undo_unpersisted_claim key c e
         | None \<Rightarrow> bind (push_running pd c) (\<lambda>_. Ret None)))" for c
    apply (rule rg_bind [OF frK [OF gor_commit_claim [where x = "cl_id c", OF assms(1,3,4)]]])
    subgoal for r using push undo by (cases r) auto
    done
  let ?C = "\<lambda>res s. vacant key s \<and> balanced T key (insert (cr_id res) X) s \<and> in_flight key (cr_id res) s
      \<and> has_token T (cr_id res) (cr_token res) s"
  have stC: "stable_under (table_inv T) (env own T i) (?C res)" "stable_under (table_inv T) quietly (?C res)"
    for res using assms(4) by (auto intro!: stab quiet_stab)
  have tok: "stable_under (table_inv T) (env own T i) (has_token T x t)"
    "stable_under (table_inv T) (unclaiming own T i) (has_token T x t)" for x t
    by (intro stables unclaims)+
  have ins: "gor S own T i busy
      (\<lambda>_ s. tentative_row key (cr_id res) s \<and> has_token T (cr_id res) (cr_token res) s \<and> ?B s) (?C res)
      (modify (insert_tentative key pd (new_claim pd res t)))" for res t
    by (rule rg_post [OF rg_pre [OF gor_unclaiming_busy [OF rg_frame [OF gor_insert [OF assms(3,4),
              of S T "new_claim pd res t" X pd] tok]] stC(1)]])
      (auto simp: new_claim_def)
  have got: "gor S own T i busy ?Q (?C res)
      (bind now (\<lambda>t. let c = new_claim pd res t in
       bind (modify (insert_tentative key pd c)) (\<lambda>_.
       bind (commit_claim key) (\<lambda>w. case w of Some e \<Rightarrow> undo_unpersisted_claim key c e
         | None \<Rightarrow> bind (push_running pd c) (\<lambda>_. Ret None)))))" for res
    apply (rule rg_bind [OF gor_unclaiming_busy [OF gor_idle_unclaiming [OF gor_now [OF stC]]]])
    subgoal for t
      using rg_bind [OF ins [of res t] commit [of "new_claim pd res t", simplified new_claim_def claim.simps]]
      by (simp add: Let_def new_claim_def)
    done
  have asked: "gor S own T i busy ?Q (\<lambda>s. vacant key s \<and> ?B s)
      (bind (client_claim sp) (\<lambda>r. case r of Inl e \<Rightarrow> Ret (Some (ErrClaim key (sp_template sp) e))
         | Inr res \<Rightarrow> bind now (\<lambda>t. let c = new_claim pd res t in
             bind (modify (insert_tentative key pd c)) (\<lambda>_.
             bind (commit_claim key) (\<lambda>w. case w of Some e \<Rightarrow> undo_unpersisted_claim key c e
               | None \<Rightarrow> bind (push_running pd c) (\<lambda>_. Ret None))))))"
    if "claim_request E pd = Inr sp" for sp
    apply (rule rg_bind [OF gor_claim [OF assms(2,3,4)]])
     apply (simp add: assms(5) claim_request_ref [OF that])
    subgoal for r
      using got ret [OF stable_vacant [where own = own and j = i, OF assms(4)]] by (cases r) auto
    done
  show ?thesis unfolding claim_fresh_def
    using asked ret [OF stable_vacant [where own = own and j = i, OF assms(4)]] by (cases "claim_request E pd") auto
qed

lemma gor_create_pod:
  assumes "map_ranges S" "fresh_ids S T" "exclusive own" "own i = Some key"
    and "key = pod_key (pod_namespace pd) (pod_name pd)"
  shows "gor S own T i busy (\<lambda>_. balanced T key X) (balanced T key X) (create_pod E pd)"
  (is "gor S own T i busy ?Q ?B _")
proof -
  have stB: "stable_under (table_inv T) (env own T i) ?B" "stable_under (table_inv T) (unclaiming own T i) ?B"
    using assms(4) by (auto intro: stables unclaims)
  have ret: "gor S own T i busy ?Q (\<lambda>s. P s \<and> ?B s) (Ret a)"
    if "stable_under (table_inv T) (env own T i) P" for P a
    by (rule rg_Ret) (auto intro: stable_conj [OF that stB(1)])
  have fr: "gor S own T i busy (\<lambda>a s. Q a s \<and> ?B s) (\<lambda>s. P s \<and> ?B s) m"
    if "gor S own T i unclaiming Q P m" for Q P and m :: "'z prog"
    by (rule gor_unclaiming_busy [OF rg_frame [OF that stB]])
  have adopted: "gor S own T i busy ?Q (\<lambda>s. firm key (cl_id c) s \<and> ?B s)
      (bind save_state (\<lambda>_. bind (push_running pd c) (\<lambda>_. Ret None)))" for c
  proof (rule rg_bind [OF fr [OF gor_idle_unclaiming [OF gor_save_state [OF assms(1)]]]])
    show "gor S own T i busy ?Q (\<lambda>s. firm key (cl_id c) s \<and> ?B s)
        (bind (push_running pd c) (\<lambda>_. Ret None))"
      by (rule rg_bind [OF fr [OF gor_idle_unclaiming [OF gor_push_running [OF assms(5)]]]])
        (rule ret [OF stable_const])
  qed (auto intro: stables idles)
  have fresh: "gor S own T i busy ?Q (\<lambda>s. unsettled key s \<and> ?B s)
      (check (clear_stranded_claim key) (claim_fresh E key pd))"
    unfolding check_def
    apply (rule rg_bind [OF fr [OF gor_clear_stranded [OF assms(3,4)]]])
    subgoal for r
      using gor_claim_fresh [OF assms] ret [OF stable_const, of True] by (cases r) auto
    done
  have adopt: "gor S own T i busy ?Q (\<lambda>s. verified key s \<and> ?B s)
      (bind (locked (adopt_existing_claim key pd)) (\<lambda>a. case a of
         Some c \<Rightarrow> bind save_state (\<lambda>_. bind (push_running pd c) (\<lambda>_. Ret None))
       | None \<Rightarrow> check (clear_stranded_claim key) (claim_fresh E key pd)))"
    apply (rule rg_bind [OF fr [OF gor_adopt [OF assms(3,4)]]])
    subgoal for r using adopted fresh by (cases r) auto
    done
  have settle: "gor S own T i busy ?Q (\<lambda>s. verified key s \<and> ?B s)
      (check (settle_expired_claim key) (bind (locked (adopt_existing_claim key pd)) (\<lambda>a. case a of
         Some c \<Rightarrow> bind save_state (\<lambda>_. bind (push_running pd c) (\<lambda>_. Ret None))
       | None \<Rightarrow> check (clear_stranded_claim key) (claim_fresh E key pd))))"
    unfolding check_def [of "settle_expired_claim key"]
    apply (rule rg_bind [OF fr [OF gor_settle [OF assms(3,4)]]])
    subgoal for r using adopt ret [OF stable_verified] by (cases r) auto
    done
  have resolve: "gor S own T i busy ?Q (\<lambda>s. True \<and> ?B s)
      (check (resolve_unverified_claim key)
        (check (settle_expired_claim key) (bind (locked (adopt_existing_claim key pd)) (\<lambda>a. case a of
           Some c \<Rightarrow> bind save_state (\<lambda>_. bind (push_running pd c) (\<lambda>_. Ret None))
         | None \<Rightarrow> check (clear_stranded_claim key) (claim_fresh E key pd)))))"
    unfolding check_def [of "resolve_unverified_claim key"]
    apply (rule rg_bind [OF fr [OF gor_resolve [OF assms(1,3,4)]]])
    subgoal for r using settle ret [OF stable_const, of True] by (cases r) auto
    done
  then show ?thesis unfolding create_pod_def Let_def assms(5) [symmetric]
    using ret [OF stable_const, of True]
    by (cases "ann pd ann_runtime runtime_sandboxd = runtime_sandboxd") (simp_all only: simp_thms if_True if_False)
qed

subsection \<open>UpdatePod and DeletePod\<close>

lemma gor_read_any:
  assumes "stable_under (table_inv T) (env own T i) P"
  shows "gor S own T i unclaiming (\<lambda>_. P) P (reads h)"
  by (intro gor_idle_unclaiming gor_reads assms)

lemma gor_kept:
  assumes "exclusive own" "\<And>p A. table_ok p \<Longrightarrow> rows_kept own i A p (u p)"
  shows "gor S own T i unclaiming (\<lambda>_ _. True) (\<lambda>_. True) (modify u)"
  by (rule gor_modify [OF assms(1)]) (auto intro: assms(2) inv_table_ok)

lemma gor_update_pod:
  assumes "map_ranges S" "fresh_ids S T" "exclusive own" "own i = Some key"
    and "key = pod_key (pod_namespace pd) (pod_name pd)"
  shows "gor S own T i busy (\<lambda>_. balanced T key X) (balanced T key X) (update_pod E pd)"
  (is "gor S own T i busy ?Q ?B _")
proof -
  have stB: "stable_under (table_inv T) (env own T i) ?B" "stable_under (table_inv T) (unclaiming own T i) ?B"
    using assms(4) by (auto intro: stables unclaims)
  have ret: "gor S own T i busy ?Q ?B (Ret a)" for a using stB(1) by (auto intro: rg_Ret)
  have cur: "gor S own T i busy (\<lambda>_. ?B) ?B (reads (pod_uid_is_current key pd))"
    by (rule gor_unclaiming_busy [OF gor_read_any [OF stB(1)]])
  have "gor S own T i unclaiming (\<lambda>_ _. True) (\<lambda>_. True) (locked (update_section key pd))"
  proof (rule gor_locked [OF assms(3)])
    fix w g p' a
    assume inv: "table_inv T (w, g)" and up: "update_section key pd (w_prov w) = (p', a)"
    show "rows_kept own i (released (w_trace w) \<union> gone T (w_trace w)) (w_prov w) p' \<and> True"
      using rows_kept_update_section [where own = own and i = i, OF inv_table_ok [OF inv] assms(4)] up
      by (metis fst_conv)
  qed simp_all
  from gor_unclaiming_busy [OF rg_frame [OF this stB]]
  have sec: "gor S own T i busy (\<lambda>_. ?B) ?B (locked (update_section key pd))" by simp
  have rest: "gor S own T i busy ?Q ?B
      (bind (locked (update_section key pd)) (\<lambda>pending. if pending then create_pod E pd else Ret None))"
    by (rule rg_bind [OF sec]) (simp add: gor_create_pod [OF assms] ret)
  show ?thesis unfolding update_pod_def Let_def assms(5) [symmetric]
    by (rule rg_bind [OF cur]) (simp add: rest ret)
qed

lemma gor_destroy_authorized:
  assumes "stable_under (table_inv T) (env own T i) P" "stable_under (table_inv T) quietly P"
  shows "gor S own T i idle (\<lambda>_. P) P (destroy_authorized E dyn ns ref)"
proof -
  have ret: "gor S own T i idle (\<lambda>_. P) P (Ret a)" for a :: "auth_verdict \<times> string"
    using assms(1) by (auto intro: rg_Ret)
  have "gor S own T i idle (\<lambda>_. P) P (bind (dyn_get g ns n) (\<lambda>reply. Ret (judge_owner E r reply)))" for g n r
    by (rule rg_bind [OF gor_dyn_get [OF assms] ret])
  then show ?thesis using ret
    by (auto simp: destroy_authorized_def split: option.splits)
qed

lemma gor_delete_pod:
  assumes "map_ranges S" "exclusive own" "own i = Some key"
    and "key = pod_key (pod_namespace pd) (pod_name pd)"
  shows "gor S own T i unclaiming (\<lambda>_ _. True) (\<lambda>_. True) (delete_pod E pd)"
  (is "gor S own T i unclaiming ?Q ?P _")
proof -
  have ret: "gor S own T i unclaiming ?Q P (Ret a)"
    if "stable_under (table_inv T) (env own T i) P" for P and a :: "pod_error option"
    using that by (auto intro: rg_Ret)
  have save: "gor S own T i unclaiming (\<lambda>_ _. True) (\<lambda>_. True) save_state"
    by (intro gor_idle_unclaiming gor_save_state assms(1) stable_const)
  let ?O = "\<lambda>c s. only_id key (cl_id c) s \<and> has_token T (cl_id c) (cl_token c) s"
  have st: "stable_under (table_inv T) (env own T i) (?O c)" "stable_under (table_inv T) quietly (?O c)"
    for c :: claim using assms(3) by (auto intro!: stab quiet_stab)
  have held: "gor S own T i unclaiming (\<lambda>held s. \<forall>c. held = Some c \<longrightarrow> ?O c s) ?P (reads (held_claim_for key))"
    using st(1) by (intro gor_idle_unclaiming gor_reads stable_const stable_all stable_imp_const)
      (auto simp: held_claim_for_def only_id_def has_token_def inv_row(2) split: if_splits)
  have forget: "gor S own T i unclaiming ?Q ?P (bind (modify (forget_pod key)) (\<lambda>_. Ret None))"
    by (rule rg_bind [OF gor_kept [OF assms(2)] ret])
      (auto intro: rows_kept_forget_pod assms(3))
  have keep: "gor S own T i unclaiming ?Q ?P
      (bind (preserve_claim key x ow) (\<lambda>_. Ret None))" for x ow
    unfolding preserve_claim_def
    by (rule rg_bind [OF rg_bind [OF gor_kept [OF assms(2)] save] ret])
      (auto intro: rows_kept_preserve_row assms(3))
  have rel: "gor S own T i unclaiming ?Q (?O c)
      (bind (client_release CallerCtx (cl_id c) (cl_token c)) (\<lambda>r.
         case r of Some e \<Rightarrow> Ret (Some (ErrRelease (cl_id c) key e))
         | None \<Rightarrow> bind (modify (withdraw_claim key (cl_id c))) (\<lambda>_. bind save_state (\<lambda>_. Ret None))))" for c :: claim
  proof (rule rg_bind [OF gor_idle_unclaiming [OF gor_release [OF st]]])
    fix r :: "err option"
    have "gor S own T i unclaiming ?Q (vacant key) (bind save_state (\<lambda>_. Ret None))"
      by (rule rg_pre [OF rg_bind [OF save ret]]) (use assms(3) in \<open>auto intro: stab\<close>)
    from rg_bind [OF gor_withdraw [OF assms(2,3) st(1)] this]
    show "gor S own T i unclaiming ?Q (\<lambda>s. ?O c s \<and> (r = None \<longrightarrow> was_released (cl_id c) s))
        (case r of Some e \<Rightarrow> Ret (Some (ErrRelease (cl_id c) key e))
         | None \<Rightarrow> bind (modify (withdraw_claim key (cl_id c))) (\<lambda>_. bind save_state (\<lambda>_. Ret None)))"
      using ret st(1) assms(3) by (cases r) (auto intro!: stab)
  qed simp
  have judged: "gor S own T i unclaiming ?Q (?O c)
      (bind (reads pv_dyn) (\<lambda>dyn.
       bind (destroy_authorized E dyn (pod_namespace pd) (pod_controller pd)) (\<lambda>(verdict, reason).
         if verdict \<noteq> AuthRelease
         then bind (preserve_claim key (cl_id c) (pod_controller pd)) (\<lambda>_. Ret None)
         else bind (client_release CallerCtx (cl_id c) (cl_token c)) (\<lambda>r.
           case r of Some e \<Rightarrow> Ret (Some (ErrRelease (cl_id c) key e))
           | None \<Rightarrow> bind (modify (withdraw_claim key (cl_id c))) (\<lambda>_. bind save_state (\<lambda>_. Ret None))))))" for c :: claim
  proof (rule rg_bind [OF gor_read_any [OF st(1)]],
      rule rg_bind [OF gor_idle_unclaiming [OF gor_destroy_authorized [OF st]]])
    fix v :: "auth_verdict \<times> string"
    have "gor S own T i unclaiming ?Q (?O c)
        (bind (preserve_claim key (cl_id c) (pod_controller pd)) (\<lambda>_. Ret None))"
      by (rule rg_pre [OF keep st(1)]) simp
    with rel [of c] show "gor S own T i unclaiming ?Q (?O c)
        (case v of (verdict, reason) \<Rightarrow> if verdict \<noteq> AuthRelease
         then bind (preserve_claim key (cl_id c) (pod_controller pd)) (\<lambda>_. Ret None)
         else bind (client_release CallerCtx (cl_id c) (cl_token c)) (\<lambda>r.
           case r of Some e \<Rightarrow> Ret (Some (ErrRelease (cl_id c) key e))
           | None \<Rightarrow> bind (modify (withdraw_claim key (cl_id c))) (\<lambda>_. bind save_state (\<lambda>_. Ret None))))"
      by (cases v) auto
  qed
  show ?thesis unfolding delete_pod_def Let_def assms(4) [symmetric]
    apply (rule rg_bind [OF gor_read_any [OF stable_const]])
    subgoal for current
      apply (cases current; simp only: not_True_eq_False not_False_eq_True if_True if_False)
       apply (rule rg_bind [OF held])
      subgoal for h using forget judged by (cases h) auto
      apply (rule ret [OF stable_const])
      done
    done
qed

end
