(* ===== verification/Conc_Background.thy ===== *)
theory Conc_Background
  imports Conc_Handlers
begin

text \<open>
  The background loops and the status reads as goroutines: none of them owns a key, and all of
  them keep the invariant of the table next to the pod workers.
\<close>

abbreviation harmless ::
    "services \<Rightarrow> (nat \<Rightarrow> string option) \<Rightarrow> (string \<rightharpoonup> string) \<Rightarrow> nat \<Rightarrow> 'a prog \<Rightarrow> bool" where
  "harmless S own T i m \<equiv> gor S own T i unclaiming (\<lambda>_ _. True) (\<lambda>_. True) m"

lemma harmless_Ret: "harmless S own T i (Ret a)"
  by (auto intro: rg_Ret)

lemma harmless_bind: "harmless S own T i m \<Longrightarrow> (\<And>a. harmless S own T i (f a)) \<Longrightarrow> harmless S own T i (bind m f)"
  by (rule rg_bind)

lemma harmless_reads: "harmless S own T i (reads h)"
  by (rule gor_read_any) simp

lemma harmless_calls:
  "harmless S own T i now" "harmless S own T i (range_keys K)" "harmless S own T i lister_sandboxes"
  by (intro gor_idle_unclaiming gor_call_quiet; auto simp: allowed_simps)+

lemma harmless_save_state: "map_ranges S \<Longrightarrow> harmless S own T i save_state"
  by (intro gor_idle_unclaiming gor_save_state stable_const)

lemma harmless_notify:
  assumes "ps_phase (pod_status pd) \<noteq> PodRunning"
  shows "harmless S own T i (notify pd)"
proof -
  have "harmless S own T i (call_notifier pd)"
    by (intro gor_idle_unclaiming gor_call_quiet) (use assms in \<open>auto simp: allowed_simps\<close>)
  then show ?thesis unfolding notify_def
    by (intro harmless_bind harmless_reads) (auto intro: harmless_Ret)
qed

lemmas harmless_intros = harmless_bind harmless_Ret harmless_reads harmless_calls

subsection \<open>Verification and the orphan scan\<close>

lemma harmless_verify:
  assumes "map_ranges S" "exclusive own"
  shows "harmless S own T i verify_claims_against_node"
  by (rule rg_post [OF gor_verify [where b = False]]) (use assms in auto)

lemma harmless_orphan_scan:
  assumes "exclusive own"
  shows "harmless S own T i orphan_scan"
proof -
  have "harmless S own T i (locked (\<lambda>p. (p\<lparr>pv_orphanVerdicts := v p\<rparr>, st p)))" for v st
    by (rule gor_locked [OF assms]) (auto intro: rows_kept_bookkeeping inv_table_ok)
  from this [of "\<lambda>p. sc_verdicts (F p)" "F" for F]
  have sec: "harmless S own T i (locked (\<lambda>p. let st = F p in (p\<lparr>pv_orphanVerdicts := sc_verdicts st\<rparr>, st)))"
    for F :: "provider \<Rightarrow> scan_state" by (simp add: Let_def)
  show ?thesis unfolding orphan_scan_def
    using sec by (auto intro!: harmless_intros split: sum.splits simp: Let_def)
qed

subsection \<open>The lease watch\<close>

lemma harmless_publish_one:
  assumes "exclusive own"
  shows "harmless S own T i (publish_one E candidates live key u)"
proof -
  have "harmless S own T i (modify (refresh_deadline key x d))" for x d
    by (rule gor_refresh_deadline [OF assms]) auto
  then show ?thesis
    by (auto simp: publish_one_def expired_status_def
        intro!: harmless_intros harmless_notify split: option.splits)
qed

lemma harmless_for_each:
  assumes "\<And>x a. harmless S own T i (body x a)"
  shows "harmless S own T i (for_each body xs a)"
  by (rule rg_for_each) (auto intro: assms)

lemma harmless_publish_expired_leases:
  assumes "exclusive own"
  shows "harmless S own T i (publish_expired_leases E)"
proof -
  have "harmless S own T i (for_each (publish_one E c live) ks ())" for c live ks
    by (rule harmless_for_each) (rule harmless_publish_one [OF assms])
  then show ?thesis
    by (auto simp: publish_expired_leases_def intro!: harmless_intros split: sum.splits)
qed

subsection \<open>The owner re-check\<close>

definition tokened :: "(string \<rightharpoonup> string) \<Rightarrow> claim list \<Rightarrow> string set assn" where
  "tokened T cs s \<longleftrightarrow> (\<forall>c. c \<in> set cs \<longrightarrow> has_token T (cl_id c) (cl_token c) s)"

lemma tokened_stable:
  "stable_under I (env own T i) (tokened T cs)" "stable_under I (unclaiming own T i) (tokened T cs)"
  "stable_under (table_inv T) quietly (tokened T cs)"
  unfolding tokened_def by (intro stab unclaim_stab quiet_stab)+

lemma gor_drain_one:
  assumes "exclusive own" "c \<in> set cs"
  shows "gor S own T i unclaiming (\<lambda>_. tokened T cs) (tokened T cs) (drain_one c r)"
  (is "gor S own T i unclaiming ?Q ?P _")
  unfolding drain_one_def
proof (rule rg_bind [OF gor_idle_unclaiming [OF gor_release [OF tokened_stable(1,3)]]])
  show "?P s \<Longrightarrow> has_token T (cl_id c) (cl_token c) s" for s using assms(2) by (simp add: tokened_def)
  fix e :: "err option"
  have ret: "gor S own T i unclaiming ?Q ?P (Ret a)" for a by (rule rg_Ret [OF tokened_stable(1)])
  have "gor S own T i unclaiming (\<lambda>_ _. True) (was_released (cl_id c)) (modify (remove_released (cl_id c)))"
    by (rule gor_modify [OF assms(1) stable_was_released])
      (auto intro: rows_kept_remove_released inv_table_ok simp: was_released_def)
  from rg_frame [OF this tokened_stable(1,2)]
  have "gor S own T i unclaiming (\<lambda>_ s. ?P s) (\<lambda>s. was_released (cl_id c) s \<and> ?P s)
      (modify (remove_released (cl_id c)))" by simp
  from rg_bind [OF this ret]
  have "gor S own T i unclaiming ?Q (\<lambda>s. was_released (cl_id c) s \<and> ?P s)
      (bind (modify (remove_released (cl_id c))) (\<lambda>_. Ret True))" .
  with ret show "gor S own T i unclaiming ?Q (\<lambda>s. ?P s \<and> (e = None \<longrightarrow> was_released (cl_id c) s))
      (case e of Some e' \<Rightarrow> Ret r | None \<Rightarrow> bind (modify (remove_released (cl_id c))) (\<lambda>_. Ret True))"
    by (cases e) (auto simp: conj_commute)
qed

lemma harmless_drain:
  assumes "exclusive own"
  shows "harmless S own T i drain_releases"
proof -
  have queued: "gor S own T i unclaiming (\<lambda>cs. tokened T cs) (\<lambda>_. True) (reads pv_releasing)"
    by (intro gor_idle_unclaiming gor_reads stable_const tokened_stable)
      (auto simp: tokened_def has_token_def table_inv_def tokens_ok_def)
  have "gor S own T i unclaiming (\<lambda>_. tokened T cs) (tokened T cs) (for_each drain_one cs b)" for cs b
    by (rule rg_for_each [OF gor_drain_one [OF assms] tokened_stable(1)])
  then have "gor S own T i unclaiming (\<lambda>_ _. True) (tokened T cs) (for_each drain_one cs b)" for cs b
    by (rule rg_post) simp
  from rg_bind [OF queued this] show ?thesis by (simp add: drain_releases_def)
qed

definition queueable :: "(string \<rightharpoonup> string) \<Rightarrow> (string \<rightharpoonup> claim) \<Rightarrow> string set assn" where
  "queueable T m s \<longleftrightarrow> (\<forall>k c. m k = Some c \<longrightarrow>
     firm k (cl_id c) s \<and> verified k s \<and> has_token T (cl_id c) (cl_token c) s)"

lemma queueable_stable:
  "stable_under I (env own T i) (queueable T m)" "stable_under I (unclaiming own T i) (queueable T m)"
  "stable_under (table_inv T) quietly (queueable T m)"
  unfolding queueable_def by (intro stab unclaim_stab quiet_stab)+

lemma gor_withdraw_for_release:
  assumes "exclusive own" "m key = Some c"
  shows "gor S own T i unclaiming (\<lambda>_ _. True) (queueable T m) (locked (withdraw_for_release key c))"
proof (rule gor_locked [OF assms(1) queueable_stable(1)])
  fix w g p' a
  assume inv: "table_inv T (w, g)" and pre: "queueable T m (w, g)"
    and st: "withdraw_for_release key c (w_prov w) = (p', a)"
  have q: "firm key (cl_id c) (w, g)" "verified key (w, g)" "has_token T (cl_id c) (cl_token c) (w, g)"
    using pre assms(2) by (auto simp: queueable_def)
  have "rows_kept own i (released (w_trace w) \<union> gone T (w_trace w)) (w_prov w)
      (fst (withdraw_for_release key c (w_prov w)))"
  proof (rule rows_kept_withdraw_for_release [OF inv_table_ok [OF inv]])
    show "nontent (w_prov w) key (cl_id c)" "key \<notin> pv_quarantined (w_prov w)"
      using q by (auto simp: firm_def verified_def)
    fix c0 assume "pv_claims (w_prov w) key = Some c0" "cl_id c0 = cl_id c"
    with inv_row(2) [OF inv this(1)] q(3) show "cl_token c0 = cl_token c" by (simp add: has_token_def)
  qed
  with st show "rows_kept own i (released (w_trace w) \<union> gone T (w_trace w)) (w_prov w) p' \<and> True" by simp
qed simp

lemma gor_recheck_one:
  assumes "exclusive own"
  shows "gor S own T i unclaiming (\<lambda>_. queueable T m) (queueable T m) (recheck_one E t d m key ch)"
proof (cases "m key")
  case None
  then show ?thesis by (auto simp: recheck_one_def intro: rg_Ret queueable_stable)
next
  case (Some c)
  let ?J = "queueable T m"
  have fr: "gor S own T i unclaiming (\<lambda>_. ?J) ?J x" if "harmless S own T i x" for x :: "'z prog"
    using rg_frame [where F = ?J, OF that queueable_stable(1,2)] by simp
  have ret: "gor S own T i unclaiming (\<lambda>_. ?J) ?J (Ret a)" for a :: bool
    by (rule fr [OF harmless_Ret])
  have moved: "gor S own T i unclaiming (\<lambda>_. ?J) ?J (locked (withdraw_for_release key c))"
    using rg_frame [where F = ?J, OF gor_withdraw_for_release [where S = S and own = own and i = i and T = T and m = m and key = key, OF assms Some]
        queueable_stable(1,2)] by simp
  have set: "gor S own T i unclaiming (\<lambda>_. ?J) ?J (modify (set_recheck key r))"
    "gor S own T i unclaiming (\<lambda>_. ?J) ?J (modify (delete_recheck key))" for r
    by (rule fr, rule gor_kept [OF assms], rule rows_kept_bookkeeping, assumption)+
  have act: "gor S own T i unclaiming (\<lambda>_. ?J) ?J
      (if v \<noteq> AuthRelease then bind (modify (set_recheck key r)) (\<lambda>_. Ret ch)
       else bind (locked (withdraw_for_release key c)) (\<lambda>moved.
            bind (modify (delete_recheck key)) (\<lambda>_. Ret (ch \<or> moved))))" for v r
    by (cases "v = AuthRelease")
      (auto intro!: rg_bind [OF moved] rg_bind [OF set(1)] rg_bind [OF set(2)] ret)
  show ?thesis unfolding recheck_one_def Some option.case
    apply (rule rg_bind [OF fr [OF harmless_reads]])
    subgoal for seen
      apply (cases "case seen of Some r \<Rightarrow> t < rc_at r | None \<Rightarrow> False"; simp only: if_True if_False)
       apply (rule ret)
      apply (rule rg_bind [OF fr [OF harmless_reads]])
      apply (rule rg_bind [OF gor_idle_unclaiming [OF gor_destroy_authorized [OF queueable_stable(1,3)]]])
      subgoal for dyn vr using act by (cases vr) auto
      done
    done
qed

lemma harmless_recheck_owners:
  assumes "map_ranges S" "exclusive own"
  shows "harmless S own T i (recheck_owners E t d)"
proof -
  have snap: "gor S own T i unclaiming (queueable T) (\<lambda>_. True) (reads preserved_claims)"
    by (intro gor_idle_unclaiming gor_reads queueable_stable stable_const)
      (auto simp: queueable_def preserved_claims_def firm_def nontent_def verified_def settled_def
        has_token_def inv_row split: option.splits if_splits)
  have prune: "gor S own T i unclaiming (\<lambda>_. queueable T m) (queueable T m) (modify (prune_rechecks m))" for m
    using rg_frame [where F = "queueable T m", OF gor_kept [OF assms(2) rows_kept_bookkeeping(1)] queueable_stable(1,2)] by simp
  have keys: "gor S own T i unclaiming (\<lambda>_. queueable T m) (queueable T m) (range_keys (dom m))" for m
    using rg_frame [where F = "queueable T m", OF harmless_calls(2) queueable_stable(1,2)] by simp
  have loop: "gor S own T i unclaiming (\<lambda>_. queueable T m) (queueable T m)
      (for_each (recheck_one E t d m) ks False)" for m ks
    by (intro rg_for_each gor_recheck_one assms(2) queueable_stable)
  have tail: "harmless S own T i (bind drain_releases (\<lambda>released. if released \<or> ch then save_state else Ret ()))"
    for ch
    by (intro harmless_bind harmless_drain assms(2)) (auto intro: harmless_save_state [OF assms(1)] harmless_Ret)
  show ?thesis unfolding recheck_owners_def
    by (rule rg_bind [OF snap], rule rg_bind [OF prune], rule rg_bind [OF keys], rule rg_bind [OF loop],
        rule rg_pre [OF tail queueable_stable(1)], simp)
qed

subsection \<open>Loops and reads\<close>

lemma harmless_run_ticker: "harmless S own T i action \<Longrightarrow> harmless S own T i (run_ticker n action)"
  by (induction n) (auto intro!: harmless_bind harmless_Ret)

lemma harmless_loops:
  assumes "map_ranges S" "exclusive own"
  shows "harmless S own T i (run_orphan_scan n)" "harmless S own T i (run_claim_verification n)"
    "harmless S own T i (run_lease_watch E n)" "harmless S own T i (run_owner_recheck E d n)"
  unfolding run_orphan_scan_def run_claim_verification_def run_lease_watch_def run_owner_recheck_def
  using assms
  by (auto intro!: harmless_run_ticker harmless_intros harmless_orphan_scan harmless_verify
      harmless_publish_expired_leases harmless_recheck_owners)

lemma harmless_status:
  "harmless S own T i (get_pod ns n)" "harmless S own T i get_pods"
  "harmless S own T i (get_pod_status E ns n)" "harmless S own T i claim_addresses"
  by (auto simp: get_pod_def get_pods_def get_pod_status_def claim_addresses_def
      intro!: harmless_intros split: option.splits prod.splits)

end
