(* ===== verification/Concurrency.thy ===== *)
theory Concurrency
  imports Conc_Background
begin

text \<open>
  The running process: virtual-kubelet's pod workers, each the only one to handle its key, next to
  the four background loops and any number of status reads, under any schedule, with crashes and
  restarts at any point. The theory composes the goroutine triples into invariants of every
  reachable state of the process.
\<close>

subsection \<open>The goroutines of the process\<close>

datatype pod_op = OpCreate pod | OpUpdate pod | OpDelete pod

fun op_pod :: "pod_op \<Rightarrow> pod" where
  "op_pod (OpCreate pd) = pd"
| "op_pod (OpUpdate pd) = pd"
| "op_pod (OpDelete pd) = pd"

fun run_op :: "ext \<Rightarrow> pod_op \<Rightarrow> unit prog" where
  "run_op E (OpCreate pd) = bind (create_pod E pd) (\<lambda>_. Ret ())"
| "run_op E (OpUpdate pd) = bind (update_pod E pd) (\<lambda>_. Ret ())"
| "run_op E (OpDelete pd) = bind (delete_pod E pd) (\<lambda>_. Ret ())"

datatype goroutine =
    Worker string "pod_op list"
  | Verification nat
  | OrphanScanner nat
  | LeaseWatch nat
  | OwnerRecheck duration nat
  | PodRead string string
  | PodList
  | StatusRead string string
  | AddressRead
  | NotifyPods

fun goroutine_prog :: "ext \<Rightarrow> goroutine \<Rightarrow> unit prog" where
  "goroutine_prog E (Worker k ops) = for_each (\<lambda>op _. run_op E op) ops ()"
| "goroutine_prog E (Verification n) = run_claim_verification n"
| "goroutine_prog E (OrphanScanner n) = run_orphan_scan n"
| "goroutine_prog E (LeaseWatch n) = run_lease_watch E n"
| "goroutine_prog E (OwnerRecheck d n) = run_owner_recheck E d n"
| "goroutine_prog E (PodRead ns n) = bind (get_pod ns n) (\<lambda>_. Ret ())"
| "goroutine_prog E PodList = bind get_pods (\<lambda>_. Ret ())"
| "goroutine_prog E (StatusRead ns n) = bind (get_pod_status E ns n) (\<lambda>_. Ret ())"
| "goroutine_prog E AddressRead = bind claim_addresses (\<lambda>_. Ret ())"
| "goroutine_prog E NotifyPods = modify set_notifier"

fun worker_key :: "goroutine \<Rightarrow> string option" where
  "worker_key (Worker k ops) = Some k"
| "worker_key _ = None"

fun worker_ops_ok :: "goroutine \<Rightarrow> bool" where
  "worker_ops_ok (Worker k ops) =
     list_all (\<lambda>op. pod_key (pod_namespace (op_pod op)) (pod_name (op_pod op)) = k) ops"
| "worker_ops_ok _ = True"

text \<open>
  What virtual-kubelet's work queue promises: the operations of a key are handled by one worker at
  a time, each worker handling the operations of its key.
\<close>

definition one_worker_per_key :: "goroutine list \<Rightarrow> bool" where
  "one_worker_per_key gs \<longleftrightarrow>
     list_all worker_ops_ok gs \<and> distinct (List.map_filter worker_key gs)"

definition owner_of :: "goroutine list \<Rightarrow> nat \<Rightarrow> string option" where
  "owner_of gs i = (if i < length gs then worker_key (gs ! i) else None)"

lemma map_filter_nth:
  "n < length xs \<Longrightarrow> f (xs ! n) = Some k \<Longrightarrow> k \<in> set (List.map_filter f xs)"
proof (induction xs arbitrary: n)
  case (Cons x xs)
  then show ?case by (cases n) (auto simp: List.map_filter_simps split: option.splits)
qed simp

lemma map_filter_distinct_nth:
  assumes "distinct (List.map_filter f xs)" "i < length xs" "j < length xs"
    "f (xs ! i) = Some k" "f (xs ! j) = Some k"
  shows "i = j"
  using assms
proof (induction xs arbitrary: i j)
  case (Cons x xs)
  have no: "k \<notin> set (List.map_filter f xs) \<or> f x \<noteq> Some k"
    using Cons.prems(1) by (auto simp: List.map_filter_simps split: option.splits)
  show ?case
    using Cons.prems Cons.IH no map_filter_nth [of _ xs f k]
    by (cases i; cases j) (auto simp: List.map_filter_simps split: option.splits)
qed simp

lemma owner_exclusive: "one_worker_per_key gs \<Longrightarrow> exclusive (owner_of gs)"
  by (auto simp: exclusive_def owner_of_def one_worker_per_key_def split: if_splits
      intro: map_filter_distinct_nth)

subsection \<open>Each goroutine respects the others\<close>

text \<open>
  What a goroutine that has finished leaves: a worker has accounted for all it obtained, but for
  ids in \<open>X\<close>, which an earlier process lost in a crash.
\<close>

definition settled_account :: "(string \<rightharpoonup> string) \<Rightarrow> string set \<Rightarrow> string option \<Rightarrow> string set assn" where
  "settled_account T X k = (case k of None \<Rightarrow> (\<lambda>_. True) | Some key \<Rightarrow> balanced T key X)"

lemma gor_worker:
  assumes "map_ranges S" "fresh_ids S T" "exclusive own" "own i = Some key"
    and "list_all (\<lambda>op. pod_key (pod_namespace (op_pod op)) (pod_name (op_pod op)) = key) ops"
  shows "gor S own T i busy (\<lambda>_. balanced T key X) (balanced T key X)
    (for_each (\<lambda>op _. run_op E op) ops ())"
proof (rule rg_for_each)
  let ?B = "balanced T key X"
  have stB: "stable_under (table_inv T) (env own T i) ?B" "stable_under (table_inv T) (unclaiming own T i) ?B"
    using assms(4) by (auto intro: stables unclaims)
  show "stable_under (table_inv T) (env own T i) ?B" by (rule stB(1))
  have ret: "gor S own T i busy (\<lambda>_. ?B) ?B (Ret ())" using stB(1) by (auto intro: rg_Ret)
  fix op and u :: unit assume "op \<in> set ops"
  with assms(5) have key: "key = pod_key (pod_namespace (op_pod op)) (pod_name (op_pod op))"
    by (auto simp: list_all_iff)
  show "gor S own T i busy (\<lambda>_. ?B) ?B (run_op E op)"
  proof (cases op)
    case (OpCreate pd)
    with key have "gor S own T i busy (\<lambda>_. ?B) ?B (create_pod E pd)"
      by (intro gor_create_pod [OF assms(1-4)]) simp
    from rg_bind [OF this ret] OpCreate show ?thesis by simp
  next
    case (OpUpdate pd)
    with key have "gor S own T i busy (\<lambda>_. ?B) ?B (update_pod E pd)"
      by (intro gor_update_pod [OF assms(1-4)]) simp
    from rg_bind [OF this ret] OpUpdate show ?thesis by simp
  next
    case (OpDelete pd)
    with key have "gor S own T i unclaiming (\<lambda>_ _. True) (\<lambda>_. True) (delete_pod E pd)"
      by (intro gor_delete_pod [OF assms(1,3,4)]) simp
    from gor_unclaiming_busy [OF rg_frame [OF this stB]]
    have "gor S own T i busy (\<lambda>_. ?B) ?B (delete_pod E pd)" by simp
    from rg_bind [OF this ret] OpDelete show ?thesis by simp
  qed
qed

lemma gor_goroutine:
  assumes "map_ranges S" "fresh_ids S T" "exclusive own" "own i = worker_key g" "worker_ops_ok g"
  shows "gor S own T i busy (\<lambda>_. settled_account T X (worker_key g)) (settled_account T X (worker_key g))
    (goroutine_prog E g)"
proof (cases g)
  case (Worker k ops)
  with assms show ?thesis by (auto simp: settled_account_def intro!: gor_worker)
next
  case NotifyPods
  have "harmless S own T i (modify set_notifier)"
    by (rule gor_kept [OF assms(3)]) (rule rows_kept_bookkeeping)
  with NotifyPods show ?thesis by (simp add: settled_account_def gor_unclaiming_busy)
qed (auto simp: settled_account_def
    intro!: gor_unclaiming_busy harmless_loops assms(1,3) rg_bind [OF harmless_status(1)]
      rg_bind [OF harmless_status(2)] rg_bind [OF harmless_status(3)] rg_bind [OF harmless_status(4)]
      harmless_Ret)

definition process :: "ext \<Rightarrow> goroutine list \<Rightarrow> unit prog list" where
  "process E gs = map (goroutine_prog E) gs"

lemma process_ok:
  assumes "map_ranges S" "fresh_ids S T" "one_worker_per_key gs" "table_inv T (w, g)"
    and "\<And>k. obtained (w_trace w) k \<subseteq> X \<union> accounted T w"
  shows "pool_ok S (table_inv T) (env (owner_of gs) T) (\<lambda>i _. settled_account T X (owner_of gs i))
    (w, process E gs)"
  unfolding pool_ok_def fst_conv snd_conv
proof (intro exI [of _ g] conjI allI impI)
  show "table_inv T (w, g)" by fact
  fix i assume "i < length (process E gs)"
  then have i: "i < length gs" by (simp add: process_def)
  then have own: "owner_of gs i = worker_key (gs ! i)" by (simp add: owner_of_def)
  have ops: "worker_ops_ok (gs ! i)" using assms(3) i by (simp add: one_worker_per_key_def list_all_length)
  have "settled_account T X (owner_of gs i) (w, g)"
    using assms(5) by (simp add: settled_account_def balanced_def split: option.splits)
  moreover have "rg S i (table_inv T) (env (owner_of gs) T i) (others (env (owner_of gs) T) i)
      (\<lambda>_. settled_account T X (owner_of gs i)) (settled_account T X (owner_of gs i)) (process E gs ! i)"
    using gor_goroutine [OF assms(1,2) owner_exclusive [OF assms(3)] own ops] i own
    by (simp add: process_def busy_def)
  ultimately show "\<exists>P. P (w, g) \<and> rg S i (table_inv T) (env (owner_of gs) T i)
      (others (env (owner_of gs) T) i) (\<lambda>_. settled_account T X (owner_of gs i)) P (process E gs ! i)"
    by blast
qed

end
