(* ===== verification/Lifecycle.thy ===== *)
theory Lifecycle
  imports Concurrency
begin

text \<open>
  The life of the process: \<^verbatim>\<open>New\<close> loads, quarantines, verifies and rewrites the table before any
  goroutine starts; afterwards the goroutines run until the process dies at an arbitrary point, and
  the next process starts from the state file it left. The invariant of the table holds in every
  state a process can reach this way.
\<close>

subsection \<open>Programs that run alone\<close>

abbreviation alone ::
    "services \<Rightarrow> 'g assn \<Rightarrow> ('a \<Rightarrow> 'g assn) \<Rightarrow> 'g assn \<Rightarrow> 'a prog \<Rightarrow> bool" where
  "alone S I Q P m \<equiv> rg S 0 I (\<lambda>_ _. False) (\<lambda>_ _. True) Q P m"

lemma stable_alone [simp]: "stable_under I (\<lambda>_ _. False) P"
  by (simp add: stable_under_def)

lemma rg_alone:
  assumes "rg S 0 I R G Q P m" "\<And>s. I s \<Longrightarrow> I' s"
  shows "alone S I' (\<lambda>a s. I s \<and> Q a s) (\<lambda>s. I s \<and> P s) m"
  using assms(1)
proof (induction rule: rg.induct)
  case (rg_Ret P a)
  then show ?case by (intro rg.rg_Ret) auto
next
  case (rg_Act P m)
  show ?case
  proof (rule rg.rg_Act [OF stable_alone rg_Act(2)])
    fix w g w' m'
    assume "I (w, g) \<and> P (w, g)" "astep S 0 m w = Some (w', m')"
    with rg_Act(3) obtain g' P' where "I (w', g')" "P' (w', g')"
      "alone S I' (\<lambda>a s. I s \<and> Q a s) (\<lambda>s. I s \<and> P' s) m'" by blast
    then show "\<exists>g'. I' (w', g') \<and> True \<and> (\<exists>P'. P' (w', g') \<and> alone S I' (\<lambda>a s. I s \<and> Q a s) P' m')"
      using assms(2) by (intro exI [of _ g'] conjI exI [of _ "\<lambda>s. I s \<and> P' s"]) auto
  qed
qed

lemma alone_single:
  assumes "\<forall>a. m \<noteq> Ret a"
    and "\<And>w g w' m'. I (w, g) \<Longrightarrow> P (w, g) \<Longrightarrow> astep S 0 m w = Some (w', m') \<Longrightarrow>
           \<exists>a g'. m' = Ret a \<and> I (w', g') \<and> Q a (w', g')"
  shows "alone S I Q P m"
  by (rule rg_single [OF stable_alone assms(1)]) (use assms(2) in auto)

lemma alone_Ret: "(\<And>s. I s \<Longrightarrow> P s \<Longrightarrow> Q a s) \<Longrightarrow> alone S I Q P (Ret a)"
  by (rule rg_Ret [OF stable_alone])

lemma alone_pre: "alone S I Q P m \<Longrightarrow> (\<And>s. I s \<Longrightarrow> P' s \<Longrightarrow> P s) \<Longrightarrow> alone S I Q P' m"
  by (rule rg_pre [OF _ stable_alone])

subsection \<open>Loading the table\<close>

text \<open>What the state file and the history guarantee before a process starts.\<close>

definition boot_ok :: "(string \<rightharpoonup> string) \<Rightarrow> string set assn" where
  "boot_ok T = (\<lambda>(w, _).
     creds_known (known T (w_trace w)) (disk_creds w)
     \<and> (\<forall>k k' x. x \<in> obtained (w_trace w) k \<longrightarrow> x \<in> obtained (w_trace w) k' \<longrightarrow> k = k')
     \<and> (\<forall>pd. EvNotify pd \<in> set (w_trace w) \<longrightarrow> ps_phase (pod_status pd) = PodRunning \<longrightarrow>
          (\<exists>x. pod_annotations pd ann_claim_id = Some x \<and> known T (w_trace w) x \<noteq> None))
     \<and> presented T (w_trace w))"

lemma table_boot_ok: "table_inv T s \<Longrightarrow> boot_ok T s"
  by (cases s) (fastforce simp: table_inv_def boot_ok_def notified_ok_def)

lemma boot_ok_log:
  assumes "boot_ok T (w, g)" "allowed T (w_trace w) e"
  shows "boot_ok T (log_event e w, g)"
proof -
  have "quiet_event e" "presented T (w_trace w @ [e])"
    using assms by (auto simp: boot_ok_def allowed_def intro: presented_snoc)
  with assms(1) show ?thesis
    by (auto simp: boot_ok_def known_snoc quiet_learn quiet_obtained) (auto simp: quiet_event_def)
qed

lemma boot_ok_prov: "boot_ok T (w\<lparr>w_prov := p\<rparr>, g) = boot_ok T (w, g)"
  by (simp add: boot_ok_def)

lemma boot_ok_ghost: "boot_ok T (w, g) \<Longrightarrow> boot_ok T (w, g')"
  by (simp add: boot_ok_def)

text \<open>The provider holds exactly the credentials \<open>D\<close> of the state file, none of them tentative.\<close>

definition loaded :: "(string \<times> string) set \<Rightarrow> world \<Rightarrow> bool" where
  "loaded D w \<longleftrightarrow>
     pv_lister (w_prov w) \<and> pv_statePath (w_prov w) \<noteq> '''' \<and> pv_tentative (w_prov w) = {}
     \<and> pv_quarantined (w_prov w) = {} \<and> finite (dom (pv_claims (w_prov w)))
     \<and> durable (w_prov w) = D \<and> disk_creds w = D"

lemma durable_install:
  assumes "pv_tentative p = {}" "pv_releasing p = sf_releasing st"
  shows "durable (install_claims t st p) = state_creds st"
proof -
  have "cred (backfill_claimed_at t c) = cred c" for c by (simp add: backfill_claimed_at_def cred_def)
  then have "cred ` ran (map_option (backfill_claimed_at t) \<circ> sf_claims st) = cred ` ran (sf_claims st)"
    by (simp add: comp_def ran_map_option image_image)
  moreover have "durable q = cred ` ran (pv_claims q) \<union> cred ` set (pv_releasing q)"
    if "pv_tentative q = {}" for q using that by (auto simp: durable_def ran_def)
  from this [of "install_claims t st p"] assms
  have "durable (install_claims t st p)
      = cred ` ran (map_option (backfill_claimed_at t) \<circ> sf_claims st) \<union> cred ` set (sf_releasing st)"
    by (simp add: install_claims_def)
  ultimately show ?thesis by (simp add: state_creds_def)
qed

lemma claims_nil_empty: "decode_state j = Some st \<Longrightarrow> claims_nil j \<Longrightarrow> sf_claims st = Map.empty"
  by (cases j) (auto simp: Option.bind_eq_Some_conv)

lemma alone_load_state:
  "alone S (boot_ok T) (\<lambda>r (w, g). r = None \<longrightarrow> loaded D w)
     (\<lambda>(w, g). w_prov w = init_provider True dyn path \<and> path \<noteq> '''' \<and> disk_creds w = D) load_state"
  (is "alone S _ ?Q ?P _")
proof -
  let ?p = "init_provider True dyn path"
  have init: "pv_lister ?p" "pv_statePath ?p = path" "pv_tentative ?p = {}" "pv_quarantined ?p = {}"
    "pv_claims ?p = Map.empty" "pv_releasing ?p = []"
    by (simp_all add: init_provider_def)
  have path: "alone S (boot_ok T) (\<lambda>r (w, g). r = path \<and> ?P (w, g)) ?P (reads pv_statePath)"
    by (rule alone_single) (auto simp: init)
  let ?R = "\<lambda>r (w, g). ?P (w, g) \<and> (\<forall>j. r = Inr j \<longrightarrow> w_disk w = j)"
  have rd: "alone S (boot_ok T) ?R ?P read_file"
    by (rule alone_single)
      (auto simp: read_file_def Let_def allowed_simps intro!: boot_ok_log split: option.splits)
  let ?L = "\<lambda>st (w, g). w_prov w = install_releasing st ?p \<and> path \<noteq> '''' \<and> disk_creds w = D \<and> state_creds st = D"
  have rel: "alone S (boot_ok T) (\<lambda>_. ?L st) (?R (Inr (Some j))) (modify (install_releasing st))"
    if "decode_state j = Some st" for j st
  proof -
    have "state_creds st = D" if "w_disk w = Some j" "disk_creds w = D" for w
      using that \<open>decode_state j = Some st\<close> by (simp add: disk_creds_def)
    then show ?thesis by (intro alone_single) (auto simp: boot_ok_prov)
  qed
  have nw: "alone S (boot_ok T) (\<lambda>_. ?L st) (?L st) now" for st
  proof (rule alone_single)
    fix w g w' m'
    assume w: "boot_ok T (w, g)" "?L st (w, g)" "astep S 0 now w = Some (w', m')"
    let ?e = "EvNow (svc_now S (w_trace w))"
    from w(3) have w': "w' = log_event ?e w" "m' = Ret (svc_now S (w_trace w))" by simp_all
    have "boot_ok T (w', g)" unfolding w' by (rule boot_ok_log [OF w(1)]) (simp add: allowed_simps)
    moreover have "?L st (w', g)" using w(2) by (simp add: w')
    ultimately show "\<exists>a g'. m' = Ret a \<and> boot_ok T (w', g') \<and> ?L st (w', g')" using w'(2) by blast
  qed simp
  have fin: "loaded D (w\<lparr>w_prov := install_claims t st (install_releasing st ?p)\<rparr>)"
    if "?L st (w, g)" "decode_state j = Some st" for w g t st j
  proof -
    let ?q = "install_claims t st (install_releasing st ?p)"
    have "durable ?q = state_creds st"
      by (rule durable_install) (simp_all add: install_releasing_def init)
    moreover have "pv_lister ?q" "pv_statePath ?q = path" "pv_tentative ?q = {}" "pv_quarantined ?q = {}"
      "dom (pv_claims ?q) = dom (sf_claims st)"
      by (simp_all add: install_claims_def install_releasing_def init dom_map_option comp_def)
    ultimately show ?thesis
      using that(1) decode_state_finite [OF that(2)] by (simp add: loaded_def)
  qed
  have ins: "alone S (boot_ok T) (\<lambda>_ (w, g). loaded D w) (?L st) (modify (install_claims t st))"
    if "decode_state j = Some st" for j t st
    by (rule alone_single) (use fin [OF _ that] in \<open>auto simp: boot_ok_prov\<close>)
  have none: "loaded D w" if "?L st (w, g)" "decode_state j = Some st" "claims_nil j" for w g st j
  proof -
    have "install_claims 0 st (install_releasing st ?p) = install_releasing st ?p"
      using claims_nil_empty [OF that(2,3)] init(5)
      by (simp add: install_claims_def install_releasing_def comp_def)
    with fin [OF that(1,2), of 0] that(1) show ?thesis by (simp add: loaded_def)
  qed
  have decoded: "alone S (boot_ok T) ?Q (?R r)
      (case r of Inl e \<Rightarrow> Ret (Some (ErrReadState e)) | Inr None \<Rightarrow> Ret None
       | Inr (Some j) \<Rightarrow> (case decode_state j of None \<Rightarrow> Ret (Some ErrDecodeState)
           | Some st \<Rightarrow> bind (modify (install_releasing st)) (\<lambda>_. if claims_nil j then Ret None else
               bind now (\<lambda>t. bind (modify (install_claims t st)) (\<lambda>_. Ret None)))))" for r
  proof (cases r)
    case (Inl e)
    then show ?thesis by (auto intro: alone_Ret)
  next
    case (Inr jo)
    show ?thesis
    proof (cases jo)
      case None
      with Inr show ?thesis
        by (auto intro!: alone_Ret simp: loaded_def disk_creds_def init durable_def)
    next
      case (Some j)
      show ?thesis
      proof (cases "decode_state j")
        case None
        with Inr Some show ?thesis by (auto intro: alone_Ret)
      next
        case (Some st)
        have "alone S (boot_ok T) ?Q (?L st)
            (bind now (\<lambda>t. bind (modify (install_claims t st)) (\<lambda>_. Ret None)))"
          by (rule rg_bind [OF nw], rule rg_bind [OF ins [OF Some]], rule alone_Ret) auto
        then have "alone S (boot_ok T) ?Q (?L st) (if claims_nil j then Ret None else
            bind now (\<lambda>t. bind (modify (install_claims t st)) (\<lambda>_. Ret None)))"
          using none [OF _ Some] by (auto intro!: alone_Ret)
        from rg_bind [OF rel [OF Some] this] Some show ?thesis
          unfolding Inr \<open>jo = Some j\<close> by (simp only: sum.case option.case)
      qed
    qed
  qed
  show ?thesis unfolding load_state_def
    apply (rule rg_bind [OF path])
    subgoal for r
      using alone_pre [OF rg_bind [OF rd decoded], of "\<lambda>(w, g). r = path \<and> ?P (w, g)"]
      by (cases "r = ''''") (auto intro: alone_Ret)
    done
qed

subsection \<open>Starting a process\<close>

definition accounts :: "(string \<rightharpoonup> string) \<Rightarrow> (string \<times> string) set \<Rightarrow> string set assn" where
  "accounts T D = (\<lambda>(w, _). fst ` D \<subseteq> accounted T w \<and> creds_known (known T (w_trace w)) D)"

lemma stable_accounts: "stable_under I (env own T j) (accounts T D)"
  unfolding stable_under_def
  by (auto simp: accounts_def env_def subset_iff intro: creds_known_mono)

lemma unclaiming_accounts: "stable_under I (unclaiming own T i) (accounts T D)"
  by (intro stable_unclaiming_busy stable_busy stable_accounts)

lemma loaded_inv:
  assumes "boot_ok T (w, g)" "loaded D w"
  defines "w' \<equiv> w\<lparr>w_prov := quarantine_loaded_claims (w_prov w)\<rparr>"
  shows "table_inv T (w', dom (known T (w_trace w))) \<and> accounts T D (w', dom (known T (w_trace w)))"
proof
  let ?p = "w_prov w" and ?p' = "quarantine_loaded_claims (w_prov w)" and ?k = "known T (w_trace w)"
  have sel: "pv_claims ?p' = pv_claims ?p" "pv_releasing ?p' = pv_releasing ?p" "pv_tentative ?p' = {}"
    "pv_quarantined ?p' = dom (pv_claims ?p)" "pv_lister ?p'" "pv_statePath ?p' \<noteq> ''''"
    using assms(2) by (auto simp: quarantine_loaded_claims_def loaded_def)
  have tent: "pv_tentative ?p = {}" and dur: "durable ?p = D" and disk: "disk_creds w = D"
    using assms(2) by (auto simp: loaded_def)
  have known: "creds_known ?k D" using assms(1) disk by (simp add: boot_ok_def)
  have row: "cred c \<in> D" if "pv_claims ?p k = Some c" for k c
    using that unfolding dur [symmetric] durable_iff tent by blast
  have queue: "cred c \<in> D" if "c \<in> set (pv_releasing ?p)" for c
    using that unfolding dur [symmetric] durable_iff by blast
  have tok: "tokens_ok ?k ?p'"
    using row queue known by (fastforce simp: tokens_ok_def sel creds_known_def cred_def)
  have "durable ?p' = D" using dur tent by (simp add: durable_def sel)
  moreover have "held_ids ?p' \<subseteq> dom ?k"
    using tok by (auto simp: held_ids_iff tokens_ok_def)
  moreover have "table_ok ?p'"
    using assms(2) by (simp add: table_ok_def sel loaded_def)
  moreover have "notified_ok (dom ?k) w'"
    using assms(1) by (fastforce simp: notified_ok_def boot_ok_def w'_def nontent_def sel)
  ultimately show "table_inv T (w', dom ?k)"
    using assms(1) tok disk known by (simp add: table_inv_def w'_def sel boot_ok_def)
  have "D = cred ` ran (pv_claims ?p) \<union> cred ` set (pv_releasing ?p)"
    unfolding dur [symmetric] durable_def tent by (auto simp: ran_def)
  then have "held_ids ?p' = fst ` D"
    by (simp add: held_ids_def sel image_Un image_image cred_def)
  then show "accounts T D (w', dom ?k)"
    using known by (auto simp: accounts_def accounted_def w'_def)
qed

definition boot_post :: "(string \<rightharpoonup> string) \<Rightarrow> (string \<times> string) set \<Rightarrow> new_error option \<Rightarrow> string set assn" where
  "boot_post T D r s \<longleftrightarrow> (r = None \<longrightarrow> table_inv T s \<and> accounts T D s)"

lemma alone_new_provider:
  assumes "map_ranges S" "path \<noteq> ''''"
  shows "alone S (boot_ok T) (boot_post T D) (\<lambda>(w, g). disk_creds w = D) (new_provider True dyn path)"
proof -
  let ?A = "accounts T D" and ?own = "\<lambda>_ :: nat. None :: string option"
  have ex: "exclusive ?own" by (simp add: exclusive_def)
  have init: "alone S (boot_ok T)
      (\<lambda>_ (w, g). w_prov w = init_provider True dyn path \<and> path \<noteq> '''' \<and> disk_creds w = D)
      (\<lambda>(w, g). disk_creds w = D) (modify (\<lambda>_. init_provider True dyn path))"
    by (rule alone_single) (auto simp: boot_ok_prov assms(2))
  have quar: "alone S (boot_ok T) (\<lambda>_ s. table_inv T s \<and> ?A s) (\<lambda>(w, g). loaded D w)
      (modify quarantine_loaded_claims)"
  proof (rule alone_single)
    fix w g w' m'
    assume w: "boot_ok T (w, g)" "case (w, g) of (w, g) \<Rightarrow> loaded D w"
      "astep S 0 (modify quarantine_loaded_claims) w = Some (w', m')"
    from loaded_inv [OF w(1)] w(2,3) table_boot_ok
    show "\<exists>a g'. m' = Ret a \<and> boot_ok T (w', g') \<and> table_inv T (w', g') \<and> ?A (w', g')"
      by (intro exI [of _ "()"] exI [of _ "dom (known T (w_trace w))"]) auto
  qed simp
  have ver: "alone S (boot_ok T) (\<lambda>_ s. table_inv T s \<and> ?A s) (\<lambda>s. table_inv T s \<and> ?A s)
      verify_claims_against_node"
    using rg_alone [OF rg_frame [OF harmless_verify [where i = 0 and T = T, OF assms(1) ex]
          stable_accounts unclaiming_accounts] table_boot_ok] by simp
  have per: "alone S (boot_ok T) (\<lambda>_ s. table_inv T s \<and> ?A s) (\<lambda>s. table_inv T s \<and> ?A s) persist"
    by (rule rg_alone [OF gor_persist [OF assms(1), where own = ?own] table_boot_ok])
      (intro stable_accounts stable_idle_unclaiming unclaiming_accounts)+
  have fin: "alone S (boot_ok T) (boot_post T D) (\<lambda>s. table_inv T s \<and> ?A s)
      (bind persist (\<lambda>r. Ret (map_option ErrNotWritable r)))"
    by (rule rg_bind [OF per], rule alone_Ret) (simp add: boot_post_def)
  have checked: "alone S (boot_ok T) (boot_post T D) (\<lambda>(w, g). loaded D w)
      (bind (bind (modify quarantine_loaded_claims) (\<lambda>_. bind verify_claims_against_node (\<lambda>_. Ret ())))
        (\<lambda>_. bind persist (\<lambda>r. Ret (map_option ErrNotWritable r))))"
    by (rule rg_bind [OF rg_bind [OF quar rg_bind [OF ver]] fin], rule alone_Ret) auto
  show ?thesis unfolding new_provider_def check_def if_True
    apply (rule rg_bind [OF init], rule rg_bind [OF alone_load_state])
    subgoal for u r
      using checked by (cases r) (auto intro!: alone_Ret simp: boot_post_def)
    done
qed

subsection \<open>Processes, crashes and restarts\<close>

datatype sys =
    Down world
  | Booting world "new_error option prog"
  | Up world "unit prog list"

fun sys_world :: "sys \<Rightarrow> world" where
  "sys_world (Down w) = w"
| "sys_world (Booting w m) = w"
| "sys_world (Up w ts) = w"

text \<open>A crash keeps the files and the history, and nothing else.\<close>

definition crash :: "world \<Rightarrow> world" where
  "crash w = w\<lparr>w_saveMu := None\<rparr>"

inductive sys_step :: "services \<Rightarrow> ext \<Rightarrow> bool \<Rightarrow> string \<Rightarrow> sys \<Rightarrow> sys \<Rightarrow> bool" for S E dyn path where
  start: "sys_step S E dyn path (Down w) (Booting w (new_provider True dyn path))"
| boot: "astep S 0 m w = Some (w', m') \<Longrightarrow> sys_step S E dyn path (Booting w m) (Booting w' m')"
| serve: "one_worker_per_key gs \<Longrightarrow> sys_step S E dyn path (Booting w (Ret None)) (Up w (process E gs))"
| exit: "sys_step S E dyn path (Booting w (Ret (Some e))) (Down (crash w))"
| act: "par_step S (w, ts) (w', ts') \<Longrightarrow> sys_step S E dyn path (Up w ts) (Up w' ts')"
| crash_booting: "sys_step S E dyn path (Booting w m) (Down (crash w))"
| crash_up: "sys_step S E dyn path (Up w ts) (Down (crash w))"

inductive_cases sys_stepE: "sys_step S E dyn path x y"

fun sys_inv :: "services \<Rightarrow> (string \<rightharpoonup> string) \<Rightarrow> sys \<Rightarrow> bool" where
  "sys_inv S T (Down w) = boot_ok T (w, {})"
| "sys_inv S T (Booting w m) =
     (\<exists>g P D. boot_ok T (w, g) \<and> P (w, g) \<and> alone S (boot_ok T) (boot_post T D) P m)"
| "sys_inv S T (Up w ts) =
     (\<exists>own X. pool_ok S (table_inv T) (env own T) (\<lambda>i _. settled_account T X (own i)) (w, ts))"

lemma boot_ok_crash: "boot_ok T (w, g) \<Longrightarrow> boot_ok T (crash w, g')"
  by (simp add: boot_ok_def crash_def disk_creds_def)

lemma sys_inv_step:
  assumes "map_ranges S" "fresh_ids S T" "path \<noteq> ''''" "sys_step S E dyn path x y" "sys_inv S T x"
  shows "sys_inv S T y"
  using assms(4)
proof (cases rule: sys_step.cases)
  case (start w)
  then have "boot_ok T (w, {})" using assms(5) by simp
  moreover have "alone S (boot_ok T) (boot_post T (disk_creds w))
      (\<lambda>(w', g). disk_creds w' = disk_creds w) (new_provider True dyn path)"
    by (rule alone_new_provider [OF assms(1,3)])
  ultimately show ?thesis using start(2)
    by (simp only: sys_inv.simps) (intro exI conjI; auto)
next
  case (boot m w w' m')
  from assms(5) boot(1) obtain g P D where
    "boot_ok T (w, g)" "P (w, g)" "alone S (boot_ok T) (boot_post T D) P m" by auto
  from rg_stepD [OF this(3,1,2) boot(3)] boot(2) show ?thesis by auto
next
  case (serve gs w)
  from assms(5) serve(1) obtain g P D where
    "boot_ok T (w, g)" "P (w, g)" "alone S (boot_ok T) (boot_post T D) P (Ret None)" by auto
  then have "table_inv T (w, g)" by (auto simp: boot_post_def elim: rg_RetE)
  from process_ok [OF assms(1,2) serve(3) this, of "\<Union>k. obtained (w_trace w) k" E] serve(2)
  show ?thesis by auto
next
  case (act w ts w' ts')
  from assms(5) act(1) obtain own X where
    "pool_ok S (table_inv T) (env own T) (\<lambda>i _. settled_account T X (own i)) (w, ts)" by auto
  from pool_ok_step [OF act(3) this] act(2) show ?thesis by auto
next
  case (crash_up w ts)
  from assms(5) crash_up(1) obtain g where "table_inv T (w, g)"
    by (auto dest: pool_ok_invariant)
  with crash_up(2) show ?thesis by (auto intro: boot_ok_crash table_boot_ok)
qed (use assms(5) in \<open>auto intro: boot_ok_crash\<close>)

lemma sys_inv_reach:
  assumes "(sys_step S E dyn path)\<^sup>*\<^sup>* x y" "map_ranges S" "fresh_ids S T" "path \<noteq> ''''" "sys_inv S T x"
  shows "sys_inv S T y"
  using assms by (induction rule: rtranclp_induct) (auto intro: sys_inv_step)

text \<open>A machine on which no process has run yet, with a readable or absent state file.\<close>

lemma first_boot_ok: "w_trace w = [] \<Longrightarrow> creds_known T (disk_creds w) \<Longrightarrow> boot_ok T (w, g)"
  by (simp add: boot_ok_def presented_def known_def obtained_def)

lemma up_inv:
  assumes "(sys_step S E dyn path)\<^sup>*\<^sup>* (Down w0) (Up w ts)" "map_ranges S" "fresh_ids S T" "path \<noteq> ''''"
    and "w_trace w0 = []" "creds_known T (disk_creds w0)"
  obtains g where "table_inv T (w, g)"
proof -
  have "sys_inv S T (Down w0)" using first_boot_ok [OF assms(5,6)] by simp
  from sys_inv_reach [OF assms(1-4) this] have "\<exists>g. table_inv T (w, g)"
    by (auto dest!: pool_ok_invariant)
  with that show thesis by blast
qed

subsection \<open>What a restart finds\<close>

lemma run_write_prov: "run S (write_state key) w = Some (r, w') \<Longrightarrow> w_prov w' = w_prov w"
  by (auto simp: write_state_def split: if_splits option.splits)

lemma run_persist_prov: "run S persist w = Some (r, w') \<Longrightarrow> w_prov w' = w_prov w"
  by (auto simp: persist_def split: if_splits option.splits prod.splits dest!: run_write_prov)

lemma verify_fold_tentative: "pv_tentative (fold (verify_row live before) ks p) = pv_tentative p"
proof (induction ks arbitrary: p)
  case (Cons k ks)
  then show ?case by (simp add: verify_row_def Let_def split: option.splits)
qed simp

lemma run_verify_tentative:
  "run S verify_claims_against_node w = Some (r, w') \<Longrightarrow>
     pv_tentative (w_prov w') = pv_tentative (w_prov w)"
  by (auto simp: verify_claims_against_node_def verify_fold_tentative split: if_splits sum.splits)

lemma run_load_tentative:
  "run S load_state w = Some (r, w') \<Longrightarrow> pv_tentative (w_prov w') = pv_tentative (w_prov w)"
  by (auto simp: load_state_def install_releasing_def install_claims_def split: if_splits sum.splits option.splits)

text \<open>A credential of a table without tentative rows is durable if its id is still held.\<close>

lemma durable_again:
  assumes "table_inv T (w, g)" "accounts T D (w, g)" "pv_tentative (w_prov w) = {}" "(x, t) \<in> D"
  shows "(x, t) \<in> durable (w_prov w) \<or> x \<in> released (w_trace w) \<or> x \<in> gone T (w_trace w)"
proof -
  have known: "known T (w_trace w) x = Some t"
    using assms(2,4) by (auto simp: accounts_def creds_known_def)
  have "x \<in> accounted T w" using assms(2,4) by (force simp: accounts_def)
  then consider "x \<in> held_ids (w_prov w)" | "x \<in> released (w_trace w) \<or> x \<in> gone T (w_trace w)"
    by (auto simp: accounted_def)
  then show ?thesis
  proof cases
    case 1
    then consider (row) k c where "pv_claims (w_prov w) k = Some c" "cl_id c = x"
      | (queue) c where "c \<in> set (pv_releasing (w_prov w))" "cl_id c = x" by (auto simp: held_ids_iff)
    then show ?thesis
    proof cases
      case row
      with inv_row(2) [OF assms(1) row(1)] known have "cred c = (x, t)" by (simp add: cred_def)
      with row(1) assms(3) have "(x, t) \<in> durable (w_prov w)" unfolding durable_iff by blast
      then show ?thesis ..
    next
      case queue
      with inv_queued(2) [OF assms(1) queue(1)] known have "cred c = (x, t)" by (simp add: cred_def)
      with queue(1) have "(x, t) \<in> durable (w_prov w)" unfolding durable_iff by blast
      then show ?thesis ..
    qed
  qed simp
qed

lemma new_provider_no_tentative:
  assumes "run S (new_provider lister dyn path) w = Some (r, w')"
  shows "pv_tentative (w_prov w') = {}"
  using assms
  by (auto simp: new_provider_def init_provider_def quarantine_loaded_claims_def
      split: option.splits prod.splits if_splits
      dest!: run_persist_prov run_verify_tentative run_load_tentative)

subsection \<open>What the goroutines leave when they are done\<close>

lemma obtained_calls:
  "obtained [] k = {}" "obtained (EvNow t # h) k = obtained h k" "obtained (EvRange ks # h) k = obtained h k"
  "obtained (EvList l # h) k = obtained h k" "obtained (EvFs op r # h) k = obtained h k"
  "obtained (EvRead r' # h) k = obtained h k"
  by (simp_all add: obtained_def)

lemma run_write_obtained:
  "run S (write_state key) w = Some (r, w') \<Longrightarrow> obtained (w_trace w') = obtained (w_trace w)"
  by (auto simp: write_state_def fun_eq_iff obtained_append obtained_calls split: if_splits option.splits)

lemma run_persist_obtained:
  "run S persist w = Some (r, w') \<Longrightarrow> obtained (w_trace w') = obtained (w_trace w)"
  by (auto simp: persist_def split: if_splits option.splits prod.splits dest!: run_write_obtained)

lemma run_verify_obtained:
  "run S verify_claims_against_node w = Some (r, w') \<Longrightarrow> obtained (w_trace w') = obtained (w_trace w)"
  by (auto simp: verify_claims_against_node_def fun_eq_iff obtained_append obtained_calls split: if_splits sum.splits)

lemma run_load_obtained:
  "run S load_state w = Some (r, w') \<Longrightarrow> obtained (w_trace w') = obtained (w_trace w)"
  by (auto simp: load_state_def fun_eq_iff obtained_append obtained_calls split: if_splits sum.splits option.splits)

lemma new_provider_claims_nothing:
  assumes "run S (new_provider lister dyn path) w = Some (r, w')"
  shows "obtained (w_trace w') = obtained (w_trace w)"
  using assms
  by (auto simp: new_provider_def split: option.splits prod.splits if_splits
      dest!: run_persist_obtained run_verify_obtained run_load_obtained)

lemma par_step_idle_goroutine:
  "(par_step S)\<^sup>*\<^sup>* c c' \<Longrightarrow> (par_step S)\<^sup>*\<^sup>* (fst c, snd c @ [m]) (fst c', snd c' @ [m])"
proof (induction rule: rtranclp_induct)
  case (step y z)
  from step(2) have "par_step S (fst y, snd y @ [m]) (fst z, snd z @ [m])"
  proof cases
    case (par_step i ts w w' m')
    then show ?thesis
      using par_step.par_step [of i "ts @ [m]" S w w' m'] by (simp add: nth_append list_update_append)
  qed
  with step.IH show ?case by (rule rtranclp.rtrancl_into_rtrancl)
qed simp

lemma finished_worker:
  assumes "map_ranges S" "fresh_ids S T" "one_worker_per_key gs" "table_inv T (w1, g)"
    and "\<And>k. obtained (w_trace w1) k = {}"
    and "(par_step S)\<^sup>*\<^sup>* (w1, process E gs) (w2, ts)" "\<forall>m \<in> set ts. \<exists>a. m = Ret a"
    and "i < length gs" "worker_key (gs ! i) = Some k"
  shows "obtained (w_trace w2) k \<subseteq> accounted T w2"
proof -
  have len: "length ts = length gs"
  proof -
    have "length (snd c') = length (snd c)" if "(par_step S)\<^sup>*\<^sup>* c c'" for c c' :: "world \<times> unit prog list"
      using that by (induction rule: rtranclp_induct) (auto elim: par_step.cases)
    from this [OF assms(6)] show ?thesis by (simp add: process_def)
  qed
  have "pool_ok S (table_inv T) (env (owner_of gs) T) (\<lambda>i _. settled_account T {} (owner_of gs i)) (w2, ts)"
    by (rule pool_sound [OF assms(6) process_ok [OF assms(1-4)]]) (simp add: assms(5))
  from pool_ok_finished [OF this] assms(7) obtain g2 where
    fin: "\<And>i a. i < length ts \<Longrightarrow> ts ! i = Ret a \<Longrightarrow> settled_account T {} (owner_of gs i) (w2, g2)"
    by (auto simp: set_conv_nth)
  from assms(7,8) len obtain a where "ts ! i = Ret a" by (metis nth_mem)
  from fin [OF _ this] assms(8,9) len show ?thesis
    by (simp add: settled_account_def owner_of_def balanced_def)
qed

text \<open>A key no worker handles is the key of a worker with nothing to do.\<close>

lemma finished_account:
  assumes "map_ranges S" "fresh_ids S T" "one_worker_per_key gs" "table_inv T (w1, g)"
    and "\<And>k. obtained (w_trace w1) k = {}"
    and "(par_step S)\<^sup>*\<^sup>* (w1, process E gs) (w2, ts)" "\<forall>m \<in> set ts. \<exists>a. m = Ret a"
  shows "obtained (w_trace w2) k \<subseteq> accounted T w2"
proof (cases "\<exists>i < length gs. worker_key (gs ! i) = Some k")
  case True
  with finished_worker [OF assms] show ?thesis by blast
next
  case False
  let ?gs = "gs @ [Worker k []]"
  have "k \<notin> set (List.map_filter worker_key gs)"
  proof
    have in_filter: "\<exists>y \<in> set ys. f y = Some k" if "k \<in> set (List.map_filter f ys)" for f and ys :: "'z list"
      using that by (induction ys) (auto simp: List.map_filter_simps split: option.splits)
    assume "k \<in> set (List.map_filter worker_key gs)"
    from in_filter [OF this] False show False by (metis in_set_conv_nth)
  qed
  moreover have "List.map_filter worker_key ?gs = List.map_filter worker_key gs @ [k]"
    by (induction gs) (auto simp: List.map_filter_simps split: option.splits)
  ultimately have wk: "one_worker_per_key ?gs"
    using assms(3) by (simp add: one_worker_per_key_def)
  have steps: "(par_step S)\<^sup>*\<^sup>* (w1, process E ?gs) (w2, ts @ [Ret ()])"
    using par_step_idle_goroutine [OF assms(6), of "Ret ()"] by (simp add: process_def)
  have fin: "\<forall>m \<in> set (ts @ [Ret ()]). \<exists>a. m = Ret a" using assms(7) by auto
  show ?thesis
    by (rule finished_worker [OF assms(1,2) wk assms(4,5) steps fin, of "length gs"]) simp_all
qed

text \<open>The state a first start leaves, and what holds of a pool that runs from it.\<close>

lemma started_inv:
  assumes "map_ranges S" "path \<noteq> ''''" "w_trace w0 = []" "creds_known T (disk_creds w0)"
    and "run S (new_provider True dyn path) w0 = Some (None, w1)"
  obtains g where "table_inv T (w1, g)"
proof -
  have "\<exists>g'. boot_ok T (w1, g') \<and> boot_post T (disk_creds w0) None (w1, g')"
    by (rule rg_run [OF alone_new_provider [OF assms(1,2)] first_boot_ok [OF assms(3,4), of "{}"] _ assms(5)])
      simp
  then show ?thesis by (auto simp: boot_post_def intro: that)
qed

lemma started_obtained:
  assumes "w_trace w0 = []" "run S (new_provider True dyn path) w0 = Some (None, w1)"
  shows "obtained (w_trace w1) k = {}"
  by (simp add: new_provider_claims_nothing [OF assms(2)] assms(1) obtained_def)

lemma started_pool_inv:
  assumes "map_ranges S" "fresh_ids S T" "one_worker_per_key gs" "table_inv T (w1, g)"
    and "(par_step S)\<^sup>*\<^sup>* (w1, process E gs) (w2, ts)"
  shows "\<exists>g'. table_inv T (w2, g')"
proof -
  have "pool_ok S (table_inv T) (env (owner_of gs) T)
      (\<lambda>i _. settled_account T (\<Union>k. obtained (w_trace w1) k) (owner_of gs i)) (w2, ts)"
    by (rule pool_sound [OF assms(5) process_ok [OF assms(1-4)]]) blast
  then show ?thesis by (auto simp: pool_ok_def)
qed


end
