(* ===== verification/Progress.thy ===== *)
theory Progress
  imports Lifecycle "HOL-Library.Multiset"
begin

text \<open>
  Progress: every handler takes \<open>saveMu\<close> and gives it back in turn (\<open>locks\<close>), so a handler that
  runs alone returns, a process is never stuck while a goroutine has work left, and every schedule
  of a process comes to an end.
\<close>

named_theorems lock_rules \<open>how the combinators of programs pass \<open>saveMu\<close> on\<close>

subsection \<open>Lock discipline\<close>

text \<open>
  \<open>locks m b b'\<close>: from a state in which this goroutine holds \<open>saveMu\<close> if and only if \<open>b\<close>, every
  path of \<open>m\<close> locks only what it does not hold, unlocks only what it holds, and ends holding it if
  and only if \<open>b'\<close>.
\<close>

primrec locks :: "'a prog \<Rightarrow> bool \<Rightarrow> bool \<Rightarrow> bool" where
  "locks (Ret a) = (\<lambda>b b'. b = b')"
| "locks (Locked g) = (\<lambda>b b'. \<forall>p. snd (map_prod id locks (g p)) b b')"
| "locks (LockSave m) = (\<lambda>b b'. \<not> b \<and> locks m True b')"
| "locks (UnlockSave m) = (\<lambda>b b'. b \<and> locks m False b')"
| "locks (CallNow k) = (\<lambda>b b'. \<forall>r. locks (k r) b b')"
| "locks (CallRange K k) = (\<lambda>b b'. \<forall>r. locks (k r) b b')"
| "locks (CallClaim sp k) = (\<lambda>b b'. \<forall>r. locks (k r) b b')"
| "locks (CallRelease c i t k) = (\<lambda>b b'. \<forall>r. locks (k r) b b')"
| "locks (CallList k) = (\<lambda>b b'. \<forall>r. locks (k r) b b')"
| "locks (CallGet g ns n k) = (\<lambda>b b'. \<forall>r. locks (k r) b b')"
| "locks (CallFs op k) = (\<lambda>b b'. \<forall>r. locks (k r) b b')"
| "locks (CallRead k) = (\<lambda>b b'. \<forall>r. locks (k r) b b')"
| "locks (CallNotify pd m) = locks m"

lemma locks_bind [lock_rules]:
  "locks m b b' \<Longrightarrow> (\<And>a. locks (f a) b' b'') \<Longrightarrow> locks (bind m f) b b''"
proof (induction m arbitrary: b)
  case (Locked g)
  show ?case unfolding bind.simps locks.simps
  proof
    fix p
    obtain p' m where g: "g p = (p', m)" by (cases "g p")
    then have "m \<in> Basic_BNFs.snds (g p)" by (simp add: snds.intros)
    from Locked.IH [OF rangeI this] Locked.prems g
    show "snd (map_prod id locks (map_prod id (\<lambda>m. bind m f) (g p))) b b''" by (auto dest: spec [of _ p])
  qed
qed auto

lemma locks_vocabulary [lock_rules]:
  "locks (Ret a) b b" "locks (locked f) b b" "locks (modify u) b b" "locks (reads h) b b"
  "locks lock_save False True" "locks unlock_save True False"
  "locks now b b" "locks (range_keys K) b b" "locks (client_claim sp) b b"
  "locks (client_release c i t) b b" "locks lister_sandboxes b b" "locks (dyn_get g ns n) b b"
  "locks (fs_call op) b b" "locks read_file b b" "locks (call_notifier pd) b b"
  by (simp_all add: locked_def modify_def reads_def lock_save_def unlock_save_def now_def
      range_keys_def client_claim_def client_release_def lister_sandboxes_def dyn_get_def
      fs_call_def read_file_def call_notifier_def split: prod.splits)

lemma locks_branches [lock_rules]:
  "(c \<Longrightarrow> locks m b b') \<Longrightarrow> (\<not> c \<Longrightarrow> locks m' b b') \<Longrightarrow> locks (if c then m else m') b b'"
  "locks m b b' \<Longrightarrow> (\<And>y. locks (k y) b b') \<Longrightarrow> locks (case x of None \<Rightarrow> m | Some y \<Rightarrow> k y) b b'"
  "(\<And>l. locks (f l) b b') \<Longrightarrow> (\<And>r. locks (g r) b b') \<Longrightarrow> locks (case s of Inl l \<Rightarrow> f l | Inr r \<Rightarrow> g r) b b'"
  "(\<And>u v. locks (h u v) b b') \<Longrightarrow> locks (case z of (u, v) \<Rightarrow> h u v) b b'"
  by (auto split: option.splits sum.splits prod.splits)

lemma locks_check [lock_rules]: "locks m b b' \<Longrightarrow> locks k b' b' \<Longrightarrow> locks (check m k) b b'"
  unfolding check_def by (rule locks_bind) (auto split: option.splits)

lemma locks_for_each [lock_rules]:
  "(\<And>x a. locks (body x a) b b) \<Longrightarrow> locks (for_each body xs a) b b"
  by (induction xs arbitrary: a) (auto intro: lock_rules)

lemma locks_ticker [lock_rules]: "locks action b b \<Longrightarrow> locks (run_ticker n action) b b"
  by (induction n) (auto intro!: lock_rules)

subsection \<open>The handlers keep it\<close>

lemma locks_write [lock_rules]: "locks (write_state key) b b"
  unfolding write_state_def by (rule lock_rules)+

lemma locks_save [lock_rules]:
  "locks persist False False" "locks save_state False False" "locks (commit_claim key) False False"
  unfolding save_state_def persist_def commit_claim_def by (rule lock_rules)+

lemma locks_table [lock_rules]:
  "locks (notify pd) b b" "locks claim_addresses b b" "locks verify_claims_against_node b b"
  "locks load_state b b"
  unfolding notify_def claim_addresses_def verify_claims_against_node_def load_state_def
  by (rule lock_rules)+

lemma locks_new_provider [lock_rules]: "locks (new_provider lister dyn path) False False"
  unfolding new_provider_def by (rule lock_rules)+

lemma locks_status [lock_rules]:
  "locks (get_pod ns n) b b" "locks get_pods b b" "locks (get_pod_status E ns n) b b"
  unfolding get_pod_def get_pods_def get_pod_status_def by (rule lock_rules)+

lemma locks_create_parts [lock_rules]:
  "locks (push_running pd c) b b" "locks (release_detached c) b b" "locks (settle_expired_claim key) b b"
  "locks (resolve_unverified_claim key) b b" "locks (clear_stranded_claim key) b b"
  "locks (undo_unpersisted_claim key c e) b b"
  unfolding push_running_def release_detached_def settle_expired_claim_def resolve_unverified_claim_def
    clear_stranded_claim_def undo_unpersisted_claim_def Let_def by (rule lock_rules)+

lemma locks_create [lock_rules]:
  "locks (claim_fresh E key pd) False False" "locks (create_pod E pd) False False"
  "locks (update_pod E pd) False False"
  unfolding claim_fresh_def create_pod_def update_pod_def Let_def by (rule lock_rules)+

lemma locks_delete [lock_rules]:
  "locks (destroy_authorized E dyn ns ref) b b" "locks (preserve_claim key i owner) False False"
  "locks (delete_pod E pd) False False"
  unfolding destroy_authorized_def preserve_claim_def delete_pod_def Let_def by (rule lock_rules)+

lemma locks_recheck [lock_rules]:
  "locks (drain_one c r) b b" "locks drain_releases b b" "locks (recheck_one E t base pr key ch) b b"
  "locks (recheck_owners E t base) False False"
  unfolding drain_one_def drain_releases_def recheck_one_def recheck_owners_def by (rule lock_rules)+

lemma locks_loops [lock_rules]:
  "locks orphan_scan b b" "locks (publish_one E cs live key u) b b" "locks (publish_expired_leases E) b b"
  "locks (run_orphan_scan n) b b" "locks (run_claim_verification n) b b" "locks (run_lease_watch E n) b b"
  "locks (run_owner_recheck E d n) False False"
  unfolding orphan_scan_def publish_one_def publish_expired_leases_def run_orphan_scan_def
    run_claim_verification_def run_lease_watch_def run_owner_recheck_def Let_def
  by (rule lock_rules)+

lemma locks_goroutine: "locks (goroutine_prog E g) False False"
proof (cases g)
  case (Worker k ops)
  have "locks (run_op E op) False False" for op by (cases op) (auto intro!: lock_rules)
  with Worker show ?thesis by (auto intro!: lock_rules)
qed (auto intro!: lock_rules)

subsection \<open>A program that runs alone returns\<close>

lemma run_returns:
  "locks m (w_saveMu w = Some 0) b' \<Longrightarrow> w_saveMu w \<in> {None, Some 0} \<Longrightarrow>
     \<exists>a w'. run S m w = Some (a, w') \<and> w_saveMu w' = (if b' then Some 0 else None)"
proof (induction m arbitrary: w)
  case (Locked g)
  obtain p m where g: "g (w_prov w) = (p, m)" by (cases "g (w_prov w)")
  then have "m \<in> Basic_BNFs.snds (g (w_prov w))" by (simp add: snds.intros)
  from Locked.IH [OF rangeI this, of "w\<lparr>w_prov := p\<rparr>"] Locked.prems g
  show ?case by (auto dest: spec [of _ "w_prov w"])
next
  case (LockSave m)
  then show ?case using LockSave.IH [of "w\<lparr>w_saveMu := Some 0\<rparr>"] by simp
next
  case (UnlockSave m)
  then show ?case using UnlockSave.IH [of "w\<lparr>w_saveMu := None\<rparr>"] by simp
qed auto

lemma run_handler:
  assumes "locks m False False" "w_saveMu w = None"
  obtains a w' where "run S m w = Some (a, w')" "w_saveMu w' = None"
  using run_returns [of m w False S] assms by auto

subsection \<open>A pool is never stuck\<close>

definition pool_locks :: "world \<times> 'a prog list \<Rightarrow> bool" where
  "pool_locks c \<longleftrightarrow>
     (\<forall>i < length (snd c). locks (snd c ! i) (w_saveMu (fst c) = Some i) False)
     \<and> (\<forall>i. w_saveMu (fst c) = Some i \<longrightarrow> i < length (snd c))"

text \<open>What one action does to \<open>saveMu\<close>.\<close>

lemma astep_locks:
  assumes "locks m b b'" "astep S i m w = Some (w', m')"
    and "b \<longleftrightarrow> w_saveMu w = Some i"
  shows "locks m' (w_saveMu w' = Some i) b' \<and> (w_saveMu w' = w_saveMu w
    \<or> (w_saveMu w = None \<and> w_saveMu w' = Some i) \<or> (w_saveMu w = Some i \<and> w_saveMu w' = None))"
proof (cases m)
  case (Locked g)
  with assms show ?thesis by (cases "g (w_prov w)") (auto dest: spec [of _ "w_prov w"])
qed (use assms in \<open>auto simp: Let_def split: if_splits\<close>)

lemma pool_locks_step:
  assumes "par_step S c c'" "pool_locks c"
  shows "pool_locks c'"
  using assms(1)
proof (cases rule: par_step.cases)
  case (par_step i ts w w' m)
  let ?ts = "ts[i := m]"
  have L: "\<forall>j < length ts. locks (ts ! j) (w_saveMu w = Some j) False"
    "\<forall>j. w_saveMu w = Some j \<longrightarrow> j < length ts" using assms(2) par_step by (simp_all add: pool_locks_def)
  have i: "locks m (w_saveMu w' = Some i) False"
    and mu: "w_saveMu w' = w_saveMu w \<or> (w_saveMu w = None \<and> w_saveMu w' = Some i)
      \<or> (w_saveMu w = Some i \<and> w_saveMu w' = None)"
    using astep_locks [of "ts ! i" _ False S i w w' m] L(1) par_step by blast+
  have "locks (?ts ! j) (w_saveMu w' = Some j) False" if "j < length ?ts" for j
  proof (cases "j = i")
    case True
    with that i show ?thesis by simp
  next
    case False
    with mu have "(w_saveMu w' = Some j) = (w_saveMu w = Some j)" by auto
    with False L(1) that show ?thesis by simp
  qed
  moreover have "j < length ?ts" if "w_saveMu w' = Some j" for j
    using mu that L(2) par_step by auto
  ultimately show ?thesis using par_step by (simp add: pool_locks_def)
qed

lemma astep_moves:
  assumes "\<forall>a. m \<noteq> Ret a" "\<forall>n. m = LockSave n \<longrightarrow> w_saveMu w = None"
  shows "\<exists>w' m'. astep S i m w = Some (w', m')"
  using assms by (cases m) (auto simp: Let_def split: prod.splits)

lemma pool_moves:
  assumes "pool_locks (w, ts)" "m \<in> set ts" "\<forall>a. m \<noteq> Ret a"
  shows "\<exists>c. par_step S (w, ts) c"
proof -
  have "\<exists>i < length ts. (\<forall>a. ts ! i \<noteq> Ret a) \<and> (\<forall>n. ts ! i = LockSave n \<longrightarrow> w_saveMu w = None)"
  proof (cases "w_saveMu w")
    case None
    with assms(2,3) show ?thesis by (auto simp: in_set_conv_nth)
  next
    case (Some h)
    with assms(1) have "h < length ts" "locks (ts ! h) True False" by (auto simp: pool_locks_def)
    then show ?thesis by (intro exI [of _ h]) auto
  qed
  then obtain i w' m' where "i < length ts" "astep S i (ts ! i) w = Some (w', m')"
    using astep_moves by blast
  then show ?thesis by (blast intro: par_step.par_step)
qed

lemma pool_locks_finished:
  assumes "pool_locks (w, ts)" "\<forall>m \<in> set ts. \<exists>a. m = Ret a"
  shows "w_saveMu w = None"
proof (cases "w_saveMu w")
  case (Some h)
  with assms(1) have "h < length ts" "locks (ts ! h) True False" by (auto simp: pool_locks_def)
  moreover obtain a where "ts ! h = Ret a" using assms(2) calculation(1) nth_mem by blast
  ultimately show ?thesis by simp
qed

lemma pool_locks_process: "w_saveMu w = None \<Longrightarrow> pool_locks (w, process E gs)"
  by (auto simp: pool_locks_def process_def intro: locks_goroutine)

subsection \<open>Every schedule ends\<close>

text \<open>The programs an action may leave to be run.\<close>

inductive_set rest :: "('a prog \<times> 'a prog) set" where
  "g p = (p', m) \<Longrightarrow> (m, Locked g) \<in> rest"
| "(m, LockSave m) \<in> rest"
| "(m, UnlockSave m) \<in> rest"
| "(k r, CallNow k) \<in> rest"
| "(k r, CallRange K k) \<in> rest"
| "(k r, CallClaim sp k) \<in> rest"
| "(k r, CallRelease c i t k) \<in> rest"
| "(k r, CallList k) \<in> rest"
| "(k r, CallGet g ns n k) \<in> rest"
| "(k r, CallFs op k) \<in> rest"
| "(k r, CallRead k) \<in> rest"
| "(m, CallNotify pd m) \<in> rest"

inductive_simps rest_simps:
  "(y, Ret a) \<in> rest" "(y, Locked g) \<in> rest" "(y, LockSave m) \<in> rest" "(y, UnlockSave m) \<in> rest"
  "(y, CallNow k) \<in> rest" "(y, CallRange K k) \<in> rest" "(y, CallClaim sp k) \<in> rest"
  "(y, CallRelease c i t k) \<in> rest" "(y, CallList k) \<in> rest" "(y, CallGet g ns n k) \<in> rest"
  "(y, CallFs op k) \<in> rest" "(y, CallRead k) \<in> rest" "(y, CallNotify pd m) \<in> rest"

lemma wf_rest: "wf (rest :: ('a prog \<times> 'a prog) set)"
proof (rule wfUNIVI)
  fix P :: "'a prog \<Rightarrow> bool" and m
  assume step: "\<forall>x. (\<forall>y. (y, x) \<in> rest \<longrightarrow> P y) \<longrightarrow> P x"
  show "P m"
  proof (induction m)
    case (Locked g)
    have "P y" if y: "(y, Locked g) \<in> rest" for y
    proof -
      from y obtain p p' where "g p = (p', y)" by (auto simp: rest_simps)
      then have "y \<in> Basic_BNFs.snds (g p)" by (simp add: snds.intros)
      with Locked.IH [OF rangeI] show ?thesis by blast
    qed
    with step show ?case by blast
  qed (rule step [rule_format]; auto simp: rest_simps)+
qed

lemma astep_rest: "astep S i m w = Some (w', m') \<Longrightarrow> (m', m) \<in> rest"
  by (cases m) (auto simp: Let_def split: prod.splits if_splits intro: rest.intros)

lemma par_step_rest:
  assumes "par_step S c c'"
  shows "(mset (snd c'), mset (snd c)) \<in> mult1 rest"
  using assms
proof (cases rule: par_step.cases)
  case (par_step i ts w w' m)
  let ?M = "mset ts - {#ts ! i#}"
  have "mset ts = add_mset (ts ! i) ?M" "mset (ts[i := m]) = ?M + {#m#}"
    using par_step(3) by (simp_all add: mset_update)
  moreover have "(m, ts ! i) \<in> rest" by (rule astep_rest) (rule par_step(4))
  ultimately show ?thesis
    unfolding mult1_def par_step(1,2) snd_conv
    by (intro CollectI case_prodI exI [of _ "ts ! i"] exI [of _ ?M] exI [of _ "{#m#}"]) simp
qed

lemma wf_par_step: "wf {(c', c :: world \<times> 'a prog list). par_step S c c'}"
  by (rule wf_subset [OF wf_inv_image [OF wf_mult1 [OF wf_rest], of "\<lambda>c. mset (snd c)"]])
    (auto simp: inv_image_def dest: par_step_rest)

lemma no_endless_schedule: "\<not> (\<forall>n. par_step S (f n) (f (Suc n)))"
  using wf_par_step [of S] by (auto simp: wf_iff_no_infinite_down_chain)

subsection \<open>A process comes to its end\<close>

fun sys_locks :: "sys \<Rightarrow> bool" where
  "sys_locks (Down w) = (w_saveMu w = None)"
| "sys_locks (Booting w m) =
     (locks m (w_saveMu w = Some 0) False \<and> w_saveMu w \<in> {None, Some 0})"
| "sys_locks (Up w ts) = pool_locks (w, ts)"

lemma sys_locks_step: "sys_step S E dyn path x y \<Longrightarrow> sys_locks x \<Longrightarrow> sys_locks y"
proof (induction rule: sys_step.induct)
  case (boot m w w' m')
  then show ?case using astep_locks [OF _ boot(1)] by fastforce
next
  case (act w ts w' ts')
  then show ?case using pool_locks_step by (simp; blast)
qed (auto simp: crash_def pool_locks_process intro: lock_rules)

lemma sys_locks_reach: "(sys_step S E dyn path)\<^sup>*\<^sup>* x y \<Longrightarrow> sys_locks x \<Longrightarrow> sys_locks y"
  by (induction rule: rtranclp_induct) (auto intro: sys_locks_step)

end
