(* ===== verification/Examples.thy ===== *)
theory Examples
  imports Progress
begin

text \<open>
  A concrete node: services that satisfy the hypotheses of the theorems (ids that never repeat, map
  iteration in key order, a listing of what was claimed), a Pod that asks for a sandbox, and the
  runs of a process on them.
\<close>

subsection \<open>Runs as schedules\<close>

abbreviation solo :: "services \<Rightarrow> world \<times> 'a prog \<Rightarrow> world \<times> 'a prog \<Rightarrow> bool" where
  "solo S c c' \<equiv> astep S 0 (snd c) (fst c) = Some c'"

lemma run_solo: "run S m w = Some (a, w') \<Longrightarrow> (solo S)\<^sup>*\<^sup>* (w, m) (w', Ret a)"
proof (induction m arbitrary: w)
  case (Locked f)
  obtain p m where f: "f (w_prov w) = (p, m)" by (cases "f (w_prov w)")
  then have "m \<in> Basic_BNFs.snds (f (w_prov w))" by (simp add: snds.intros)
  from Locked.IH [OF rangeI this, of "w\<lparr>w_prov := p\<rparr>"] Locked.prems f
  show ?case by (auto intro: converse_rtranclp_into_rtranclp)
qed (auto simp: Let_def split: if_splits intro: converse_rtranclp_into_rtranclp)

lemma solo_booting:
  "(solo S)\<^sup>*\<^sup>* c c' \<Longrightarrow>
     (sys_step S E dyn path)\<^sup>*\<^sup>* (Booting (fst c) (snd c)) (Booting (fst c') (snd c'))"
proof (induction rule: rtranclp_induct)
  case (step y z)
  from step(2) have "sys_step S E dyn path (Booting (fst y) (snd y)) (Booting (fst z) (snd z))"
    by (cases z) (auto intro: sys_step.boot)
  with step.IH show ?case by (rule rtranclp.rtrancl_into_rtrancl)
qed simp

lemma solo_pool:
  "(solo S)\<^sup>*\<^sup>* c c' \<Longrightarrow> (par_step S)\<^sup>*\<^sup>* (fst c, snd c # ts) (fst c', snd c' # ts)"
proof (induction rule: rtranclp_induct)
  case (step y z)
  have "par_step S (fst y, snd y # ts) (fst z, (snd y # ts)[0 := snd z])"
    by (rule par_step.par_step) (simp_all add: step(2))
  with step.IH show ?case by (auto intro: rtranclp.rtrancl_into_rtrancl)
qed simp

lemma pool_up: "(par_step S)\<^sup>*\<^sup>* c c' \<Longrightarrow> (sys_step S E dyn path)\<^sup>*\<^sup>* (Up (fst c) (snd c)) (Up (fst c') (snd c'))"
proof (induction rule: rtranclp_induct)
  case (step y z)
  from step(2) have "sys_step S E dyn path (Up (fst y) (snd y)) (Up (fst z) (snd z))"
    by (intro sys_step.act) simp
  with step.IH show ?case by (rule rtranclp.rtrancl_into_rtrancl)
qed simp

text \<open>
  A process that starts, sets its notifier, and then handles one queue of operations of one key.
\<close>

lemma notify_then_work:
  assumes "run S (goroutine_prog E g) (w1\<lparr>w_prov := set_notifier (w_prov w1)\<rparr>) = Some ((), w2)"
  shows "(par_step S)\<^sup>*\<^sup>* (w1, process E [g, NotifyPods]) (w2, [Ret (), Ret ()])"
proof -
  let ?w = "w1\<lparr>w_prov := set_notifier (w_prov w1)\<rparr>"
  have "par_step S (w1, process E [g, NotifyPods]) (?w, (process E [g, NotifyPods])[1 := Ret ()])"
    by (rule par_step.par_step) (simp_all add: process_def)
  moreover have "(par_step S)\<^sup>*\<^sup>* (?w, [goroutine_prog E g, Ret ()]) (w2, [Ret (), Ret ()])"
    using solo_pool [OF run_solo [OF assms], of "[Ret ()]"] by simp
  ultimately show ?thesis by (simp add: process_def converse_rtranclp_into_rtranclp)
qed

lemma reach_up:
  assumes "run S (new_provider True dyn path) w0 = Some (None, w1)" "one_worker_per_key gs"
    and "(par_step S)\<^sup>*\<^sup>* (w1, process E gs) (w2, ts)"
  shows "(sys_step S E dyn path)\<^sup>*\<^sup>* (Down w0) (Up w2 ts)"
proof -
  have "sys_step S E dyn path (Down w0) (Booting w0 (new_provider True dyn path))"
    by (rule sys_step.start)
  also have "(sys_step S E dyn path)\<^sup>*\<^sup>* (Booting w0 (new_provider True dyn path)) (Booting w1 (Ret None))"
    using solo_booting [OF run_solo [OF assms(1)]] by simp
  also have "sys_step S E dyn path (Booting w1 (Ret None)) (Up w1 (process E gs))"
    by (rule sys_step.serve [OF assms(2)])
  also have "(sys_step S E dyn path)\<^sup>*\<^sup>* (Up w1 (process E gs)) (Up w2 ts)"
    using pool_up [OF assms(3)] by simp
  finally show ?thesis .
qed

subsection \<open>The hypotheses hold\<close>

lemma known_length: "known Map.empty h x \<noteq> None \<Longrightarrow> length x \<le> sum_list (map id_length h)"
proof (induction h rule: rev_induct)
  case (snoc e h)
  show ?case
  proof (cases "known Map.empty h x")
    case None
    with snoc.prems show ?thesis
      by (auto simp: known_snoc learn_def split: event.splits sum.splits if_splits)
  next
    case (Some y)
    with snoc.IH show ?thesis by simp
  qed
qed (simp add: known_def)

lemma demo_fresh: "fresh_ids demo Map.empty"
proof -
  have "known Map.empty h (replicate (Suc (sum_list (map id_length h))) CHR ''x'') = None" for h
    using known_length [of h "replicate (Suc (sum_list (map id_length h))) CHR ''x''"]
    by (cases "known Map.empty h (replicate (Suc (sum_list (map id_length h))) CHR ''x'')") auto
  then show ?thesis by (auto simp: fresh_ids_def demo_def demo_claim_def)
qed

subsection \<open>A process on the node\<close>

definition demo_up :: world where
  "demo_up = snd (the (run demo (new_provider True False ''/s'') demo_world))"

lemmas table_unfold = new_provider_def load_state_def verify_claims_against_node_def persist_def
  write_state_def save_state_def commit_claim_def init_provider_def quarantine_loaded_claims_def
  verify_snapshot_def snapshot_def

lemma demo_boot: "run demo (new_provider True False ''/s'') demo_world = Some (None, demo_up)"
  "w_prov demo_up = init_provider True False ''/s''" "w_saveMu demo_up = None"
  "sum_list (map id_length (w_trace demo_up)) = 0" "length (w_trace demo_up) = 5"
  by (simp_all add: demo_up_def demo_world_def table_unfold dom_def)

definition demo_worker :: goroutine where
  "demo_worker = Worker ''ns/a'' [OpCreate demo_pod]"

definition demo_ready :: world where
  "demo_ready = demo_up\<lparr>w_prov := set_notifier (w_prov demo_up)\<rparr>"

definition demo_served :: world where
  "demo_served = snd (the (run demo (goroutine_prog demo_ext demo_worker) demo_ready))"

lemmas create_unfold = create_pod_def resolve_unverified_claim_def settle_expired_claim_def
  claim_for_def settled_def adopt_existing_claim_def clear_stranded_claim_def claim_fresh_def
  push_running_def notify_def insert_tentative_def clear_tentative_def new_claim_def

lemma demo_create: "run demo (goroutine_prog demo_ext demo_worker) demo_ready = Some ((), demo_served)"
  "pv_claims (w_prov demo_served) = [''ns/a'' \<mapsto> demo_claimed]"
  "pv_tentative (w_prov demo_served) = {}" "w_saveMu demo_served = None"
  "EvNotify ((pod_with_claim demo_pod ''x'')\<lparr>pod_status :=
     running_status (pod_with_claim demo_pod ''x'') demo_claimed\<rparr>) \<in> set (w_trace demo_served)"
  "EvClaim \<lparr>sp_template = ''py'', sp_net = '''', sp_size = '''', sp_ttlSeconds = 86400, sp_claimRef = ''ns/a''\<rparr>
     (Inr \<lparr>cr_id = ''x'', cr_token = ''t'', cr_ownerAddr = ''10.0.0.7:8080'', cr_deadline = 0\<rparr>)
     \<in> set (w_trace demo_served)"
  unfolding demo_served_def
  by (simp_all add: demo_worker_def create_unfold table_unfold demo_boot demo_request demo_claim_def
      demo_claimed_def ann_def cmp_or_def ann_runtime_def ann_template_def runtime_sandboxd_def
      pod_key_def authority_of_def Let_def demo_ready_def set_notifier_def)

lemma demo_pool: "(par_step demo)\<^sup>*\<^sup>* (demo_up, process demo_ext [demo_worker, NotifyPods])
    (demo_served, [Ret (), Ret ()])"
  by (rule notify_then_work) (use demo_create(1) in \<open>simp add: demo_ready_def\<close>)

lemma demo_workers: "one_worker_per_key [demo_worker, NotifyPods]"
  by (simp add: one_worker_per_key_def demo_worker_def List.map_filter_simps pod_key_def)

lemma demo_reach:
  "(sys_step demo demo_ext False ''/s'')\<^sup>*\<^sup>* (Down demo_world) (Up demo_served [Ret (), Ret ()])"
  by (rule reach_up [OF demo_boot(1) demo_workers demo_pool])

lemma demo_start: "w_trace demo_world = []" "creds_known Map.empty (disk_creds demo_world)"
  by (simp_all add: demo_world_def creds_known_def disk_creds_def)

subsection \<open>A restart\<close>

definition demo_state :: state_file where
  "demo_state = \<lparr>sf_claims = [''ns/a'' \<mapsto> demo_claimed], sf_releasing = []\<rparr>"

lemma if_singleton: "(\<lambda>k. if k = a then Some b else None) = [a \<mapsto> b]"
  by auto

lemma demo_disk: "w_disk demo_served = Some (encode_state [''ns/a''] demo_state)"
  "List.map_filter listed_row (w_trace demo_served) =
     [\<lparr>ss_id = ''x'', ss_claimRef = ''ns/a'', ss_deadline = 0\<rparr>]"
  unfolding demo_served_def demo_state_def demo_up_def demo_world_def
  by (simp_all add: demo_worker_def create_unfold table_unfold demo_boot demo_request demo_claim_def
      demo_claimed_def ann_def cmp_or_def ann_runtime_def ann_template_def runtime_sandboxd_def
      pod_key_def authority_of_def Let_def demo_ready_def set_notifier_def List.map_filter_simps dom_def
      demo_up_def demo_world_def if_singleton)

definition demo_again :: world where
  "demo_again = snd (the (run demo (new_provider True False ''/s'') (crash demo_served)))"

lemma demo_state_sel: "sf_claims demo_state = [''ns/a'' \<mapsto> demo_claimed]" "sf_releasing demo_state = []"
  by (simp_all add: demo_state_def)

lemma demo_decode: "decode_state (encode_state [''ns/a''] demo_state) = Some demo_state"
proof -
  have "trunc_claim demo_claimed = demo_claimed"
    by (simp add: trunc_claim_def trunc_second_def demo_claimed_def second_def)
  then have "trunc_state demo_state = demo_state"
    by (auto simp: trunc_state_def demo_state_def)
  moreover have "decode_state (encode_state [''ns/a''] demo_state) = Some (trunc_state demo_state)"
    by (rule decode_encode_state) (simp add: demo_state_sel)
  ultimately show ?thesis by simp
qed

lemma demo_reboot: "run demo (new_provider True False ''/s'') (crash demo_served) = Some (None, demo_again)"
proof -
  have "\<exists>w'. run demo (new_provider True False ''/s'') (crash demo_served) = Some (None, w')"
    by (rule new_provider_succeeds) (auto simp: crash_def demo_disk demo_decode)
  then show ?thesis by (auto simp: demo_again_def)
qed

end
