(* ===== verification/Ledger.thy ===== *)
theory Ledger
  imports Examples
begin

text \<open>
  The contract of the claims table, as a ledger of row states, and the simulation that shows that every
  atomic step of a process keeps to it. The provider has its rows, two sets of markers and a queue, and a
  file; the ledger has one state per key, the ids that are queued, the ids whose credentials are on disk
  and the ids that the node has given up. \<open>shape\<close> is what the critical sections do to rows and queue,
  whatever their state; \<open>ledger_step\<close> adds the conditions under which a process does it.
\<close>

subsection \<open>The ledger\<close>

datatype row_state = Free | Tentative string | Unverified string | Bound string

fun row_id :: "row_state \<Rightarrow> string option" where
  "row_id Free = None"
| "row_id (Tentative i) = Some i"
| "row_id (Unverified i) = Some i"
| "row_id (Bound i) = Some i"

text \<open>What settling a set of rows may do to them.\<close>

definition settles :: "(string \<Rightarrow> row_state) \<Rightarrow> (string \<Rightarrow> row_state) \<Rightarrow> bool" where
  "settles r r' \<longleftrightarrow> (\<forall>k. r' k = r k \<or> r' k = Free \<or> (\<exists>i. r k = Unverified i \<and> r' k = Bound i))"

inductive shape ::
    "(string \<Rightarrow> row_state) \<times> string list \<Rightarrow> (string \<Rightarrow> row_state) \<times> string list \<Rightarrow> bool" where
  fresh: "shape (r, q) (r(k := Tentative i), q)"
| bound: "r k = Tentative i \<Longrightarrow> shape (r, q) (r(k := Bound i), q)"
| settled: "settles r r' \<Longrightarrow> shape (r, q) (r', q)"
| queued: "row_id (r k) = Some i \<Longrightarrow> shape (r, q) (r(k := Free), q @ [i])"
| drained: "shape (r, q) (r, filter (\<lambda>j. j \<noteq> i) q)"

text \<open>
  The ledger. A key gets a new row only when it is free, and the row starts tentative; a row is bound only
  when its credential is on disk; a row or a queued id goes only when the id is still held elsewhere or the
  node has given it up; and the file is replaced only by one that covers every row that is not tentative and
  the whole queue.
\<close>

record ledger =
  lg_rows :: "string \<Rightarrow> row_state"
  lg_queue :: "string list"
  lg_disk :: "string set"
  lg_done :: "string set"

definition lg_held :: "ledger \<Rightarrow> string set" where
  "lg_held l = {i. \<exists>k. row_id (lg_rows l k) = Some i} \<union> set (lg_queue l)"

inductive ledger_step :: "ledger \<Rightarrow> ledger \<Rightarrow> bool" where
  claim: "lg_rows l k = Free \<Longrightarrow> ledger_step l (l\<lparr>lg_rows := (lg_rows l)(k := Tentative i)\<rparr>)"
| commit: "lg_rows l k = Tentative i \<Longrightarrow> i \<in> lg_disk l \<Longrightarrow> ledger_step l (l\<lparr>lg_rows := (lg_rows l)(k := Bound i)\<rparr>)"
| settle: "settles (lg_rows l) r \<Longrightarrow> lg_held l \<subseteq> lg_held (l\<lparr>lg_rows := r\<rparr>) \<union> lg_done l \<Longrightarrow>
    ledger_step l (l\<lparr>lg_rows := r\<rparr>)"
| enqueue: "row_id (lg_rows l k) = Some i \<Longrightarrow> i \<in> lg_disk l \<Longrightarrow>
    ledger_step l (l\<lparr>lg_rows := (lg_rows l)(k := Free), lg_queue := lg_queue l @ [i]\<rparr>)"
| drain: "q = filter (\<lambda>j. j \<noteq> i) (lg_queue l) \<Longrightarrow> lg_held l \<subseteq> lg_held (l\<lparr>lg_queue := q\<rparr>) \<union> lg_done l \<Longrightarrow>
    ledger_step l (l\<lparr>lg_queue := q\<rparr>)"
| outside: "(\<And>k i. lg_rows l k \<in> {Unverified i, Bound i} \<Longrightarrow> i \<in> D) \<Longrightarrow> set (lg_queue l) \<subseteq> D \<Longrightarrow>
    lg_done l \<subseteq> d \<Longrightarrow> ledger_step l (l\<lparr>lg_disk := D, lg_done := d\<rparr>)"

text \<open>
  What the ledger promises: what it holds for good stays covered by the disk, and no id is lost.
\<close>

definition lg_safe :: "ledger \<Rightarrow> bool" where
  "lg_safe l \<longleftrightarrow>
     (\<forall>k i. lg_rows l k \<in> {Unverified i, Bound i} \<longrightarrow> i \<in> lg_disk l) \<and> set (lg_queue l) \<subseteq> lg_disk l"

lemma settles_rows:
  assumes "settles r r'" "r' k \<in> {Unverified i, Bound i}"
  shows "r k \<in> {Unverified i, Bound i}"
  using assms unfolding settles_def by (metis insertE insertI1 insertI2 row_state.distinct(3,5) row_state.inject(3) singletonD row_state.distinct(11))

lemma ledger_stays_safe: "ledger_step l l' \<Longrightarrow> lg_safe l \<Longrightarrow> lg_safe l'"
proof (induction rule: ledger_step.induct)
  case (settle l r)
  then show ?case using settles_rows [OF settle(1)] by (simp add: lg_safe_def) blast
qed (auto simp: lg_safe_def)

lemma held_update:
  assumes "row_id (r j) = Some i" "row_id (r k) = Some i \<Longrightarrow> row_id s = Some i"
  shows "\<exists>k'. row_id ((r(k := s)) k') = Some i"
  using assms by (cases "j = k") (auto intro: exI [of _ j])

lemma ledger_loses_nothing: "ledger_step l l' \<Longrightarrow> lg_held l \<union> lg_done l \<subseteq> lg_held l' \<union> lg_done l'"
proof (induction rule: ledger_step.induct)
  case (claim l k i)
  have "\<exists>k'. row_id (((lg_rows l)(k := Tentative i)) k') = Some x" if "row_id (lg_rows l j) = Some x" for j x
    using that by (rule held_update) (simp add: claim)
  then show ?case by (auto simp: lg_held_def simp del: fun_upd_apply)
next
  case (commit l k i)
  have "\<exists>k'. row_id (((lg_rows l)(k := Bound i)) k') = Some x" if "row_id (lg_rows l j) = Some x" for j x
    using that by (rule held_update) (simp add: commit)
  then show ?case by (auto simp: lg_held_def simp del: fun_upd_apply)
next
  case (enqueue l k i)
  have "x = i \<or> (\<exists>k'. row_id (((lg_rows l)(k := Free)) k') = Some x)" if "row_id (lg_rows l j) = Some x" for j x
    using held_update [of "lg_rows l" j x k Free] that enqueue(1) by (auto simp del: fun_upd_apply)
  then show ?case by (auto simp: lg_held_def simp del: fun_upd_apply)
qed (auto simp: lg_held_def)

text \<open>A section of that shape is a step of the ledger under what holds in a process.\<close>

lemma guarded_step:
  assumes "shape (lg_rows l, lg_queue l) (r, q)"
    and held: "lg_held l \<subseteq> lg_held (l\<lparr>lg_rows := r, lg_queue := q\<rparr>) \<union> lg_done l"
    and rows: "\<And>k i. r k \<in> {Unverified i, Bound i} \<Longrightarrow> i \<in> lg_disk l" and queue: "set q \<subseteq> lg_disk l"
    and ids: "\<And>k i i'. row_id (lg_rows l k) = Some i \<Longrightarrow> row_id (r k) = Some i' \<Longrightarrow> i' = i"
    and firm: "\<And>k i. lg_rows l k \<in> {Unverified i, Bound i} \<Longrightarrow> r k \<noteq> Tentative i"
  shows "ledger_step l (l\<lparr>lg_rows := r, lg_queue := q\<rparr>)"
  using assms(1)
proof (cases rule: shape.cases)
  case (fresh k i)
  then have l: "l\<lparr>lg_rows := r, lg_queue := q\<rparr> = l\<lparr>lg_rows := (lg_rows l)(k := Tentative i)\<rparr>" by simp
  show ?thesis
  proof (cases "lg_rows l k = Free")
    case True
    then show ?thesis unfolding l by (rule ledger_step.claim)
  next
    case False
    then obtain j where j: "row_id (lg_rows l k) = Some j" by (cases "lg_rows l k") auto
    with ids [OF j] fresh have "j = i" by simp
    with j firm [of k i] fresh have "lg_rows l k = Tentative i" by (cases "lg_rows l k") auto
    then have "(lg_rows l)(k := Tentative i) = lg_rows l" by auto
    then show ?thesis unfolding l by (intro ledger_step.settle) (auto simp: settles_def)
  qed
next
  case (bound k i)
  with rows [of k i] ledger_step.commit [of l k i] show ?thesis by simp
next
  case settled
  with held ledger_step.settle [of l r] show ?thesis by simp
next
  case (queued k i)
  with queue ledger_step.enqueue [of l k i] show ?thesis by simp
next
  case (drained i)
  with held ledger_step.drain [of q i l] show ?thesis by simp
qed

subsection \<open>The ledger of a world\<close>

definition row_of :: "provider \<Rightarrow> string \<Rightarrow> row_state" where
  "row_of p k =
     (case pv_claims p k of
        None \<Rightarrow> Free
      | Some c \<Rightarrow>
          if k \<in> pv_tentative p then Tentative (cl_id c)
          else if k \<in> pv_quarantined p then Unverified (cl_id c)
          else Bound (cl_id c))"

definition table_view :: "provider \<Rightarrow> (string \<Rightarrow> row_state) \<times> string list" where
  "table_view p = (row_of p, map cl_id (pv_releasing p))"

definition world_ledger :: "(string \<rightharpoonup> string) \<Rightarrow> world \<Rightarrow> ledger" where
  "world_ledger T w =
     \<lparr>lg_rows = row_of (w_prov w), lg_queue = map cl_id (pv_releasing (w_prov w)),
      lg_disk = fst ` disk_creds w, lg_done = released (w_trace w) \<union> gone T (w_trace w)\<rparr>"

definition keeps_shape :: "provider \<Rightarrow> provider \<Rightarrow> bool" where
  "keeps_shape p p' \<longleftrightarrow> (table_ok p \<longrightarrow> shape (table_view p) (table_view p'))"

subsection \<open>Programs whose sections keep to a relation\<close>

text \<open>
  For a relation that allows a section to change nothing: a program respects it when every section on
  every path of it does.
\<close>

primrec sections :: "(provider \<Rightarrow> provider \<Rightarrow> bool) \<Rightarrow> 'a prog \<Rightarrow> bool" where
  "sections R (Ret a) = True"
| "sections R (Locked g) = (\<forall>p. R p (fst (g p)) \<and> snd (map_prod id (sections R) (g p)))"
| "sections R (LockSave m) = sections R m"
| "sections R (UnlockSave m) = sections R m"
| "sections R (CallNow k) = (\<forall>r. sections R (k r))"
| "sections R (CallRange K k) = (\<forall>r. sections R (k r))"
| "sections R (CallClaim sp k) = (\<forall>r. sections R (k r))"
| "sections R (CallRelease c i t k) = (\<forall>r. sections R (k r))"
| "sections R (CallList k) = (\<forall>r. sections R (k r))"
| "sections R (CallGet g ns n k) = (\<forall>r. sections R (k r))"
| "sections R (CallFs op k) = (\<forall>r. sections R (k r))"
| "sections R (CallRead k) = (\<forall>r. sections R (k r))"
| "sections R (CallNotify pd m) = sections R m"

lemma sections_bind: "sections R m \<Longrightarrow> (\<And>a. sections R (f a)) \<Longrightarrow> sections R (bind m f)"
proof (induction m)
  case (Locked g)
  have "snd (map_prod id (sections R) (map_prod id (\<lambda>m. bind m f) (g p)))" for p
  proof -
    obtain p' m where g: "g p = (p', m)" by (cases "g p")
    then have "m \<in> Basic_BNFs.snds (g p)" by (simp add: snds.intros)
    from Locked.IH [OF rangeI this] Locked.prems g show ?thesis by (auto dest: spec [of _ p])
  qed
  with Locked.prems show ?case by simp
qed auto

text \<open>One action changes the table by a section and leaves a program that respects the relation.\<close>

lemma astep_sections:
  assumes "astep S i m w = Some (w', m')" "sections R m"
  shows "sections R m' \<and>
    (w_prov w' = w_prov w \<or> R (w_prov w) (w_prov w') \<and> w_disk w' = w_disk w \<and> w_trace w' = w_trace w)"
proof (cases m)
  case (Locked g)
  with assms show ?thesis by (cases "g (w_prov w)") (auto dest: spec [of _ "w_prov w"])
next
  case (CallFs op k)
  with assms show ?thesis by (cases op) (auto simp: Let_def)
qed (use assms in \<open>auto simp: Let_def split: if_splits\<close>)

locale section_relation =
  fixes R :: "provider \<Rightarrow> provider \<Rightarrow> bool"
  assumes unchanged: "R p p"
begin

lemma one_section:
  "(\<And>p. R p (fst (f p))) \<Longrightarrow> sections R (locked f)" "(\<And>p. R p (u p)) \<Longrightarrow> sections R (modify u)"
  by (simp_all add: locked_def modify_def case_prod_beta)

lemma vocabulary:
  "sections R (Ret a)"
  "sections R (reads h)" "sections R lock_save" "sections R unlock_save" "sections R now"
  "sections R (range_keys K)" "sections R (client_claim sp)" "sections R (client_release c i t)"
  "sections R lister_sandboxes" "sections R (dyn_get g ns n)" "sections R (fs_call op)"
  "sections R read_file" "sections R (call_notifier pd)"
  by (simp_all add: reads_def locked_def lock_save_def unlock_save_def now_def range_keys_def
      client_claim_def client_release_def lister_sandboxes_def dyn_get_def fs_call_def read_file_def
      call_notifier_def unchanged split: prod.splits)

lemma branches:
  "(c \<Longrightarrow> sections R m) \<Longrightarrow> (\<not> c \<Longrightarrow> sections R m') \<Longrightarrow> sections R (if c then m else m')"
  "sections R m \<Longrightarrow> (\<And>y. sections R (k y)) \<Longrightarrow> sections R (case x of None \<Rightarrow> m | Some y \<Rightarrow> k y)"
  "(\<And>l. sections R (f l)) \<Longrightarrow> (\<And>r. sections R (g r)) \<Longrightarrow> sections R (case s of Inl l \<Rightarrow> f l | Inr r \<Rightarrow> g r)"
  "(\<And>u v. sections R (h u v)) \<Longrightarrow> sections R (case z of (u, v) \<Rightarrow> h u v)"
  by (auto split: option.splits sum.splits prod.splits)

lemma checks: "sections R m \<Longrightarrow> sections R k \<Longrightarrow> sections R (check m k)"
  unfolding check_def by (rule sections_bind) (auto split: option.splits)

lemma each: "(\<And>x a. sections R (body x a)) \<Longrightarrow> sections R (for_each body xs a)"
  by (induction xs arbitrary: a) (auto intro: sections_bind)

lemma ticks: "sections R action \<Longrightarrow> sections R (run_ticker n action)"
  by (induction n) (auto intro!: sections_bind)

lemmas respects = sections_bind one_section vocabulary branches checks each ticks

end

subsection \<open>The sections of the table keep to the ledger\<close>

lemma settles_refl [simp]: "settles r r"
  by (simp add: settles_def)

lemma settles_trans: "settles r r' \<Longrightarrow> settles r' r'' \<Longrightarrow> settles r r''"
  unfolding settles_def by (metis row_state.distinct(11) row_state.distinct(3))

lemma keeps_settling:
  assumes "settles (row_of p) (row_of p')" "pv_releasing p' = pv_releasing p"
  shows "keeps_shape p p'"
  using shape.settled [OF assms(1)] assms(2) by (simp add: keeps_shape_def table_view_def)

lemma keeps_same:
  assumes "pv_claims p' = pv_claims p" "pv_tentative p' = pv_tentative p"
    and "pv_quarantined p' = pv_quarantined p" "pv_releasing p' = pv_releasing p"
  shows "keeps_shape p p'"
proof (rule keeps_settling)
  have "row_of p' = row_of p" by (rule ext) (simp add: row_of_def assms split: option.splits)
  then show "settles (row_of p) (row_of p')" by simp
qed (rule assms(4))

interpretation ledgered: section_relation keeps_shape
  by unfold_locales (rule keeps_same; simp)

lemma keeps_drop: "keeps_shape p (drop_claim key i p)"
  by (rule keeps_settling) (auto simp: drop_claim_def settles_def row_of_def split: option.splits)

lemma keeps_refresh: "keeps_shape p (refresh_deadline key i d p)"
  by (rule keeps_settling) (auto simp: refresh_deadline_def settles_def row_of_def split: option.splits)

lemma keeps_preserve: "keeps_shape p (preserve_row key i owner p)"
  by (rule keeps_settling) (auto simp: preserve_row_def Let_def settles_def row_of_def split: option.splits)

lemma settles_verify_row: "settles (row_of p) (row_of (verify_row live before key p))"
  by (auto simp: verify_row_def Let_def settles_def row_of_def split: option.splits)

lemma keeps_verify: "keeps_shape p (fold (verify_row live before) ks p)"
proof (rule keeps_settling)
  show "settles (row_of p) (row_of (fold (verify_row live before) ks p))"
    by (induction ks arbitrary: p) (auto intro: settles_trans settles_verify_row)
  show "pv_releasing (fold (verify_row live before) ks p) = pv_releasing p"
    by (induction ks arbitrary: p) (auto simp: verify_row_def Let_def split: option.splits)
qed

lemma keeps_insert: "keeps_shape p (insert_tentative key pd c p)"
proof -
  have "table_view (insert_tentative key pd c p) =
      ((row_of p)(key := Tentative (cl_id c)), map cl_id (pv_releasing p))"
    by (auto simp: table_view_def insert_tentative_def row_of_def fun_eq_iff split: option.splits)
  then show ?thesis by (simp add: keeps_shape_def table_view_def shape.fresh)
qed

text \<open>A row that loses its tentative marker is bound.\<close>

lemma keeps_unmarked:
  assumes "table_ok p \<Longrightarrow> row_of p' = (row_of p)(key := Bound i)" "row_of p key = Tentative i"
    and "pv_releasing p' = pv_releasing p"
  shows "keeps_shape p p'"
  using shape.bound [of "row_of p" key i] assms by (simp add: keeps_shape_def table_view_def)

lemma keeps_clear: "keeps_shape p (clear_tentative key p)"
proof (cases "\<exists>c. pv_claims p key = Some c \<and> key \<in> pv_tentative p")
  case True
  then obtain c where c: "pv_claims p key = Some c" "key \<in> pv_tentative p" by blast
  show ?thesis
  proof (rule keeps_unmarked [where key = key and i = "cl_id c"])
    show "row_of (clear_tentative key p) = (row_of p)(key := Bound (cl_id c))" if "table_ok p"
      using c that by (auto simp: row_of_def clear_tentative_def table_ok_def fun_eq_iff split: option.splits)
  qed (use c in \<open>simp_all add: row_of_def clear_tentative_def\<close>)
next
  case False
  then have "row_of (clear_tentative key p) = row_of p"
    by (auto simp: row_of_def clear_tentative_def fun_eq_iff split: option.splits)
  then show ?thesis by (intro keeps_settling) (simp_all add: clear_tentative_def)
qed

text \<open>Withdrawing frees the row with the given id; a row with another id only loses its markers.\<close>

lemma keeps_withdraw: "keeps_shape p (withdraw_claim key i p)"
proof (cases "\<exists>c. pv_claims p key = Some c \<and> cl_id c \<noteq> i \<and> key \<in> pv_tentative p")
  case True
  then obtain c where c: "pv_claims p key = Some c" "cl_id c \<noteq> i" "key \<in> pv_tentative p" by blast
  show ?thesis
  proof (rule keeps_unmarked [where key = key and i = "cl_id c"])
    show "row_of (withdraw_claim key i p) = (row_of p)(key := Bound (cl_id c))"
      using c by (auto simp: row_of_def withdraw_claim_def fun_eq_iff split: option.splits)
  qed (use c in \<open>simp_all add: row_of_def withdraw_claim_def\<close>)
next
  case False
  then have "settles (row_of p) (row_of (withdraw_claim key i p))"
    by (auto simp: settles_def row_of_def withdraw_claim_def Let_def split: option.splits)
  then show ?thesis by (rule keeps_settling) (simp add: withdraw_claim_def Let_def split: option.splits)
qed

lemma keeps_queued:
  assumes "pv_claims p key = Some cur" "cl_id cur = cl_id c"
  shows "keeps_shape p (p\<lparr>pv_claims := (pv_claims p)(key := None), pv_releasing := pv_releasing p @ [c]\<rparr>)"
    (is "keeps_shape p ?p'")
proof -
  have "row_id (row_of p key) = Some (cl_id c)" using assms by (simp add: row_of_def)
  moreover have "table_view ?p' = ((row_of p)(key := Free), map cl_id (pv_releasing p) @ [cl_id c])"
    by (auto simp: table_view_def row_of_def fun_eq_iff split: option.splits)
  ultimately show ?thesis by (simp add: keeps_shape_def table_view_def shape.queued)
qed
lemma keeps_adopt: "keeps_shape p (fst (adopt_existing_claim key pd p))"
proof -
  have "keeps_shape p (p\<lparr>pv_claims := (pv_claims p)(key \<mapsto> rebind c pd), pv_pods := (pv_pods p)(key \<mapsto> pd)\<rparr>)"
    if "pv_claims p key = Some c" for c
  proof (rule keeps_settling)
    have "cl_id (rebind c pd) = cl_id c" by (simp add: rebind_def)
    with that show "settles (row_of p)
        (row_of (p\<lparr>pv_claims := (pv_claims p)(key \<mapsto> rebind c pd), pv_pods := (pv_pods p)(key \<mapsto> pd)\<rparr>))"
      by (auto simp: settles_def row_of_def split: option.splits)
  qed simp
  then show ?thesis
    by (auto simp: adopt_existing_claim_def ledgered.unchanged keeps_queued split: option.splits)
qed

lemma keeps_withdraw_for_release: "keeps_shape p (fst (withdraw_for_release key c p))"
  by (auto simp: withdraw_for_release_def ledgered.unchanged keeps_queued split: option.splits)

lemma keeps_remove_released: "keeps_shape p (remove_released i p)"
proof -
  have "table_view (remove_released i p) = (row_of p, filter (\<lambda>j. j \<noteq> i) (map cl_id (pv_releasing p)))"
    by (auto simp: table_view_def remove_released_def row_of_def filter_map comp_def fun_eq_iff split: option.splits)
  then show ?thesis by (simp add: keeps_shape_def table_view_def shape.drained)
qed

lemma keeps_bookkeeping:
  "keeps_shape p (forget_pod key p)" "keeps_shape p (fst (update_section key pd p))"
  "keeps_shape p (prune_rechecks m p)" "keeps_shape p (set_recheck key r p)"
  "keeps_shape p (delete_recheck key p)" "keeps_shape p (set_notifier p)"
  "keeps_shape p (p\<lparr>pv_orphanVerdicts := v\<rparr>)"
  by (rule keeps_same; simp add: forget_pod_def update_section_def prune_rechecks_def set_recheck_def
      delete_recheck_def set_notifier_def)+

lemmas section_rules = ledgered.respects keeps_drop keeps_refresh keeps_preserve keeps_verify keeps_insert
  keeps_clear keeps_withdraw keeps_adopt keeps_withdraw_for_release keeps_remove_released keeps_bookkeeping

subsection \<open>The handlers keep to the ledger\<close>

named_theorems section_facts \<open>programs whose sections keep to the ledger\<close>

lemma sections_table [section_facts]:
  "sections keeps_shape (write_state key)" "sections keeps_shape (notify pd)"
  "sections keeps_shape claim_addresses" "sections keeps_shape verify_claims_against_node"
  unfolding write_state_def notify_def claim_addresses_def verify_claims_against_node_def
  by (rule section_rules)+

lemma sections_save [section_facts]:
  "sections keeps_shape persist" "sections keeps_shape save_state" "sections keeps_shape (commit_claim key)"
  unfolding save_state_def persist_def commit_claim_def by (rule section_rules section_facts)+

lemma sections_status [section_facts]:
  "sections keeps_shape (get_pod ns n)" "sections keeps_shape get_pods"
  "sections keeps_shape (get_pod_status E ns n)"
  unfolding get_pod_def get_pods_def get_pod_status_def by (rule section_rules)+

lemma sections_create_parts [section_facts]:
  "sections keeps_shape (push_running pd c)" "sections keeps_shape (release_detached c)"
  "sections keeps_shape (settle_expired_claim key)" "sections keeps_shape (resolve_unverified_claim key)"
  "sections keeps_shape (clear_stranded_claim key)" "sections keeps_shape (undo_unpersisted_claim key c e)"
  unfolding push_running_def release_detached_def settle_expired_claim_def resolve_unverified_claim_def
    clear_stranded_claim_def undo_unpersisted_claim_def Let_def
  by (rule section_rules section_facts)+

lemma sections_create [section_facts]:
  "sections keeps_shape (claim_fresh E key pd)" "sections keeps_shape (create_pod E pd)"
  "sections keeps_shape (update_pod E pd)"
  unfolding claim_fresh_def create_pod_def update_pod_def Let_def by (rule section_rules section_facts)+

lemma sections_delete [section_facts]:
  "sections keeps_shape (destroy_authorized E dyn ns ref)" "sections keeps_shape (preserve_claim key i owner)"
  "sections keeps_shape (delete_pod E pd)"
  unfolding destroy_authorized_def preserve_claim_def delete_pod_def Let_def
  by (rule section_rules section_facts)+

lemma sections_recheck [section_facts]:
  "sections keeps_shape (drain_one c r)" "sections keeps_shape drain_releases"
  "sections keeps_shape (recheck_one E t base pr key ch)" "sections keeps_shape (recheck_owners E t base)"
  unfolding drain_one_def drain_releases_def recheck_one_def recheck_owners_def
  by (rule section_rules section_facts)+

lemma sections_orphan_scan [section_facts]: "sections keeps_shape orphan_scan"
  unfolding orphan_scan_def by (rule section_rules | simp add: Let_def keeps_bookkeeping)+

lemma sections_loops [section_facts]:
  "sections keeps_shape (publish_one E cs live key u)"
  "sections keeps_shape (publish_expired_leases E)" "sections keeps_shape (run_orphan_scan n)"
  "sections keeps_shape (run_claim_verification n)" "sections keeps_shape (run_lease_watch E n)"
  "sections keeps_shape (run_owner_recheck E d n)"
  unfolding publish_one_def publish_expired_leases_def run_orphan_scan_def
    run_claim_verification_def run_lease_watch_def run_owner_recheck_def
  by (rule section_rules section_facts)+

lemma sections_goroutine: "sections keeps_shape (goroutine_prog E g)"
proof (cases g)
  case (Worker k ops)
  have "sections keeps_shape (run_op E op)" for op by (cases op) (auto intro!: section_rules section_facts)
  with Worker show ?thesis by (auto intro!: section_rules)
qed (auto intro!: section_rules section_facts)

subsection \<open>The simulation\<close>

fun sys_sections :: "sys \<Rightarrow> bool" where
  "sys_sections (Up w ts) = list_all (sections keeps_shape) ts"
| "sys_sections _ = True"

lemma par_step_sections:
  assumes "par_step S (w, ts) (w', ts')" "list_all (sections keeps_shape) ts"
  shows "list_all (sections keeps_shape) ts'
    \<and> (w_prov w' = w_prov w
       \<or> keeps_shape (w_prov w) (w_prov w') \<and> w_disk w' = w_disk w \<and> w_trace w' = w_trace w)"
  using assms(1)
proof (cases rule: par_step.cases)
  case (par_step i m)
  with assms(2) have "sections keeps_shape (ts ! i)" by (simp add: list_all_length)
  from astep_sections [OF par_step(3) this] par_step assms(2) show ?thesis
    by (simp add: list_all_length nth_list_update)
qed

lemma sys_sections_reach: "(sys_step S E dyn path)\<^sup>*\<^sup>* (Down w0) y \<Longrightarrow> sys_sections y"
proof (induction rule: rtranclp_induct)
  case (step y z)
  from step(2,3) show ?case
  proof (induction rule: sys_step.induct)
    case (act w ts w' ts')
    with par_step_sections show ?case by fastforce
  qed (simp_all add: process_def list_all_iff sections_goroutine)
qed simp

lemma covered:
  assumes "table_inv T (w, g)"
  shows "row_of (w_prov w) k \<in> {Unverified i, Bound i} \<Longrightarrow> i \<in> fst ` disk_creds w"
    and "set (map cl_id (pv_releasing (w_prov w))) \<subseteq> fst ` disk_creds w"
proof -
  have D: "fst ` durable (w_prov w) \<subseteq> fst ` disk_creds w" using assms by (auto simp: table_inv_def)
  show "i \<in> fst ` disk_creds w" if "row_of (w_prov w) k \<in> {Unverified i, Bound i}"
  proof -
    from that obtain c where "pv_claims (w_prov w) k = Some c" "cl_id c = i" "k \<notin> pv_tentative (w_prov w)"
      by (auto simp: row_of_def split: option.splits if_splits)
    then have "i \<in> fst ` durable (w_prov w)" by (force simp: durable_def cred_def)
    with D show ?thesis by blast
  qed
  show "set (map cl_id (pv_releasing (w_prov w))) \<subseteq> fst ` disk_creds w"
    using D by (force simp: durable_def cred_def)
qed

lemma done_grows: "released h \<union> gone T h \<subseteq> released (h @ es) \<union> gone T (h @ es)"
proof -
  have "gone T h \<subseteq> gone T (h @ es)" unfolding gone_def by fastforce
  moreover have "released h \<subseteq> released (h @ es)" by (auto simp: released_def)
  ultimately show ?thesis by blast
qed

lemma ledger_outside:
  assumes "table_inv T (w', g)" "w_prov w' = w_prov w" "w_trace w' = w_trace w @ es"
  shows "ledger_step (world_ledger T w) (world_ledger T w')"
proof -
  have "ledger_step (world_ledger T w) ((world_ledger T w)\<lparr>lg_disk := fst ` disk_creds w',
      lg_done := released (w_trace w') \<union> gone T (w_trace w')\<rparr>)"
    using covered [OF assms(1)] done_grows [of "w_trace w" T es] assms(2,3)
    by (intro ledger_step.outside) (auto simp: world_ledger_def)
  with assms(2) show ?thesis by (simp add: world_ledger_def)
qed

lemma row_id_of: "row_id (row_of p k) = map_option cl_id (pv_claims p k)"
  by (simp add: row_of_def split: option.splits)

lemma held_ledger: "lg_held (world_ledger T w) = held_ids (w_prov w)"
  by (intro set_eqI) (simp add: lg_held_def world_ledger_def held_ids_iff image_iff row_id_of, metis)

text \<open>A section of a goroutine, seen by any other one.\<close>

lemma ledger_section:
  assumes inv: "table_inv T (w, g)" "table_inv T (w', g')" and env: "env own T j (w, g) (w', g')"
    and sec: "keeps_shape (w_prov w) (w_prov w')" "w_disk w' = w_disk w" "w_trace w' = w_trace w"
  shows "ledger_step (world_ledger T w) (world_ledger T w')"
proof -
  let ?l = "world_ledger T w" and ?p' = "w_prov w'"
  let ?l' = "?l\<lparr>lg_rows := row_of ?p', lg_queue := map cl_id (pv_releasing ?p')\<rparr>"
  have same: "world_ledger T w' = ?l'" using sec(2,3) by (simp add: world_ledger_def disk_creds_def)
  have calm: "calm g (w_prov w) ?p'" "accounted T w \<subseteq> accounted T w'" using env by (simp_all add: env_def)
  have D: "fst ` disk_creds w' = lg_disk ?l" using sec(2) by (simp add: world_ledger_def disk_creds_def)
  have "ledger_step ?l ?l'"
  proof (rule guarded_step)
    show "shape (lg_rows ?l, lg_queue ?l) (row_of ?p', map cl_id (pv_releasing ?p'))"
      using sec(1) inv(1) by (simp add: keeps_shape_def table_view_def world_ledger_def table_inv_def)
    have "lg_done ?l = released (w_trace w') \<union> gone T (w_trace w')" using sec(3) by (simp add: world_ledger_def)
    moreover have "held_ids (w_prov w) \<subseteq> held_ids ?p' \<union> released (w_trace w') \<union> gone T (w_trace w')"
      using calm(2) by (auto simp: accounted_def)
    ultimately show "lg_held ?l \<subseteq> lg_held ?l' \<union> lg_done ?l"
      unfolding same [symmetric] held_ledger by auto
    show "i \<in> lg_disk ?l" if "row_of ?p' k \<in> {Unverified i, Bound i}" for k i
      using covered(1) [OF inv(2) that] D by simp
    show "set (map cl_id (pv_releasing ?p')) \<subseteq> lg_disk ?l" using covered(2) [OF inv(2)] D by simp
    show "i' = i" if r: "row_id (lg_rows ?l k) = Some i" "row_id (row_of ?p' k) = Some i'" for k i i'
    proof -
      obtain c c' where "pv_claims (w_prov w) k = Some c" "cl_id c = i" "pv_claims ?p' k = Some c'" "cl_id c' = i'"
        using r by (auto simp: world_ledger_def row_id_of)
      with calm(1) show ?thesis unfolding calm_def by blast
    qed
    show "row_of ?p' k \<noteq> Tentative i" if "lg_rows ?l k \<in> {Unverified i, Bound i}" for k i
    proof -
      from that obtain c where c: "pv_claims (w_prov w) k = Some c" "cl_id c = i" "k \<notin> pv_tentative (w_prov w)"
        by (auto simp: world_ledger_def row_of_def split: option.splits if_splits)
      then have "i \<in> held_ids (w_prov w)" by (auto simp: held_ids_iff)
      with inv(1) have "i \<in> g" by (auto simp: table_inv_def)
      moreover have "nontent (w_prov w) k i" using c by (simp add: nontent_def)
      ultimately have "nontent ?p' k i" using calm(1) unfolding calm_def by blast
      then show ?thesis by (auto simp: nontent_def row_of_def split: option.splits if_splits)
    qed
  qed
  with same show ?thesis by simp
qed

text \<open>
  C7: the claims table refines a write-ahead ledger. In every state a process can reach, each atomic step
  of any of its goroutines is a step of the ledger: a key gets a new row only when it is free, and the row
  starts tentative; a tentative row is bound only when its credential is on disk; a loaded row is trusted
  or freed and never becomes another one; a queued id comes from the row it leaves; a row or a queued id
  goes only when the id is held elsewhere, was released or is gone from the node; and the file is replaced
  only by one that covers every row that is not tentative and the whole queue.
\<close>
theorem table_refines_ledger:
  assumes "map_ranges S" "fresh_ids S T" "path \<noteq> ''''"
    and "w_trace w0 = []" "creds_known T (disk_creds w0)"
    and "(sys_step S E dyn path)\<^sup>*\<^sup>* (Down w0) (Up w ts)" "par_step S (w, ts) (w', ts')"
  shows "ledger_step (world_ledger T w) (world_ledger T w')"
proof -
  have "sys_inv S T (Down w0)" using first_boot_ok [OF assms(4,5)] by simp
  from sys_inv_reach [OF assms(6,1-3) this] obtain own Q where
    "pool_ok S (table_inv T) (env own T) Q (w, ts)" by auto
  from pool_step_guarantee [OF assms(7) this] obtain i g g' where
    inv: "table_inv T (w, g)" "table_inv T (w', g')" "others (env own T) i (w, g) (w', g')" by blast
  from inv(3) have env: "env own T (Suc i) (w, g) (w', g')" by (simp add: others_def)
  have "list_all (sections keeps_shape) ts" using sys_sections_reach [OF assms(6)] by simp
  with par_step_sections [OF assms(7)] consider "w_prov w' = w_prov w"
    | "keeps_shape (w_prov w) (w_prov w')" "w_disk w' = w_disk w" "w_trace w' = w_trace w" by blast
  then show ?thesis
  proof cases
    case 1
    from env obtain es where "w_trace w' = w_trace w @ es" by (auto simp: env_def)
    with 1 show ?thesis by (rule ledger_outside [OF inv(2)])
  next
    case 2
    then show ?thesis by (rule ledger_section [OF inv(1,2) env])
  qed
qed

theorem table_refines_ledger_witness:
  "ledger_step (world_ledger Map.empty demo_up) (world_ledger Map.empty demo_ready)"
proof (rule table_refines_ledger [OF demo_ranges demo_fresh _ demo_start])
  show "(sys_step demo demo_ext False ''/s'')\<^sup>*\<^sup>* (Down demo_world) (Up demo_up (process demo_ext [demo_worker, NotifyPods]))"
    by (rule reach_up [OF demo_boot(1) demo_workers]) simp
  show "par_step demo (demo_up, process demo_ext [demo_worker, NotifyPods])
      (demo_ready, (process demo_ext [demo_worker, NotifyPods])[1 := Ret ()])"
    by (rule par_step.par_step) (simp_all add: process_def demo_ready_def)
qed simp


end
