(* ===== verification/Action_Log.thy ===== *)
theory Action_Log
  imports Concurrency
begin

text \<open>
  Logs of a schedule. A log records, goroutine by goroutine, what it read and changed under \<open>mu\<close>, what the
  apiserver answered it, and what it released. A weakest precondition over a goroutine's own log (\<open>wp\<close>) shows
  of a program that each of its actions is licensed by what that goroutine saw before, whatever the other
  goroutines do and the outside answers.
\<close>

subsection \<open>Actions and logs\<close>

datatype act =
    Section provider provider
  | Lookup gvr string string "api_error + owner_obj"
  | Release call_ctx string string

fun action_of :: "services \<Rightarrow> 'a prog \<Rightarrow> world \<Rightarrow> act option" where
  "action_of S (Locked g) w = Some (Section (w_prov w) (fst (g (w_prov w))))"
| "action_of S (CallGet v ns n k) w = Some (Lookup v ns n (svc_get S (w_trace w) v ns n))"
| "action_of S (CallRelease c x t k) w = Some (Release c x t)"
| "action_of S m w = None"

definition entry :: "nat \<Rightarrow> act option \<Rightarrow> (nat \<times> act) list" where
  "entry i a = (case a of None \<Rightarrow> [] | Some b \<Rightarrow> [(i, b)])"

definition own_log :: "nat \<Rightarrow> (nat \<times> act) list \<Rightarrow> act list" where
  "own_log i l = map snd (filter (\<lambda>e. fst e = i) l)"

lemma own_log_simps [simp]:
  "own_log i [] = []"
  "own_log i (l @ l') = own_log i l @ own_log i l'"
  "own_log i ((j, a) # l) = (if j = i then a # own_log i l else own_log i l)"
  by (simp_all add: own_log_def)

text \<open>A schedule together with the log it writes.\<close>

inductive par_log :: "services \<Rightarrow> world \<times> 'a prog list \<Rightarrow> (nat \<times> act) list \<Rightarrow> world \<times> 'a prog list \<Rightarrow> bool"
  for S c where
  start: "par_log S c [] c"
| act: "par_log S c l (w, ts) \<Longrightarrow> i < length ts \<Longrightarrow> astep S i (ts ! i) w = Some (w', m') \<Longrightarrow>
    par_log S c (l @ entry i (action_of S (ts ! i) w)) (w', ts[i := m'])"

lemma schedule_logged: "(par_step S)\<^sup>*\<^sup>* c c' \<Longrightarrow> \<exists>l. par_log S c l c'"
proof (induction rule: rtranclp_induct)
  case base
  show ?case by (blast intro: par_log.start)
next
  case (step c1 c2)
  from step.IH obtain l where l: "par_log S c l c1" ..
  from step(2) show ?case
  proof (cases rule: par_step.cases)
    case (par_step i ts w w' m')
    from par_log.act [OF l [unfolded par_step(1)] par_step(3,4)] show ?thesis by (auto simp: par_step(2))
  qed
qed

lemma log_schedule: "par_log S c l c' \<Longrightarrow> (par_step S)\<^sup>*\<^sup>* c c'"
  by (induction rule: par_log.induct) (auto intro: rtranclp.rtrancl_into_rtrancl par_step.par_step)

subsection \<open>What an action adds\<close>

lemma astep_section:
  assumes "astep S i m w = Some (w', m')"
  shows "(case action_of S m w of Some (Section p p') \<Rightarrow> w_prov w = p \<and> w_prov w' = p' | _ \<Rightarrow> w_prov w' = w_prov w)"
proof (cases m)
  case (Locked g)
  with assms show ?thesis by (auto split: prod.splits)
next
  case (CallFs op k)
  with assms show ?thesis by (cases op) (auto simp: Let_def)
qed (use assms in \<open>auto simp: Let_def split: if_splits\<close>)

lemma action_trace:
  assumes "astep S i m w = Some (w', m')"
  shows "\<exists>es. w_trace w' = w_trace w @ es
    \<and> (\<forall>cc x t r. EvRelease cc x t r \<in> set es \<longrightarrow> action_of S m w = Some (Release cc x t))"
proof (cases m)
  case (CallFs op k)
  with assms show ?thesis by (cases op) (auto simp: Let_def)
next
  case (Locked g)
  with assms show ?thesis by (auto split: prod.splits)
qed (use assms in \<open>auto simp: Let_def split: if_splits\<close>)

subsection \<open>A weakest precondition over the goroutine's own log\<close>

text \<open>
  \<open>wp L Q m h\<close>: from a goroutine whose log so far is \<open>h\<close>, whatever the others do and the outside answers,
  every logged action of \<open>m\<close> satisfies \<open>L\<close> with the log before it, and \<open>m\<close> returns with \<open>Q\<close>.
\<close>

primrec wp :: "(act list \<Rightarrow> act \<Rightarrow> bool) \<Rightarrow> ('a \<Rightarrow> act list \<Rightarrow> bool) \<Rightarrow> 'a prog \<Rightarrow> act list \<Rightarrow> bool" where
  "wp L Q (Ret a) = Q a"
| "wp L Q (Locked g) = (\<lambda>h. \<forall>p. L h (Section p (fst (g p)))
     \<and> snd (map_prod id (wp L Q) (g p)) (h @ [Section p (fst (g p))]))"
| "wp L Q (LockSave m) = wp L Q m"
| "wp L Q (UnlockSave m) = wp L Q m"
| "wp L Q (CallNow k) = (\<lambda>h. \<forall>r. wp L Q (k r) h)"
| "wp L Q (CallRange K k) = (\<lambda>h. \<forall>r. wp L Q (k r) h)"
| "wp L Q (CallClaim sp k) = (\<lambda>h. \<forall>r. wp L Q (k r) h)"
| "wp L Q (CallRelease c x t k) = (\<lambda>h. L h (Release c x t) \<and> (\<forall>r. wp L Q (k r) (h @ [Release c x t])))"
| "wp L Q (CallList k) = (\<lambda>h. \<forall>r. wp L Q (k r) h)"
| "wp L Q (CallGet v ns n k) =
     (\<lambda>h. \<forall>r. L h (Lookup v ns n r) \<and> wp L Q (k r) (h @ [Lookup v ns n r]))"
| "wp L Q (CallFs op k) = (\<lambda>h. \<forall>r. wp L Q (k r) h)"
| "wp L Q (CallRead k) = (\<lambda>h. \<forall>r. wp L Q (k r) h)"
| "wp L Q (CallNotify pd m) = wp L Q m"

lemma wp_bind [simp]: "wp L Q (bind m f) = wp L (\<lambda>a. wp L Q (f a)) m"
proof (induction m)
  case (Locked g)
  have "snd (map_prod id (wp L Q) (map_prod id (\<lambda>m. bind m f) (g p))) = snd (map_prod id (wp L (\<lambda>a. wp L Q (f a))) (g p))"
    for p
  proof -
    obtain p' m where g: "g p = (p', m)" by (cases "g p")
    then have "m \<in> Basic_BNFs.snds (g p)" by (simp add: snds.intros)
    from Locked.IH [OF rangeI this] g show ?thesis by simp
  qed
  then show ?case by simp
qed simp_all

lemma wp_mono:
  assumes "wp L Q m h" "\<And>h a. L h a \<Longrightarrow> L' h a" "\<And>a h. Q a h \<Longrightarrow> Q' a h"
  shows "wp L' Q' m h"
  using assms(1)
proof (induction m arbitrary: h)
  case (Locked g)
  show ?case unfolding wp.simps
  proof (intro allI conjI)
    fix p
    obtain p' m where g: "g p = (p', m)" by (cases "g p")
    then have m: "m \<in> Basic_BNFs.snds (g p)" by (simp add: snds.intros)
    from Locked.prems have "L h (Section p p') \<and> wp L Q m (h @ [Section p p'])" by (auto simp: g dest: spec [of _ p])
    with Locked.IH [OF rangeI m] assms(2)
    show "L' h (Section p (fst (g p)))" "snd (map_prod id (wp L' Q') (g p)) (h @ [Section p (fst (g p))])"
      by (simp_all add: g)
  qed
qed (auto simp: assms(2,3))

lemma wp_astep:
  assumes "astep S i m w = Some (w', m')" "wp L Q m h"
  shows "(case action_of S m w of None \<Rightarrow> wp L Q m' h | Some a \<Rightarrow> L h a \<and> wp L Q m' (h @ [a]))"
proof (cases m)
  case (Locked g)
  with assms show ?thesis by (auto split: prod.splits dest: spec [of _ "w_prov w"])
qed (use assms in \<open>auto simp: Let_def split: if_splits\<close>)

text \<open>Every entry of a log is licensed.\<close>

lemma logged_licensed:
  assumes "par_log S (w0, ts0) l (w, ts)" "\<And>i. i < length ts0 \<Longrightarrow> wp (L i) (\<lambda>_ _. True) (ts0 ! i) []"
  shows "length ts = length ts0 \<and> (\<forall>i < length ts0. wp (L i) (\<lambda>_ _. True) (ts ! i) (own_log i l))
    \<and> (\<forall>l1 i a l2. l = l1 @ (i, a) # l2 \<longrightarrow> i < length ts0 \<and> L i (own_log i l1) a)"
  using assms(1)
proof (induction l "(w, ts)" arbitrary: w ts rule: par_log.induct)
  case start
  with assms(2) show ?case by auto
next
  case (act l w ts i w' m')
  from act(2) have len: "length ts = length ts0"
    and ok: "\<And>i. i < length ts0 \<Longrightarrow> wp (L i) (\<lambda>_ _. True) (ts ! i) (own_log i l)"
    and old: "\<And>l1 i a l2. l = l1 @ (i, a) # l2 \<Longrightarrow> i < length ts0 \<and> L i (own_log i l1) a" by blast+
  from act(3) len have i: "i < length ts0" by simp
  note s = wp_astep [OF act(4) ok [OF i]]
  let ?e = "entry i (action_of S (ts ! i) w)"
  have "wp (L j) (\<lambda>_ _. True) (ts[i := m'] ! j) (own_log j (l @ ?e))" if "j < length ts0" for j
    using s ok [OF that] that len by (cases "j = i") (auto simp: entry_def split: option.splits)
  moreover have "j < length ts0 \<and> L j (own_log j l1) a" if e: "l @ ?e = l1 @ (j, a) # l2" for l1 j a l2
  proof (cases "l2 = [] \<and> ?e \<noteq> []")
    case True
    with e s i show ?thesis by (auto simp: entry_def split: option.splits)
  next
    case False
    then have "\<exists>l2'. l = l1 @ (j, a) # l2'"
      using e by (cases l2 rule: rev_cases) (auto simp: entry_def split: option.splits)
    with old show ?thesis by blast
  qed
  ultimately show ?case by (simp add: len)
qed

text \<open>The sections of a log are the history of the table.\<close>

lemma logged_queue:
  assumes "par_log S (w0, ts0) l (w, ts)" "c \<in> set (pv_releasing (w_prov w))"
  shows "c \<in> set (pv_releasing (w_prov w0))
    \<or> (\<exists>l1 j p p' l2. l = l1 @ (j, Section p p') # l2 \<and> c \<in> set (pv_releasing p') - set (pv_releasing p))"
  using assms
proof (induction l "(w, ts)" arbitrary: w ts rule: par_log.induct)
  case (act l w ts i w' m')
  show ?case
  proof (cases "c \<in> set (pv_releasing (w_prov w))")
    case True
    with act(2) show ?thesis by fastforce
  next
    case False
    with astep_section [OF act(4)] act(5) obtain p p' where
      "action_of S (ts ! i) w = Some (Section p p')" "c \<in> set (pv_releasing p') - set (pv_releasing p)"
      by (auto split: option.splits act.splits)
    then show ?thesis by (intro disjI2 exI [of _ l] exI [of _ i]) (auto simp: entry_def)
  qed
qed simp

lemma logged_section:
  assumes "par_log S c l c'" "l = l1 @ (i, Section p p') # l2"
  shows "\<exists>w ts. par_log S c l1 (w, ts) \<and> w_prov w = p"
  using assms
proof (induction arbitrary: l2 rule: par_log.induct)
  case (act l w ts j w' m')
  let ?e = "entry j (action_of S (ts ! j) w)"
  show ?case
  proof (cases "l2 = [] \<and> ?e \<noteq> []")
    case True
    with act.prems have "action_of S (ts ! j) w = Some (Section p p')" "l = l1"
      by (auto simp: entry_def split: option.splits)
    with astep_section [OF act.hyps(3)] act.hyps(1) show ?thesis by auto
  next
    case False
    then obtain l2' where "l = l1 @ (i, Section p p') # l2'"
      using act.prems by (cases l2 rule: rev_cases) (auto simp: entry_def split: option.splits)
    then show ?thesis by (rule act.IH)
  qed
qed simp

lemma logged_release:
  assumes "par_log S (w0, ts0) l (w, ts)"
  shows "\<exists>es. w_trace w = w_trace w0 @ es
    \<and> (\<forall>cc x t r. EvRelease cc x t r \<in> set es \<longrightarrow> (\<exists>l1 i l2. l = l1 @ (i, Release cc x t) # l2))"
  using assms
proof (induction l "(w, ts)" arbitrary: w ts rule: par_log.induct)
  case (act l w ts i w' m')
  let ?e = "entry i (action_of S (ts ! i) w)"
  from act(2) obtain es where es: "w_trace w = w_trace w0 @ es"
    "\<And>cc x t r. EvRelease cc x t r \<in> set es \<Longrightarrow> \<exists>l1 i l2. l = l1 @ (i, Release cc x t) # l2" by blast
  from action_trace [OF act(4)] obtain es' where es': "w_trace w' = w_trace w @ es'"
    "\<And>cc x t r. EvRelease cc x t r \<in> set es' \<Longrightarrow> action_of S (ts ! i) w = Some (Release cc x t)" by blast
  have "\<exists>l1 j l2. l @ ?e = l1 @ (j, Release cc x t) # l2" if "EvRelease cc x t r \<in> set (es @ es')" for cc x t r
  proof (cases "EvRelease cc x t r \<in> set es")
    case True
    from es(2) [OF this] show ?thesis by fastforce
  next
    case False
    with that es'(2) [of cc x t r] have "?e = [(i, Release cc x t)]" by (simp add: entry_def)
    then show ?thesis by blast
  qed
  with es(1) es'(1) show ?case by (intro exI [of _ "es @ es'"]) auto
qed simp

subsection \<open>The vocabulary of the handlers\<close>

lemma wp_locked [simp]:
  "wp L Q (locked f) h = (\<forall>p. L h (Section p (fst (f p))) \<and> Q (snd (f p)) (h @ [Section p (fst (f p))]))"
  by (simp add: locked_def case_prod_beta)

lemma wp_modify [simp]:
  "wp L Q (modify u) h = (\<forall>p. L h (Section p (u p)) \<and> Q () (h @ [Section p (u p)]))"
  by (simp add: modify_def)

lemma wp_reads [simp]:
  "wp L Q (reads f) h = (\<forall>p. L h (Section p p) \<and> Q (f p) (h @ [Section p p]))"
  by (simp add: reads_def)

lemma wp_bind_reads:
  "wp L Q (bind (reads f) k) h = (\<forall>p. L h (Section p p) \<and> wp L Q (k (f p)) (h @ [Section p p]))"
  by simp

lemma wp_calls [simp]:
  "wp L Q lock_save = Q ()"
  "wp L Q unlock_save = Q ()"
  "wp L Q2 now h = (\<forall>r. Q2 r h)"
  "wp L Q3 (range_keys K) h = (\<forall>r. Q3 r h)"
  "wp L Q4 (client_claim sp) h = (\<forall>r. Q4 r h)"
  "wp L Q5 (client_release cc x t) h = (L h (Release cc x t) \<and> (\<forall>r. Q5 r (h @ [Release cc x t])))"
  "wp L Q6 lister_sandboxes h = (\<forall>r. Q6 r h)"
  "wp L Q7 (dyn_get v ns n) h = (\<forall>r. L h (Lookup v ns n r) \<and> Q7 r (h @ [Lookup v ns n r]))"
  "wp L Q8 (fs_call op) h = (\<forall>r. Q8 r h)"
  "wp L Q9 read_file h = (\<forall>r. Q9 r h)"
  "wp L Q10 (call_notifier pd) h = Q10 () h"
  by (simp_all add: lock_save_def unlock_save_def now_def range_keys_def client_claim_def client_release_def
      lister_sandboxes_def dyn_get_def fs_call_def read_file_def call_notifier_def)

lemma wp_for_each:
  assumes "\<And>x a h. x \<in> set xs \<Longrightarrow> I h \<Longrightarrow> wp L (\<lambda>_. I) (body x a) h" "I h"
  shows "wp L (\<lambda>_. I) (for_each body xs a) h"
  using assms
proof (induction xs arbitrary: a h)
  case (Cons x xs)
  have rest: "wp L (\<lambda>_. I) (for_each body xs b) h'" if "I h'" for b h'
    by (rule Cons.IH) (use Cons.prems(1) that in auto)
  have "wp L (\<lambda>_. I) (body x a) h" by (rule Cons.prems) (simp_all add: Cons.prems)
  then have "wp L (\<lambda>b. wp L (\<lambda>_. I) (for_each body xs b)) (body x a) h"
    by (rule wp_mono) (auto intro: rest)
  then show ?case by simp
qed simp

lemma wp_ticker:
  assumes "\<And>h. wp L (\<lambda>_ _. True) action h"
  shows "wp L (\<lambda>_ _. True) (run_ticker n action) h"
proof (induction n arbitrary: h)
  case (Suc n)
  have "wp L (\<lambda>go. wp L (\<lambda>_ _. True) (if go then run_ticker n action else Ret ())) action h"
    by (rule wp_mono [OF assms]) (auto simp: Suc.IH)
  then show ?case by simp
qed simp

end
