(* ===== verification/Authority.thy ===== *)
theory Authority
  imports Action_Log Examples
begin

text \<open>
  Authority for every release, in any interleaving: what licenses a worker or the re-check to release a
  sandbox or to put a claim on the release queue, that every handler acts on such a licence only, and that
  hence no process gives back a sandbox without authority.
\<close>

subsection \<open>Licences\<close>

text \<open>
  The apiserver has just answered this goroutine that the owner no longer wants the sandbox; a Pod without
  a controller is its own authority and needs no question.
\<close>

definition owner_gone :: "ext \<Rightarrow> string \<Rightarrow> owner_ref option \<Rightarrow> act list \<Rightarrow> bool" where
  "owner_gone E ns ref inquiry \<longleftrightarrow>
     (case ref of
        None \<Rightarrow> inquiry = []
      | Some r \<Rightarrow> (\<exists>v reply. owner_gvr E (or_apiVersion r) (or_kind r) = Some v
           \<and> inquiry = [Lookup v ns (or_name r) reply] \<and> owner_released E r reply))"

definition op_key :: "pod_op \<Rightarrow> string" where
  "op_key op = pod_key (pod_namespace (op_pod op)) (pod_name (op_pod op))"

text \<open>
  A deletion that releases: the last things the worker did were to find that the Pod is the current one of
  its key, to read the claim of that key, and to ask about the owner.
\<close>

definition deleting :: "ext \<Rightarrow> pod_op list \<Rightarrow> act list \<Rightarrow> string \<Rightarrow> string \<Rightarrow> bool" where
  "deleting E ops h x t \<longleftrightarrow>
     (\<exists>pd h' u p q c inquiry. OpDelete pd \<in> set ops
        \<and> h = h' @ [Section u u, Section p p, Section q q] @ inquiry
        \<and> pod_uid_is_current (op_key (OpDelete pd)) pd u
        \<and> pv_claims p (op_key (OpDelete pd)) = Some c \<and> cl_id c = x \<and> cl_token c = t
        \<and> owner_gone E (pod_namespace pd) (pod_controller pd) inquiry)"

text \<open>
  A claim that was never committed: the worker found or left it tentative and has changed nothing since.
\<close>

definition uncommitted :: "pod_op list \<Rightarrow> act list \<Rightarrow> string \<Rightarrow> string \<Rightarrow> bool" where
  "uncommitted ops h x t \<longleftrightarrow>
     (\<exists>op h1 p p' h2 c. op \<in> set ops \<and> h = h1 @ Section p p' # h2 \<and> (\<forall>a \<in> set h2. \<exists>q. a = Section q q)
        \<and> op_key op \<in> pv_tentative p' \<and> pv_claims p' (op_key op) = Some c \<and> cl_id c = x \<and> cl_token c = t)"

text \<open>The release queue as this goroutine read it.\<close>

definition read_from_queue :: "act list \<Rightarrow> string \<Rightarrow> string \<Rightarrow> bool" where
  "read_from_queue h x t \<longleftrightarrow>
     (\<exists>p c. Section p p \<in> set h \<and> c \<in> set (pv_releasing p) \<and> cl_id c = x \<and> cl_token c = t)"

text \<open>A committed claim whose key a Pod of another authority now takes over.\<close>

definition replaced :: "pod_op list \<Rightarrow> provider \<Rightarrow> claim \<Rightarrow> bool" where
  "replaced ops p c \<longleftrightarrow>
     (\<exists>pd. (OpCreate pd \<in> set ops \<or> OpUpdate pd \<in> set ops) \<and> pv_claims p (op_key (OpCreate pd)) = Some c
        \<and> settled p (op_key (OpCreate pd)) \<and> \<not> adoptable_by c pd)"

text \<open>
  A preserved claim, still without a Pod, whose recorded owner the apiserver has just answered about.
\<close>

definition abandoned :: "ext \<Rightarrow> act list \<Rightarrow> provider \<Rightarrow> claim \<Rightarrow> bool" where
  "abandoned E h p c \<longleftrightarrow>
     (\<exists>key q h' inquiry. Section q q \<in> set h \<and> preserved_claims q key = Some c
        \<and> (\<exists>cur. pv_claims p key = Some cur \<and> cl_id cur = cl_id c) \<and> pv_pods p key = None
        \<and> h = h' @ inquiry \<and> owner_gone E (fst (cut_at (CHR ''/'') key)) (cl_owner c) inquiry)"

fun may_release :: "ext \<Rightarrow> goroutine \<Rightarrow> act list \<Rightarrow> string \<Rightarrow> string \<Rightarrow> bool" where
  "may_release E (Worker k ops) h x t = (deleting E ops h x t \<or> uncommitted ops h x t)"
| "may_release E (OwnerRecheck d n) h x t = read_from_queue h x t"
| "may_release E g h x t = False"

fun may_queue :: "ext \<Rightarrow> goroutine \<Rightarrow> act list \<Rightarrow> provider \<Rightarrow> claim \<Rightarrow> bool" where
  "may_queue E (Worker k ops) h p c = replaced ops p c"
| "may_queue E (OwnerRecheck d n) h p c = abandoned E h p c"
| "may_queue E g h p c = False"

fun licence :: "(act list \<Rightarrow> string \<Rightarrow> string \<Rightarrow> bool) \<Rightarrow> (act list \<Rightarrow> provider \<Rightarrow> claim \<Rightarrow> bool) \<Rightarrow> act list \<Rightarrow> act \<Rightarrow> bool" where
  "licence rel que h (Section p p') = (\<forall>c \<in> set (pv_releasing p') - set (pv_releasing p). que h p c)"
| "licence rel que h (Release cc x t) = rel h x t"
| "licence rel que h (Lookup v ns n r) = True"

subsection \<open>Programs that need no licence\<close>

abbreviation harmless_act :: "act list \<Rightarrow> act \<Rightarrow> bool" where
  "harmless_act \<equiv> licence (\<lambda>_ _ _. False) (\<lambda>_ _ _. False)"

lemma licence_mono:
  "harmless_act h a \<Longrightarrow> licence rel que h a"
  by (cases a) auto

lemma queue_unchanged [simp]:
  "pv_releasing (drop_claim key i p) = pv_releasing p"
  "pv_releasing (refresh_deadline key i d p) = pv_releasing p"
  "pv_releasing (withdraw_claim key i p) = pv_releasing p"
  "pv_releasing (insert_tentative key pd c p) = pv_releasing p"
  "pv_releasing (clear_tentative key p) = pv_releasing p"
  "pv_releasing (forget_pod key p) = pv_releasing p"
  "pv_releasing (preserve_row key i ow p) = pv_releasing p"
  "pv_releasing (fst (update_section key pd p)) = pv_releasing p"
  "pv_releasing (prune_rechecks m p) = pv_releasing p"
  "pv_releasing (set_recheck key r p) = pv_releasing p"
  "pv_releasing (delete_recheck key p) = pv_releasing p"
  "pv_releasing (set_notifier p) = pv_releasing p"
  "pv_releasing (verify_row live before key p) = pv_releasing p"
  "pv_releasing (fold (verify_row live before) ks p) = pv_releasing p"
proof -
  show v: "pv_releasing (verify_row live before key p) = pv_releasing p" for key p
    by (auto simp: verify_row_def Let_def split: option.splits)
  show "pv_releasing (fold (verify_row live before) ks p) = pv_releasing p"
    by (induction ks arbitrary: p) (simp_all add: v)
qed (auto simp: drop_claim_def refresh_deadline_def withdraw_claim_def insert_tentative_def clear_tentative_def
    forget_pod_def preserve_row_def update_section_def prune_rechecks_def set_recheck_def delete_recheck_def
    set_notifier_def Let_def split: option.splits)

abbreviation tame :: "'a prog \<Rightarrow> bool" where
  "tame m \<equiv> (\<forall>h. wp harmless_act (\<lambda>_ _. True) m h)"

lemma wp_tame:
  assumes "tame m" "\<And>a h'. Q a h'"
  shows "wp (licence rel que) Q m h"
  by (rule wp_mono [OF spec [OF assms(1)]]) (simp_all add: licence_mono assms(2))

lemma tame_store: "tame (write_state key)" "tame persist" "tame save_state"
  by (simp_all add: write_state_def persist_def save_state_def split: option.splits)

lemma tame_verify: "tame verify_claims_against_node"
  by (simp add: verify_claims_against_node_def split: sum.splits)

lemma tame_notify: "tame (notify pd)" "tame (push_running pd c)"
  by (simp_all add: push_running_def notify_def Let_def)

lemma tame_create: "tame (resolve_unverified_claim key)" "tame (settle_expired_claim key)"
  by (auto simp: resolve_unverified_claim_def settle_expired_claim_def
      intro!: wp_tame [OF tame_verify] split: option.splits sum.splits)

lemma tame_reads: "tame (get_pod ns n)" "tame get_pods" "tame (get_pod_status E ns n)" "tame claim_addresses"
  by (simp_all add: get_pod_def get_pods_def get_pod_status_def claim_addresses_def split: option.splits prod.splits)

lemma tame_scan: "tame orphan_scan"
  by (simp add: orphan_scan_def Let_def split: sum.splits)

lemma tame_leases: "tame (publish_expired_leases E)"
proof -
  have one: "tame (publish_one E m live key u)" for m live key u
    by (auto simp: publish_one_def intro!: wp_tame [OF tame_notify(1)] split: option.splits)
  have "tame (for_each (publish_one E m live) ks u)" for m live ks u
    by (intro allI wp_for_each [where I = "\<lambda>_. True"] spec [OF one] TrueI)
  then show ?thesis by (auto simp: publish_expired_leases_def split: sum.splits)
qed

subsection \<open>The handlers act on a licence\<close>

abbreviation worker_licence :: "ext \<Rightarrow> pod_op list \<Rightarrow> act list \<Rightarrow> act \<Rightarrow> bool" where
  "worker_licence E ops \<equiv> licence (\<lambda>h x t. deleting E ops h x t \<or> uncommitted ops h x t) (\<lambda>_. replaced ops)"

lemma wp_authorized:
  "wp (licence rel que) (\<lambda>vr h'. \<exists>i. h' = h @ i \<and> (fst vr = AuthRelease \<longrightarrow> owner_gone E ns ref i))
     (destroy_authorized E dyn ns ref) h"
  by (auto simp: destroy_authorized_def owner_gone_def judge_owner_release split: option.splits)

lemma wp_delete:
  assumes "OpDelete pd \<in> set ops"
  shows "wp (worker_licence E ops) (\<lambda>_ _. True) (delete_pod E pd) h"
proof -
  let ?key = "pod_key (pod_namespace pd) (pod_name pd)" and ?L = "worker_licence E ops" and ?T = "\<lambda>_ _. True"
  let ?go = "\<lambda>c. bind (client_release CallerCtx (cl_id c) (cl_token c)) (\<lambda>r.
         case r of Some e \<Rightarrow> Ret (Some (ErrRelease (cl_id c) ?key e))
         | None \<Rightarrow> bind (modify (withdraw_claim ?key (cl_id c))) (\<lambda>_. bind save_state (\<lambda>_. Ret None)))"
  let ?keep = "\<lambda>c. bind (preserve_claim ?key (cl_id c) (pod_controller pd)) (\<lambda>_. Ret None)"
  let ?act_on = "\<lambda>c vr. case vr of (v, reason) \<Rightarrow> if v \<noteq> AuthRelease then ?keep c else ?go c"
  have go: "wp ?L ?T (?go c) h'" if "deleting E ops h' (cl_id c) (cl_token c)" for c h'
    using that by (auto intro!: wp_tame [OF tame_store(3)] split: option.splits)
  have keep: "wp ?L ?T (?keep c) h'" for c h'
    by (auto simp: preserve_claim_def intro!: wp_tame [OF tame_store(3)])
  have judged: "wp ?L (\<lambda>vr. wp ?L ?T (?act_on c vr))
      (destroy_authorized E (pv_dyn q) (pod_namespace pd) (pod_controller pd)) (h @ [Section u u, Section p p, Section q q])"
    if st: "pod_uid_is_current ?key pd u" "pv_claims p ?key = Some c" for u p q c
  proof (rule wp_mono [OF wp_authorized])
    fix vr h'
    assume vr: "\<exists>i. h' = (h @ [Section u u, Section p p, Section q q]) @ i
      \<and> (fst vr = AuthRelease \<longrightarrow> owner_gone E (pod_namespace pd) (pod_controller pd) i)"
    have "deleting E ops h' (cl_id c) (cl_token c)" if "fst vr = AuthRelease"
      using vr that assms st unfolding deleting_def op_key_def by fastforce
    with go keep show "wp ?L ?T (?act_on c vr) h'" by (cases vr) (auto simp del: wp_bind)
  qed simp
  have "wp ?L ?T (bind (reads pv_dyn) (\<lambda>dyn.
      bind (destroy_authorized E dyn (pod_namespace pd) (pod_controller pd)) (?act_on c))) (h @ [Section u u, Section p p])"
    if "pod_uid_is_current ?key pd u" "pv_claims p ?key = Some c" for u p c
    using judged [OF that] by simp
  moreover have "wp ?L ?T (bind (modify (forget_pod ?key)) (\<lambda>_. Ret None)) h'" for h' by simp
  ultimately show ?thesis
    unfolding delete_pod_def Let_def
    by (auto simp: held_claim_for_def wp_bind_reads simp del: wp_bind split: option.splits)
qed

lemma wp_commit:
  "wp (licence rel que)
     (\<lambda>r h'. r \<noteq> None \<longrightarrow> (\<exists>h2. h' = h @ h2 \<and> (\<forall>a \<in> set h2. \<exists>q. a = Section q q))) (commit_claim key) h"
  by (auto simp: commit_claim_def write_state_def split: option.splits)

lemma wp_claim_fresh:
  assumes "op \<in> set ops" "key = op_key op"
  shows "wp (worker_licence E ops) (\<lambda>_ _. True) (claim_fresh E key pd) h"
proof -
  have undo: "wp (worker_licence E ops) (\<lambda>_ _. True) (undo_unpersisted_claim key c e) h'"
    if "uncommitted ops h' (cl_id c) (cl_token c)" for c e h'
    using that by (auto simp: undo_unpersisted_claim_def release_detached_def split: option.splits)
  have "wp (worker_licence E ops) (\<lambda>r. wp (worker_licence E ops) (\<lambda>_ _. True)
      (case r of Some e \<Rightarrow> undo_unpersisted_claim key c e | None \<Rightarrow> bind (push_running pd c) (\<lambda>_. Ret None)))
      (commit_claim key) (h @ [Section p (insert_tentative key pd c p)])" for c p
  proof (rule wp_mono [OF wp_commit])
    fix r :: "save_error option" and h'
    assume r: "r \<noteq> None \<longrightarrow> (\<exists>h2. h' = (h @ [Section p (insert_tentative key pd c p)]) @ h2
      \<and> (\<forall>a \<in> set h2. \<exists>q. a = Section q q))"
    have "uncommitted ops h' (cl_id c) (cl_token c)" if "r \<noteq> None"
    proof -
      from r that obtain h2 where h2: "h' = h @ Section p (insert_tentative key pd c p) # h2"
        "\<forall>a \<in> set h2. \<exists>q. a = Section q q" by auto
      show ?thesis unfolding uncommitted_def
        by (rule exI [of _ op], rule exI [of _ h], rule exI [of _ p],
            rule exI [of _ "insert_tentative key pd c p"], rule exI [of _ h2])
          (use h2 assms in \<open>simp add: insert_tentative_def\<close>)
    qed
    then show "wp (worker_licence E ops) (\<lambda>_ _. True)
      (case r of Some e \<Rightarrow> undo_unpersisted_claim key c e | None \<Rightarrow> bind (push_running pd c) (\<lambda>_. Ret None)) h'"
      using undo by (auto intro!: wp_tame [OF tame_notify(2)] split: option.splits)
  qed simp
  then show ?thesis by (auto simp: claim_fresh_def Let_def split: sum.splits)
qed

lemma wp_stranded:
  assumes "op \<in> set ops" "key = op_key op"
  shows "wp (worker_licence E ops) (\<lambda>_ _. True) (clear_stranded_claim key) h"
proof -
  have "uncommitted ops (h @ [Section p p]) (cl_id c) (cl_token c)"
    if "pv_claims p key = Some c" "key \<in> pv_tentative p" for p c
    unfolding uncommitted_def
    by (rule exI [of _ op], rule exI [of _ h], rule exI [of _ p], rule exI [of _ p], rule exI [of _ "[]"])
      (use that assms in simp)
  then show ?thesis
    by (auto simp: clear_stranded_claim_def release_detached_def split: option.splits)
qed

lemma wp_adopt:
  assumes "OpCreate pd \<in> set ops \<or> OpUpdate pd \<in> set ops" "key = op_key (OpCreate pd)"
    and "\<And>r h'. Q r h'"
  shows "wp (worker_licence E ops) Q (locked (adopt_existing_claim key pd)) h"
proof -
  have "replaced ops p c" if "c \<in> set (pv_releasing (fst (adopt_existing_claim key pd p))) - set (pv_releasing p)" for p c
    using that assms(1,2) unfolding replaced_def adopt_existing_claim_def
    by (cases "pv_claims p key") (auto split: if_splits)
  then show ?thesis by (simp add: assms(3))
qed

lemma wp_check:
  assumes "wp L (\<lambda>_ _. True) m h" "\<And>h'. wp L (\<lambda>_ _. True) k h'"
  shows "wp L (\<lambda>_ _. True) (check m k) h"
proof -
  have "wp L (\<lambda>e. wp L (\<lambda>_ _. True) (case e of Some x \<Rightarrow> Ret (Some x) | None \<Rightarrow> k)) m h"
    by (rule wp_mono [OF assms(1)]) (auto simp: assms(2) split: option.splits)
  then show ?thesis by (simp add: check_def)
qed

lemma wp_create:
  assumes "OpCreate pd \<in> set ops \<or> OpUpdate pd \<in> set ops"
  shows "wp (worker_licence E ops) (\<lambda>_ _. True) (create_pod E pd) h"
proof -
  let ?key = "pod_key (pod_namespace pd) (pod_name pd)" and ?L = "worker_licence E ops" and ?T = "\<lambda>_ _. True"
  obtain op where op: "op \<in> set ops" "?key = op_key op" "?key = op_key (OpCreate pd)"
    using assms by (metis op_key_def op_pod.simps(1,2))
  have fresh: "wp ?L ?T (check (clear_stranded_claim ?key) (claim_fresh E ?key pd)) h'" for h'
    by (intro wp_check wp_stranded [OF op(1,2)] wp_claim_fresh [OF op(1,2)])
  have kept: "wp ?L ?T (bind save_state (\<lambda>_. bind (push_running pd c) (\<lambda>_. Ret None))) h'" for c h'
    unfolding wp_bind by (intro wp_tame [OF tame_store(3)] wp_tame [OF tame_notify(2)]) simp
  have adopt: "wp ?L ?T (bind (locked (adopt_existing_claim ?key pd)) (\<lambda>r. case r of
      Some c \<Rightarrow> bind save_state (\<lambda>_. bind (push_running pd c) (\<lambda>_. Ret None))
    | None \<Rightarrow> check (clear_stranded_claim ?key) (claim_fresh E ?key pd))) h'" for h'
    unfolding wp_bind [where m = "locked _"]
  proof (rule wp_adopt [OF assms op(3)])
    fix r h'
    show "wp ?L ?T (case r of Some c \<Rightarrow> bind save_state (\<lambda>_. bind (push_running pd c) (\<lambda>_. Ret None))
        | None \<Rightarrow> check (clear_stranded_claim ?key) (claim_fresh E ?key pd)) h'"
      using fresh kept by (cases r) (simp_all del: wp_bind)
  qed
  have "wp ?L ?T (check (resolve_unverified_claim ?key) (check (settle_expired_claim ?key) (
      bind (locked (adopt_existing_claim ?key pd)) (\<lambda>r. case r of
          Some c \<Rightarrow> bind save_state (\<lambda>_. bind (push_running pd c) (\<lambda>_. Ret None))
        | None \<Rightarrow> check (clear_stranded_claim ?key) (claim_fresh E ?key pd))))) h"
    by (intro wp_check wp_tame [OF tame_create(1)] wp_tame [OF tame_create(2)] adopt TrueI)
  then show ?thesis by (simp add: create_pod_def Let_def del: wp_bind)
qed

lemma wp_update:
  assumes "OpUpdate pd \<in> set ops"
  shows "wp (worker_licence E ops) (\<lambda>_ _. True) (update_pod E pd) h"
  using wp_create [of pd ops] assms by (auto simp: update_pod_def Let_def)

lemma wp_worker: "wp (worker_licence E ops) (\<lambda>_ _. True) (goroutine_prog E (Worker k ops)) h"
proof -
  have "wp (worker_licence E ops) (\<lambda>_ _. True) (run_op E op) h'" if "op \<in> set ops" for op h'
  proof (cases op)
    case (OpCreate pd)
    with that wp_create [of pd ops E h'] show ?thesis by simp
  next
    case (OpUpdate pd)
    with that wp_update [of pd ops E h'] show ?thesis by simp
  next
    case (OpDelete pd)
    with that wp_delete [of pd ops E h'] show ?thesis by simp
  qed
  then show ?thesis by (auto intro!: wp_for_each [where I = "\<lambda>_. True"])
qed

subsection \<open>The re-check acts on a licence\<close>

abbreviation recheck_licence :: "ext \<Rightarrow> act list \<Rightarrow> act \<Rightarrow> bool" where
  "recheck_licence E \<equiv> licence read_from_queue (abandoned E)"

lemma wp_drain: "wp (recheck_licence E) (\<lambda>_ _. True) drain_releases h"
proof -
  let ?I = "\<lambda>cs h. \<forall>c \<in> set cs. read_from_queue h (cl_id c) (cl_token c)"
  have later: "read_from_queue (h @ h') x t" if "read_from_queue h x t" for h h' x t
    using that by (fastforce simp: read_from_queue_def)
  have "wp (recheck_licence E) (\<lambda>_. ?I cs) (drain_one c b) h" if "c \<in> set cs" "?I cs h" for c cs b h
    using that by (auto simp: drain_one_def remove_released_def later split: option.splits)
  then have "wp (recheck_licence E) (\<lambda>_. ?I cs) (for_each drain_one cs b) h" if "?I cs h" for cs b h
    using that by (rule wp_for_each)
  then have "wp (recheck_licence E) (\<lambda>_ _. True) (for_each drain_one cs b) h" if "?I cs h" for cs b h
    by (rule wp_mono) (use that in auto)
  moreover have "?I (pv_releasing p) (h @ [Section p p])" for p by (auto simp: read_from_queue_def)
  ultimately show ?thesis by (simp add: drain_releases_def)
qed

lemma wp_recheck_one:
  assumes "Section q q \<in> set h"
  shows "wp (recheck_licence E) (\<lambda>_ h'. Section q q \<in> set h') (recheck_one E t base (preserved_claims q) key b) h"
    (is "wp ?L ?I _ _")
proof (cases "preserved_claims q key")
  case None
  with assms show ?thesis by (simp add: recheck_one_def)
next
  case (Some c)
  let ?move = "bind (locked (withdraw_for_release key c)) (\<lambda>moved.
      bind (modify (delete_recheck key)) (\<lambda>_. Ret (b \<or> moved)))"
  have move: "wp ?L ?I ?move h'"
    if "Section q q \<in> set h'" "h' = h0 @ i" "owner_gone E (fst (cut_at (CHR ''/'') key)) (cl_owner c) i" for h' h0 i
  proof -
    have "abandoned E h' p c'"
      if "c' \<in> set (pv_releasing (fst (withdraw_for_release key c p))) - set (pv_releasing p)" for p c'
      using that \<open>Section q q \<in> set h'\<close> \<open>h' = h0 @ i\<close> \<open>owner_gone E _ _ i\<close> Some
      unfolding abandoned_def withdraw_for_release_def
      by (cases "pv_claims p key") (auto split: if_splits)
    with that show ?thesis by simp
  qed
  have judged: "wp ?L (\<lambda>vr. wp ?L ?I (case vr of (v, reason) \<Rightarrow> if v \<noteq> AuthRelease
      then bind (modify (set_recheck key r)) (\<lambda>_. Ret b) else ?move))
      (destroy_authorized E d (fst (cut_at (CHR ''/'') key)) (cl_owner c)) h'" if "Section q q \<in> set h'" for r d h'
  proof (rule wp_mono [OF wp_authorized])
    fix vr g
    assume "\<exists>i. g = h' @ i \<and> (fst vr = AuthRelease \<longrightarrow> owner_gone E (fst (cut_at (CHR ''/'') key)) (cl_owner c) i)"
    then obtain i where i: "g = h' @ i"
      "fst vr = AuthRelease \<longrightarrow> owner_gone E (fst (cut_at (CHR ''/'') key)) (cl_owner c) i" by blast
    show "wp ?L ?I (case vr of (v, reason) \<Rightarrow> if v \<noteq> AuthRelease
        then bind (modify (set_recheck key r)) (\<lambda>_. Ret b) else ?move) g"
      using move [OF _ i(1)] i that by (cases vr) (auto simp del: wp_bind simp: wp_bind [where m = "modify _"])
  qed simp
  then show ?thesis using assms by (auto simp: recheck_one_def Some)
qed

lemma wp_recheck: "wp (recheck_licence E) (\<lambda>_ _. True) (recheck_owners E t base) h"
proof -
  let ?L = "recheck_licence E" and ?T = "\<lambda>_ _. True"
  have rest: "wp ?L ?T (bind drain_releases (\<lambda>released. if released \<or> b then save_state else Ret ())) h'" for b h'
  proof -
    have "wp ?L (\<lambda>a. wp ?L ?T (if a \<or> b then save_state else Ret ())) drain_releases h'"
      by (rule wp_mono [OF wp_drain]) (auto intro: wp_tame [OF tame_store(3)])
    then show ?thesis by simp
  qed
  have "wp ?L (\<lambda>b. wp ?L ?T (bind drain_releases (\<lambda>released. if released \<or> b then save_state else Ret ())))
      (for_each (recheck_one E t base (preserved_claims q)) ks b) h'" if "Section q q \<in> set h'" for q ks b h'
    by (rule wp_mono [OF wp_for_each [where I = "\<lambda>h. Section q q \<in> set h"]])
      (use that rest wp_recheck_one in auto)
  then show ?thesis by (simp add: recheck_owners_def del: wp_bind add: wp_bind [where m = "reads _"]
        wp_bind [where m = "modify _"] wp_bind [where m = "range_keys _"] wp_bind [where m = "for_each _ _ _"])
qed

lemma wp_goroutine: "wp (licence (may_release E g) (may_queue E g)) (\<lambda>_ _. True) (goroutine_prog E g) h"
proof (cases g)
  case (Worker k ops)
  have "may_release E g = (\<lambda>h x t. deleting E ops h x t \<or> uncommitted ops h x t)" "may_queue E g = (\<lambda>_. replaced ops)"
    by (simp_all add: Worker fun_eq_iff)
  with wp_worker [of E ops k h] show ?thesis by (simp add: Worker)
next
  case (OwnerRecheck d n)
  have "wp (recheck_licence E) (\<lambda>_ _. True) (run_owner_recheck E d n) h"
    unfolding run_owner_recheck_def
    by (rule wp_ticker) (simp, intro allI wp_mono [OF wp_recheck]; simp)
  moreover have "may_release E g = read_from_queue" "may_queue E g = abandoned E"
    by (simp_all add: OwnerRecheck fun_eq_iff)
  ultimately show ?thesis by (simp add: OwnerRecheck)
next
  case (Verification n)
  have "wp (licence rel que) (\<lambda>_ _. True) (run_claim_verification n) h" for rel que
    unfolding run_claim_verification_def
    by (rule wp_ticker) (auto intro!: wp_tame [OF tame_verify])
  then show ?thesis by (simp add: Verification)
next
  case (OrphanScanner n)
  have "wp (licence rel que) (\<lambda>_ _. True) (run_orphan_scan n) h" for rel que
    unfolding run_orphan_scan_def
    by (rule wp_ticker) (auto intro!: wp_tame [OF tame_scan])
  then show ?thesis by (simp add: OrphanScanner)
next
  case (LeaseWatch n)
  have "wp (licence rel que) (\<lambda>_ _. True) (run_lease_watch E n) h" for rel que
    unfolding run_lease_watch_def
    by (rule wp_ticker) (auto intro!: wp_tame [OF tame_leases])
  then show ?thesis by (simp add: LeaseWatch)
qed (auto intro!: wp_tame [OF tame_reads(1)] wp_tame [OF tame_reads(2)] wp_tame [OF tame_reads(3)] wp_tame [OF tame_reads(4)])

subsection \<open>No release without authority\<close>

text \<open>
  Where a claim in the release queue comes from: it was there at the start, or some goroutine put it there
  on a licence.
\<close>

definition queued_with_authority :: "ext \<Rightarrow> goroutine list \<Rightarrow> provider \<Rightarrow> (nat \<times> act) list \<Rightarrow> claim \<Rightarrow> bool" where
  "queued_with_authority E gs p0 l c \<longleftrightarrow>
     c \<in> set (pv_releasing p0)
     \<or> (\<exists>l1 j p p' l2. l = l1 @ (j, Section p p') # l2 \<and> j < length gs \<and> may_queue E (gs ! j) (own_log j l1) p c)"

lemma process_licensed:
  assumes "par_log S (w0, process E gs) l (w, ts)" "l = l1 @ (i, a) # l2"
  shows "i < length gs \<and> licence (may_release E (gs ! i)) (may_queue E (gs ! i)) (own_log i l1) a"
proof -
  let ?L = "\<lambda>i. licence (may_release E (gs ! i)) (may_queue E (gs ! i))"
  have "wp (?L i) (\<lambda>_ _. True) (process E gs ! i) []" if "i < length (process E gs)" for i
    using that wp_goroutine by (simp add: process_def)
  from logged_licensed [OF assms(1) this]
  have "\<forall>l1 i a l2. l = l1 @ (i, a) # l2 \<longrightarrow> i < length gs \<and> ?L i (own_log i l1) a" by (simp add: process_def)
  with assms(2) show ?thesis by blast
qed

lemma process_queue:
  assumes "par_log S (w0, process E gs) l (w, ts)" "c \<in> set (pv_releasing (w_prov w))"
  shows "queued_with_authority E gs (w_prov w0) l c"
  using logged_queue [OF assms]
proof
  assume "\<exists>l1 j p p' l2. l = l1 @ (j, Section p p') # l2 \<and> c \<in> set (pv_releasing p') - set (pv_releasing p)"
  then obtain l1 j p p' l2 where l: "l = l1 @ (j, Section p p') # l2"
    and c: "c \<in> set (pv_releasing p') - set (pv_releasing p)" by blast
  from process_licensed [OF assms(1) l] c have "j < length gs \<and> may_queue E (gs ! j) (own_log j l1) p c" by simp
  with l show ?thesis unfolding queued_with_authority_def by blast
qed (simp add: queued_with_authority_def)

lemma queued_later: "queued_with_authority E gs p0 l c \<Longrightarrow> queued_with_authority E gs p0 (l @ l') c"
  unfolding queued_with_authority_def by (metis append.assoc append_Cons)

text \<open>
  C9: no sandbox is given back without authority, in any interleaving. For every release request that any
  goroutine of a process sends, there is a log of the schedule in which that goroutine, right before,
  either found the Pod of a requested deletion current, read the claim of its key and had the apiserver's
  evidence that the Pod's owner is gone (none is needed for a Pod without an owner); or held a claim that it
  found or left uncommitted; or took the claim from the release queue, where the claim was when the process
  started, or had been put on evidence about the owner it was preserved for, or because a Pod of
  another authority took over its key.
\<close>

theorem released_with_authority:
  assumes "(par_step S)\<^sup>*\<^sup>* (w0, process E gs) (w, ts)"
    and "w_trace w = w_trace w0 @ es" "EvRelease cc x t r \<in> set es"
  shows "\<exists>l1 i l2. par_log S (w0, process E gs) (l1 @ (i, Release cc x t) # l2) (w, ts) \<and> i < length gs
    \<and> ((\<exists>k ops. gs ! i = Worker k ops
          \<and> (deleting E ops (own_log i l1) x t \<or> uncommitted ops (own_log i l1) x t))
       \<or> (\<exists>c. cl_id c = x \<and> cl_token c = t \<and> queued_with_authority E gs (w_prov w0) l1 c))"
proof -
  obtain l where l: "par_log S (w0, process E gs) l (w, ts)" using schedule_logged [OF assms(1)] ..
  from logged_release [OF l] assms(2)
  have "\<forall>cc x t r. EvRelease cc x t r \<in> set es \<longrightarrow> (\<exists>l1 i l2. l = l1 @ (i, Release cc x t) # l2)" by simp
  with assms(3) obtain l1 i l2 where l12: "l = l1 @ (i, Release cc x t) # l2" by blast
  from process_licensed [OF l l12] have i: "i < length gs" and m: "may_release E (gs ! i) (own_log i l1) x t" by auto
  have "(\<exists>c. cl_id c = x \<and> cl_token c = t \<and> queued_with_authority E gs (w_prov w0) l1 c)"
    if "read_from_queue (own_log i l1) x t"
  proof -
    from that obtain p c where c: "Section p p \<in> set (own_log i l1)" "c \<in> set (pv_releasing p)" "cl_id c = x" "cl_token c = t"
      by (auto simp: read_from_queue_def)
    then have "(i, Section p p) \<in> set l1" by (auto simp: own_log_def)
    then obtain l3 l4 where l34: "l1 = l3 @ (i, Section p p) # l4" by (meson split_list)
    with l12 have "l = l3 @ (i, Section p p) # (l4 @ (i, Release cc x t) # l2)" by simp
    from logged_section [OF l this] obtain w' ts' where "par_log S (w0, process E gs) l3 (w', ts')" "w_prov w' = p" by blast
    with process_queue [of S w0 E gs l3 w' ts' c] c(2) have "queued_with_authority E gs (w_prov w0) l3 c" by simp
    with queued_later [of E gs "w_prov w0" l3 c] c(3,4) show ?thesis by (auto simp: l34)
  qed
  with m have "(\<exists>k ops. gs ! i = Worker k ops \<and> (deleting E ops (own_log i l1) x t \<or> uncommitted ops (own_log i l1) x t))
      \<or> (\<exists>c. cl_id c = x \<and> cl_token c = t \<and> queued_with_authority E gs (w_prov w0) l1 c)"
    by (cases "gs ! i") auto
  with l l12 i show ?thesis by blast
qed

text \<open>A worker that deletes a Pod without an owner: its release is the one the theorem accounts for.\<close>

theorem released_with_authority_witness:
  "\<exists>w l1 i l2. par_log demo (demo_held, process demo_ext [Worker ''ns/a'' [OpDelete demo_pod]])
      (l1 @ (i, Release CallerCtx ''x'' ''t'') # l2) (w, [Ret ()])
    \<and> (deleting demo_ext [OpDelete demo_pod] (own_log i l1) ''x'' ''t''
       \<or> uncommitted [OpDelete demo_pod] (own_log i l1) ''x'' ''t'')"
proof -
  let ?g = "Worker ''ns/a'' [OpDelete demo_pod]"
  obtain w where w: "run demo (goroutine_prog demo_ext ?g) demo_held = Some ((), w)"
    "EvRelease CallerCtx ''x'' ''t'' None \<in> set (w_trace w)"
    by (auto simp: delete_pod_def pod_uid_is_current_def held_claim_for_def destroy_authorized_def demo_claimed_def
        save_state_def persist_def write_state_def pod_key_def Let_def withdraw_claim_def)
  from solo_pool [OF run_solo [OF w(1)], of "[]"]
  have "(par_step demo)\<^sup>*\<^sup>* (demo_held, process demo_ext [?g]) (w, [Ret ()])" by (simp add: process_def)
  from released_with_authority [OF this, of "w_trace w" CallerCtx "''x''" "''t''" None] w(2)
  show ?thesis
    by (fastforce simp: queued_with_authority_def replaced_def)
qed

end
