(* ===== verification/Self_Signed.thy ===== *)
theory Self_Signed
  imports VK_Prelude "HOL-Library.Word"
begin

text \<open>
  The in-memory certificate of the kubelet API (\<^verbatim>\<open>selfsigned.go\<close>), with \<^verbatim>\<open>net.ParseIP\<close>, which decides
  which of the hosts it names are addresses. Keys, signatures and encodings are answers of the outside:
  the theory is about which certificate is asked for and which errors come back.
\<close>

subsection \<open>net.ParseIP\<close>

type_synonym ip = "8 word list"

text \<open>
  The four fields of a dotted address: \<open>v\<close> and \<open>digs\<close> are the value and the number of digits of the
  current field, \<open>fs\<close> the fields before it. A field is empty when the address starts with a dot or has
  two in a row.
\<close>

fun parse_ipv4_fields :: "nat \<Rightarrow> nat \<Rightarrow> ip \<Rightarrow> string \<Rightarrow> ip option" where
  "parse_ipv4_fields v digs fs [] = (if length fs < 3 then None else Some (fs @ [of_nat v]))"
| "parse_ipv4_fields v digs fs (c # cs) =
     (case digit_val c of
        Some d \<Rightarrow>
          if digs = 1 \<and> v = 0 then None
          else if v * 10 + d > 255 then None
          else parse_ipv4_fields (v * 10 + d) (Suc digs) fs cs
      | None \<Rightarrow>
          if c \<noteq> CHR ''.'' then None
          else if digs = 0 \<or> cs = [] then None
          else if length fs = 3 then None
          else parse_ipv4_fields 0 0 (fs @ [of_nat v]) cs)"

text \<open>An IPv4 address as the 16 bytes \<^verbatim>\<open>net.IP\<close> has for it.\<close>

definition in6 :: "ip \<Rightarrow> ip" where
  "in6 fs = replicate 10 0 @ [0xFF, 0xFF] @ fs"

definition hex_val :: "char \<Rightarrow> nat option" where
  "hex_val c =
     (let n = of_char c :: nat in
      if 48 \<le> n \<and> n \<le> 57 then Some (n - 48)
      else if 97 \<le> n \<and> n \<le> 102 then Some (n - 87)
      else if 65 \<le> n \<and> n \<le> 70 then Some (n - 55)
      else None)"

definition is_hex :: "char \<Rightarrow> bool" where
  "is_hex c = (hex_val c \<noteq> None)"

definition hex_num :: "string \<Rightarrow> nat" where
  "hex_num ds = foldl (\<lambda>acc c. 16 * acc + the (hex_val c)) 0 ds"

text \<open>
  The loop over the groups of an IPv6 address: the bytes so far, the position of the ellipsis if one was
  seen, and the rest of the text. A last group may be a dotted IPv4 address.
\<close>

function parse_ipv6_loop :: "ip \<Rightarrow> nat option \<Rightarrow> string \<Rightarrow> (ip \<times> nat option \<times> string) option" where
  "parse_ipv6_loop bytes ellipsis s =
     (if length bytes \<ge> 16 then Some (bytes, ellipsis, s)
      else
        let ds = takeWhile is_hex s; rest = dropWhile is_hex s;
            bytes' = bytes @ [of_nat (hex_num ds div 256), of_nat (hex_num ds mod 256)]
        in if length ds > 4 \<or> ds = [] then None
           else
             (case rest of
                [] \<Rightarrow> Some (bytes', ellipsis, [])
              | c # s1 \<Rightarrow>
                  if c = CHR ''.'' then
                    if ellipsis = None \<and> length bytes \<noteq> 12 then None
                    else if length bytes + 4 > 16 then None
                    else map_option (\<lambda>fs. (bytes @ fs, ellipsis, [])) (parse_ipv4_fields 0 0 [] s)
                  else if c \<noteq> CHR '':'' then None
                  else
                    (case s1 of
                       [] \<Rightarrow> None
                     | d # s2 \<Rightarrow>
                         if d \<noteq> CHR '':'' then parse_ipv6_loop bytes' ellipsis s1
                         else if ellipsis \<noteq> None then None
                         else if s2 = [] then Some (bytes', Some (length bytes'), [])
                         else parse_ipv6_loop bytes' (Some (length bytes')) s2)))"
  by pat_completeness auto
termination
proof (relation "measure (\<lambda>(_, _, s). length s)", goal_cases)
  case (2 bytes ellipsis s ds rest bytes' c s1 d s2)
  then have "length (c # s1) \<le> length s" using length_dropWhile_le [of is_hex s] by metis
  then show ?case by simp
next
  case (3 bytes ellipsis s ds rest bytes' c s1 d s2)
  then have "length (c # d # s2) \<le> length s" using length_dropWhile_le [of is_hex s] by metis
  then show ?case by simp
qed simp

declare parse_ipv6_loop.simps [simp del]

text \<open>The address and its zone.\<close>

definition parse_ipv6 :: "string \<Rightarrow> (ip \<times> string) option" where
  "parse_ipv6 inp =
     (let (s, zone, zoned) = cut_at CHR ''%'' inp in
      if zoned \<and> zone = '''' then None
      else
        let (ellipsis, s) = (if take 2 s = ''::'' then (Some 0, drop 2 s) else (None, s)) in
        if ellipsis = Some 0 \<and> s = [] then Some (replicate 16 0, zone)
        else
          (case parse_ipv6_loop [] ellipsis s of
             None \<Rightarrow> None
           | Some (bytes, ell, rest) \<Rightarrow>
               if rest \<noteq> [] then None
               else if length bytes < 16 then
                 (case ell of
                    None \<Rightarrow> None
                  | Some k \<Rightarrow> Some (take k bytes @ replicate (16 - length bytes) 0 @ drop k bytes, zone))
               else if ell \<noteq> None then None
               else Some (bytes, zone)))"

definition parse_addr :: "string \<Rightarrow> (ip \<times> string) option" where
  "parse_addr s =
     (case List.find (\<lambda>c. c = CHR ''.'' \<or> c = CHR '':'' \<or> c = CHR ''%'') s of
        None \<Rightarrow> None
      | Some c \<Rightarrow>
          if c = CHR ''.'' then map_option (\<lambda>fs. (in6 fs, '''')) (parse_ipv4_fields 0 0 [] s)
          else if c = CHR '':'' then parse_ipv6 s
          else None)"

definition parse_ip :: "string \<Rightarrow> ip option" where
  "parse_ip s = (case parse_addr s of Some (b, zone) \<Rightarrow> if zone = '''' then Some b else None | None \<Rightarrow> None)"

subsection \<open>The certificate\<close>

record cert_template =
  ct_serial :: nat
  ct_commonName :: string
  ct_notBefore :: gtime
  ct_notAfter :: gtime
  ct_keyUsage :: string
  ct_extKeyUsage :: "string list"
  ct_basicConstraintsValid :: bool
  ct_ipAddresses :: "ip list"
  ct_dnsNames :: "string list"

text \<open>
  What \<^verbatim>\<open>crypto\<close> answers: the key, the serial number, the two readings of the clock, the signed
  certificate, the encoded key and the pair made of the two.
\<close>

record ('k, 'd, 'm, 'c) crypto =
  cy_generateKey :: "err + 'k"
  cy_serial :: "err + nat"
  cy_now1 :: gtime
  cy_now2 :: gtime
  cy_create :: "cert_template \<Rightarrow> 'k \<Rightarrow> err + 'd"
  cy_marshal :: "'k \<Rightarrow> err + 'm"
  cy_keyPair :: "'d \<Rightarrow> 'm \<Rightarrow> err + 'c"

datatype cert_error =
    ErrGenerateKey err | ErrSerial err | ErrCreateCert err | ErrMarshalKey err | ErrKeyPair err

definition hour :: duration where "hour = 60 * minute"

definition add_host :: "string \<Rightarrow> cert_template \<Rightarrow> cert_template" where
  "add_host h t =
     (if h = '''' then t
      else case parse_ip h of
             Some a \<Rightarrow> t\<lparr>ct_ipAddresses := ct_ipAddresses t @ [a]\<rparr>
           | None \<Rightarrow> t\<lparr>ct_dnsNames := ct_dnsNames t @ [h]\<rparr>)"

definition cert_for :: "nat \<Rightarrow> gtime \<Rightarrow> gtime \<Rightarrow> string list \<Rightarrow> cert_template" where
  "cert_for serial now1 now2 hosts =
     fold add_host hosts
       \<lparr>ct_serial = serial, ct_commonName = ''vk-sandbox'', ct_notBefore = now1 + wrap64 (- hour),
        ct_notAfter = now2 + wrap64 (10 * 365 * 24 * hour), ct_keyUsage = ''DigitalSignature'',
        ct_extKeyUsage = [''ServerAuth''], ct_basicConstraintsValid = True, ct_ipAddresses = [], ct_dnsNames = []\<rparr>"

definition self_signed_cert :: "('k, 'd, 'm, 'c) crypto \<Rightarrow> string list \<Rightarrow> cert_error + 'c" where
  "self_signed_cert Y hosts =
     (case cy_generateKey Y of
        Inl e \<Rightarrow> Inl (ErrGenerateKey e)
      | Inr priv \<Rightarrow>
          (case cy_serial Y of
             Inl e \<Rightarrow> Inl (ErrSerial e)
           | Inr serial \<Rightarrow>
               (case cy_create Y (cert_for serial (cy_now1 Y) (cy_now2 Y) hosts) priv of
                  Inl e \<Rightarrow> Inl (ErrCreateCert e)
                | Inr der \<Rightarrow>
                    (case cy_marshal Y priv of
                       Inl e \<Rightarrow> Inl (ErrMarshalKey e)
                     | Inr keyDER \<Rightarrow>
                         (case cy_keyPair Y der keyDER of
                            Inl e \<Rightarrow> Inl (ErrKeyPair e)
                          | Inr c \<Rightarrow> Inr c)))))"

subsection \<open>Dotted addresses are read back\<close>

definition dotted :: "8 word \<Rightarrow> 8 word \<Rightarrow> 8 word \<Rightarrow> 8 word \<Rightarrow> string" where
  "dotted a b c d =
     decimal (unat a) @ ''.'' @ decimal (unat b) @ ''.'' @ decimal (unat c) @ ''.'' @ decimal (unat d)"

definition demo_crypto :: "(unit, cert_template, unit, cert_template) crypto" where
  "demo_crypto = \<lparr>cy_generateKey = Inr (), cy_serial = Inr 7, cy_now1 = 0, cy_now2 = 0,
     cy_create = (\<lambda>t k. Inr t), cy_marshal = (\<lambda>k. Inr ()), cy_keyPair = (\<lambda>d m. Inr d)\<rparr>"

lemma ipv4_field:
  assumes "n \<le> 255"
  shows "parse_ipv4_fields 0 0 fs (decimal n @ cs) = parse_ipv4_fields n (length (decimal n)) fs cs"
  using assms
proof (induction n arbitrary: cs rule: decimal.induct)
  case (1 n)
  show ?case
  proof (cases "n < 10")
    case True
    then show ?thesis by (simp add: decimal.simps [of n] digit_val_char)
  next
    case False
    then have "n div 10 \<noteq> 0" "n div 10 * 10 + n mod 10 = n" by simp_all
    with 1 False show ?thesis by (simp add: decimal.simps [of n] digit_val_char)
  qed
qed

lemma ipv4_dot:
  "digs \<noteq> 0 \<Longrightarrow> cs \<noteq> [] \<Longrightarrow> length fs < 3 \<Longrightarrow>
     parse_ipv4_fields v digs fs (CHR ''.'' # cs) = parse_ipv4_fields 0 0 (fs @ [of_nat v]) cs"
  by (simp add: digit_val_def)

lemma unat_byte: "unat (a :: 8 word) \<le> 255"
  using unsigned_less [of a, where ?'a = nat] by simp

lemma parse_ipv4_dotted: "parse_ipv4_fields 0 0 [] (dotted a b c d) = Some [a, b, c, d]"
  by (simp add: dotted_def ipv4_field [OF unat_byte] ipv4_dot
      ipv4_field [OF unat_byte, of _ _ "[]", simplified] del: parse_ipv4_fields.simps(2))

lemma digit_not_mark:
  assumes "d < 10"
  shows "digit_char d \<notin> {CHR ''.'', CHR '':'', CHR ''%''}"
proof -
  have "of_char (digit_char d) = 48 + d" using assms by (rule digit_char_inj) simp
  with assms show ?thesis by auto
qed

lemma find_after_digits:
  assumes "\<And>c. c \<in> set ds \<Longrightarrow> \<exists>d < 10. c = digit_char d"
  shows "List.find (\<lambda>c. c = CHR ''.'' \<or> c = CHR '':'' \<or> c = CHR ''%'') (ds @ CHR ''.'' # cs) = Some CHR ''.''"
  using assms
proof (induction ds)
  case (Cons x ds)
  then obtain d where "d < 10" "x = digit_char d" by auto
  with digit_not_mark Cons show ?case by simp
qed simp

lemma parse_ip_dotted: "parse_ip (dotted a b c d) = Some (in6 [a, b, c, d])"
proof -
  have "List.find (\<lambda>c. c = CHR ''.'' \<or> c = CHR '':'' \<or> c = CHR ''%'') (dotted a b c d) = Some CHR ''.''"
    unfolding dotted_def append.simps by (rule find_after_digits) (rule decimal_digits)
  then show ?thesis by (simp add: parse_ip_def parse_addr_def parse_ipv4_dotted)
qed

lemma loopback: "''127.0.0.1'' = dotted 127 0 0 1"
  by (simp add: dotted_def decimal.simps digit_char_def char_of_def bit_0)

lemma cert_for_hosts:
  "ct_ipAddresses (cert_for n t1 t2 hosts) = List.map_filter parse_ip (filter (\<lambda>h. h \<noteq> '''') hosts)
   \<and> ct_dnsNames (cert_for n t1 t2 hosts) = filter (\<lambda>h. h \<noteq> '''' \<and> parse_ip h = None) hosts"
proof -
  have "ct_ipAddresses (fold add_host hosts t) =
      ct_ipAddresses t @ List.map_filter parse_ip (filter (\<lambda>h. h \<noteq> '''') hosts)
    \<and> ct_dnsNames (fold add_host hosts t) =
      ct_dnsNames t @ filter (\<lambda>h. h \<noteq> '''' \<and> parse_ip h = None) hosts" for t
    by (induction hosts arbitrary: t) (auto simp: add_host_def List.map_filter_simps split: option.splits)
  then show ?thesis by (simp add: cert_for_def)
qed

lemma cert_for_times:
  "ct_notBefore (cert_for n t1 t2 hosts) = t1 - 3600 * second
   \<and> ct_notAfter (cert_for n t1 t2 hosts) = t2 + 315360000 * second"
proof -
  have "ct_notBefore (fold add_host hosts t) = ct_notBefore t
    \<and> ct_notAfter (fold add_host hosts t) = ct_notAfter t" for t
    by (induction hosts arbitrary: t) (simp_all add: add_host_def split: option.splits)
  then show ?thesis by (simp add: cert_for_def wrap64_def hour_def minute_def second_def)
qed




end
