(* ===== verification/Go_Numbers.thy ===== *)
theory Go_Numbers
  imports VK_Prelude
begin

text \<open>
  Numbers of the Go standard library beyond decimal integers: floating point, and the parsers behind the
  flags of the binary (\<^verbatim>\<open>strconv.ParseBool\<close>, \<^verbatim>\<open>ParseInt\<close> with base 0, \<^verbatim>\<open>ParseFloat\<close>, \<^verbatim>\<open>time.ParseDuration\<close>).
  Where the library folds the case of a byte and compares with a letter, \<^const>\<open>to_lower_char\<close> decides the same.
\<close>

subsection \<open>Floating point\<close>

text \<open>
  A Go float: not a number, an infinity with its sign, or \<open>m * 2 ^ e\<close>. Conversion to \<^verbatim>\<open>float32\<close> rounds
  to 24 bits, or to a multiple of \<open>2 ^ -149\<close> near zero, half to even, and overflows to an infinity.
\<close>

datatype gofloat = FNaN | FInf bool | FVal int int

fun bits :: "nat \<Rightarrow> nat" where
  "bits n = (if n = 0 then 0 else Suc (bits (n div 2)))"

declare bits.simps [simp del]

definition round_half_even :: "nat \<Rightarrow> nat \<Rightarrow> nat" where
  "round_half_even a k =
     (if k = 0 then a
      else let q = a div 2 ^ k; r = a mod 2 ^ k; h = 2 ^ (k - 1)
           in if r > h \<or> r = h \<and> odd q then Suc q else q)"

fun to_float32 :: "gofloat \<Rightarrow> gofloat" where
  "to_float32 (FVal m e) =
     (let a = nat \<bar>m\<bar>;
          u = max (e + int (bits a) - 24) (- 149);
          (n, x) = (if u \<le> e then (a, e) else (round_half_even a (nat (u - e)), u))
      in if int (bits n) + x > 128 then FInf (m < 0)
         else FVal (if m < 0 then - int n else int n) x)"
| "to_float32 f = f"

fun float_nonzero :: "gofloat \<Rightarrow> bool" where
  "float_nonzero (FVal m e) = (m \<noteq> 0)"
| "float_nonzero f = True"

fun float_negative :: "gofloat \<Rightarrow> bool" where
  "float_negative (FVal m e) = (m < 0)"
| "float_negative (FInf neg) = neg"
| "float_negative FNaN = False"

text \<open>
  The \<^verbatim>\<open>float64\<close> nearest to a ratio: a multiple of \<open>2 ^ u\<close>, where \<open>u\<close> leaves 53 bits of the ratio and is at
  least \<open>-1074\<close>; half goes to even, and what needs an exponent above \<open>1024\<close> is an infinity. Finite values are
  kept with exponent \<open>0\<close> when they are integers and with an odd mantissa otherwise. Zero has no sign.
\<close>

fun reduce :: "nat \<Rightarrow> nat \<Rightarrow> nat \<times> nat" where
  "reduce m 0 = (m, 0)"
| "reduce m (Suc k) = (if even m then reduce (m div 2) k else (m, Suc k))"

definition float_of :: "bool \<Rightarrow> nat \<Rightarrow> int \<Rightarrow> gofloat" where
  "float_of neg q u =
     (let sign = (if neg then - 1 else 1);
          (m, k) = (if 0 \<le> u then (q * 2 ^ nat u, 0) else reduce q (nat (- u)))
      in FVal (sign * int m) (- int k))"

definition scale :: "nat \<Rightarrow> nat \<Rightarrow> int \<Rightarrow> nat \<times> nat" where
  "scale a b u = (if 0 \<le> u then (a, b * 2 ^ nat u) else (a * 2 ^ nat (- u), b))"

definition unit_exponent :: "nat \<Rightarrow> nat \<Rightarrow> int" where
  "unit_exponent a b =
     (let u = int (bits a) - int (bits b) - 53;
          (a', b') = scale a b u
      in max (- 1074) (if 2 ^ 53 * b' \<le> a' then u + 1 else u))"

definition round_ratio :: "nat \<Rightarrow> nat \<Rightarrow> nat" where
  "round_ratio a b =
     (let q = a div b; r = a mod b in if 2 * r > b \<or> 2 * r = b \<and> odd q then Suc q else q)"

definition float64_of_ratio :: "bool \<Rightarrow> nat \<Rightarrow> nat \<Rightarrow> gofloat" where
  "float64_of_ratio neg a b =
     (if a = 0 then FVal 0 0
      else let u = unit_exponent a b; (a', b') = scale a b u; q = round_ratio a' b'
           in if int (bits q) + u > 1024 then FInf neg else float_of neg q u)"

definition float64_of_nat :: "nat \<Rightarrow> gofloat" where
  "float64_of_nat n = float64_of_ratio False n 1"

text \<open>The arithmetic of \<^verbatim>\<open>float64\<close>, on the values the program computes with: none is negative.\<close>

fun float_mult :: "gofloat \<Rightarrow> gofloat \<Rightarrow> gofloat" where
  "float_mult (FVal m e) (FVal n f) =
     (case scale (nat m * nat n) 1 (- (e + f)) of (a, b) \<Rightarrow> float64_of_ratio False a b)"
| "float_mult (FVal m e) (FInf s) = (if m = 0 then FNaN else FInf s)"
| "float_mult (FInf s) (FVal m e) = (if m = 0 then FNaN else FInf s)"
| "float_mult (FInf s) (FInf s') = FInf False"
| "float_mult _ _ = FNaN"

fun float_div :: "gofloat \<Rightarrow> gofloat \<Rightarrow> gofloat" where
  "float_div (FVal m e) (FVal n f) =
     (if n = 0 then (if m = 0 then FNaN else FInf False)
      else case scale (nat m) (nat n) (f - e) of (a, b) \<Rightarrow> float64_of_ratio False a b)"
| "float_div (FVal m e) (FInf s) = FVal 0 0"
| "float_div (FInf s) (FVal m e) = FInf s"
| "float_div _ _ = FNaN"

fun float_trunc :: "gofloat \<Rightarrow> nat" where
  "float_trunc (FVal m e) = (if 0 \<le> e then nat m * 2 ^ nat e else nat m div 2 ^ nat (- e))"
| "float_trunc _ = 0"

subsection \<open>Booleans and integers\<close>

definition parse_bool :: "string \<Rightarrow> bool option" where
  "parse_bool s =
     (if s \<in> {''1'', ''t'', ''T'', ''true'', ''TRUE'', ''True''} then Some True
      else if s \<in> {''0'', ''f'', ''F'', ''false'', ''FALSE'', ''False''} then Some False
      else None)"

definition digit36 :: "char \<Rightarrow> nat option" where
  "digit36 c =
     (case digit_val c of
        Some d \<Rightarrow> Some d
      | None \<Rightarrow> (let n = of_char (to_lower_char c) :: nat in if 97 \<le> n \<and> n \<le> 122 then Some (n - 87) else None))"

definition base_letter :: "char \<Rightarrow> nat option" where
  "base_letter c =
     (let l = to_lower_char c
      in if l = CHR ''b'' then Some 2 else if l = CHR ''o'' then Some 8 else if l = CHR ''x'' then Some 16 else None)"

definition split_sign :: "string \<Rightarrow> bool \<times> string" where
  "split_sign s =
     (case s of
        c # cs \<Rightarrow> if c = CHR ''-'' then (True, cs) else if c = CHR ''+'' then (False, cs) else (False, s)
      | [] \<Rightarrow> (False, s))"

text \<open>
  Underscores may stand between digits, and between a base prefix and a digit. \<open>seen\<close> is the kind of the byte
  before: a digit, an underscore, or something else.
\<close>

datatype seen = SawDigit | SawUnderscore | SawOther

fun underscores_between :: "bool \<Rightarrow> seen \<Rightarrow> string \<Rightarrow> bool" where
  "underscores_between hex saw [] = (saw \<noteq> SawUnderscore)"
| "underscores_between hex saw (c # cs) =
     (if (case digit36 c of Some d \<Rightarrow> d < 10 \<or> hex \<and> d < 16 | None \<Rightarrow> False) then underscores_between hex SawDigit cs
      else if c = CHR ''_'' then saw = SawDigit \<and> underscores_between hex SawUnderscore cs
      else saw \<noteq> SawUnderscore \<and> underscores_between hex SawOther cs)"

definition underscore_ok :: "string \<Rightarrow> bool" where
  "underscore_ok s =
     (let body = snd (split_sign s)
      in case body of
           z # c # cs \<Rightarrow>
             if z = CHR ''0'' \<and> base_letter c \<noteq> None
             then underscores_between (base_letter c = Some 16) SawDigit cs
             else underscores_between False SawOther body
         | _ \<Rightarrow> underscores_between False SawOther body)"

text \<open>\<^verbatim>\<open>strconv.ParseInt(s, 0, bits)\<close>: the base is told by a prefix, and underscores may separate digits.\<close>

definition base_prefix :: "string \<Rightarrow> nat \<times> string" where
  "base_prefix s =
     (case s of
        z # c # d # cs \<Rightarrow>
          if z \<noteq> CHR ''0'' then (10, s)
          else (case base_letter c of Some b \<Rightarrow> (b, d # cs) | None \<Rightarrow> (8, c # d # cs))
      | z # cs \<Rightarrow> if z = CHR ''0'' then (8, cs) else (10, s)
      | [] \<Rightarrow> (10, s))"

fun digits_base :: "nat \<Rightarrow> nat \<Rightarrow> string \<Rightarrow> nat option" where
  "digits_base b acc [] = Some acc"
| "digits_base b acc (c # cs) =
     (if c = CHR ''_'' then digits_base b acc cs
      else case digit36 c of
             Some d \<Rightarrow> if d < b then digits_base b (b * acc + d) cs else None
           | None \<Rightarrow> None)"

definition parse_int0 :: "nat \<Rightarrow> string \<Rightarrow> int option" where
  "parse_int0 w s =
     (let (neg, body) = split_sign s; (b, ds) = base_prefix body
      in if body = '''' then None
         else case digits_base b 0 ds of
                None \<Rightarrow> None
              | Some u \<Rightarrow>
                  if CHR ''_'' \<in> set ds \<and> \<not> underscore_ok body then None
                  else if neg then (if u \<le> 2 ^ (w - 1) then Some (- int u) else None)
                  else (if u < 2 ^ (w - 1) then Some (int u) else None))"

subsection \<open>strconv.ParseFloat\<close>

text \<open>
  Digits with at most one point: their value as a number, how many of them follow the point, whether there is
  any, and what is left.
\<close>

fun scan_mantissa :: "nat \<Rightarrow> bool \<Rightarrow> nat \<Rightarrow> nat \<Rightarrow> bool \<Rightarrow> string \<Rightarrow> nat \<times> nat \<times> bool \<times> string" where
  "scan_mantissa b dot mant nf some [] = (mant, nf, some, [])"
| "scan_mantissa b dot mant nf some (c # cs) =
     (if c = CHR ''_'' then scan_mantissa b dot mant nf some cs
      else if c = CHR ''.'' then (if dot then (mant, nf, some, c # cs) else scan_mantissa b True mant nf some cs)
      else case digit36 c of
             Some d \<Rightarrow> if d < b then scan_mantissa b dot (b * mant + d) (if dot then Suc nf else nf) True cs
                       else (mant, nf, some, c # cs)
           | None \<Rightarrow> (mant, nf, some, c # cs))"

text \<open>The digits of an exponent; from five digits on the value no longer grows.\<close>

fun scan_exponent :: "nat \<Rightarrow> string \<Rightarrow> nat \<times> string" where
  "scan_exponent e [] = (e, [])"
| "scan_exponent e (c # cs) =
     (if c = CHR ''_'' then scan_exponent e cs
      else case digit_val c of
             Some d \<Rightarrow> scan_exponent (if e < 10000 then 10 * e + d else e) cs
           | None \<Rightarrow> (e, c # cs))"

definition read_exponent :: "char \<Rightarrow> string \<Rightarrow> (int \<times> string) option" where
  "read_exponent letter s =
     (case s of
        c # cs \<Rightarrow>
          if to_lower_char c = letter then
            (let (neg, ds) = split_sign cs
             in if ds = [] \<or> digit_val (hd ds) = None then None
                else case scan_exponent 0 ds of (e, left) \<Rightarrow> Some (if neg then - int e else int e, left))
          else Some (0, s)
      | [] \<Rightarrow> Some (0, s))"

text \<open>The sign, and the exact value as a ratio, of a string that is a number as a whole.\<close>

definition read_float :: "string \<Rightarrow> (bool \<times> nat \<times> nat) option" where
  "read_float s =
     (let (neg, body) = split_sign s;
          hex = (case body of z # x # c # cs \<Rightarrow> z = CHR ''0'' \<and> to_lower_char x = CHR ''x'' | _ \<Rightarrow> False);
          (mant, nf, some, left) = scan_mantissa (if hex then 16 else 10) False 0 0 False (if hex then drop 2 body else body)
      in if \<not> some \<or> hex \<and> (left = [] \<or> to_lower_char (hd left) \<noteq> CHR ''p'') then None
         else case read_exponent (if hex then CHR ''p'' else CHR ''e'') left of
                None \<Rightarrow> None
              | Some (e, left') \<Rightarrow>
                  if left' \<noteq> [] \<or> CHR ''_'' \<in> set s \<and> \<not> underscore_ok s then None
                  else if hex then (case scale mant 1 (4 * int nf - e) of (a, b) \<Rightarrow> Some (neg, a, b))
                  else if 0 \<le> e - int nf then Some (neg, mant * 10 ^ nat (e - int nf), 1)
                  else Some (neg, mant, 10 ^ nat (int nf - e)))"

definition parse_float64 :: "string \<Rightarrow> gofloat option" where
  "parse_float64 s =
     (let (neg, body) = split_sign s
      in if to_lower body \<in> {''inf'', ''infinity''} then Some (FInf neg)
         else if to_lower s = ''nan'' then Some FNaN
         else case read_float s of
                None \<Rightarrow> None
              | Some (neg, a, b) \<Rightarrow> (case float64_of_ratio neg a b of FVal m e \<Rightarrow> Some (FVal m e) | _ \<Rightarrow> None))"

subsection \<open>time.ParseDuration\<close>

fun leading_int :: "nat \<Rightarrow> string \<Rightarrow> (nat \<times> string) option" where
  "leading_int x [] = Some (x, [])"
| "leading_int x (c # cs) =
     (case digit_val c of
        None \<Rightarrow> Some (x, c # cs)
      | Some d \<Rightarrow>
          if x > 2 ^ 63 div 10 then None
          else if 10 * x + d > 2 ^ 63 then None else leading_int (10 * x + d) cs)"

text \<open>The digits of a fraction; those that would overflow are passed over.\<close>

fun leading_fraction :: "nat \<Rightarrow> gofloat \<Rightarrow> bool \<Rightarrow> string \<Rightarrow> nat \<times> gofloat \<times> string" where
  "leading_fraction x sc over [] = (x, sc, [])"
| "leading_fraction x sc over (c # cs) =
     (case digit_val c of
        None \<Rightarrow> (x, sc, c # cs)
      | Some d \<Rightarrow>
          if over \<or> x > (2 ^ 63 - 1) div 10 \<or> 10 * x + d > 2 ^ 63 then leading_fraction x sc True cs
          else leading_fraction (10 * x + d) (float_mult sc (FVal 10 0)) False cs)"

definition micro_sign :: string where "micro_sign = [char_of (0xC2 :: nat), char_of (0xB5 :: nat)]"
definition greek_mu :: string where "greek_mu = [char_of (0xCE :: nat), char_of (0xBC :: nat)]"

definition duration_unit :: "string \<Rightarrow> nat option" where
  "duration_unit u =
     map_of [(''ns'', 1), (''us'', 1000), (micro_sign @ ''s'', 1000), (greek_mu @ ''s'', 1000), (''ms'', 1000000),
       (''s'', 1000000000), (''m'', 60000000000), (''h'', 3600000000000)] u"

definition unit_char :: "char \<Rightarrow> bool" where
  "unit_char c = (c \<noteq> CHR ''.'' \<and> digit_val c = None)"

text \<open>One number with its unit, in nanoseconds, and what is left.\<close>

definition duration_part :: "string \<Rightarrow> (nat \<times> string) option" where
  "duration_part s =
     (if s = [] \<or> unit_char (hd s) then None
      else case leading_int 0 s of
        None \<Rightarrow> None
      | Some (v, s1) \<Rightarrow>
          (let dot = (s1 \<noteq> [] \<and> hd s1 = CHR ''.'');
               (f, sc, s2) = (if dot then leading_fraction 0 (FVal 1 0) False (tl s1) else (0, FVal 1 0, s1));
               pre = (length s1 \<noteq> length s);
               post = (dot \<and> length s2 \<noteq> length (tl s1));
               u = takeWhile unit_char s2
           in if \<not> pre \<and> \<not> post \<or> u = [] then None
              else case duration_unit u of
                None \<Rightarrow> None
              | Some unit \<Rightarrow>
                  if v > 2 ^ 63 div unit then None
                  else let v' = v * unit + (if f > 0 then float_trunc (float_mult (float64_of_nat f)
                                  (float_div (float64_of_nat unit) sc)) else 0)
                       in if f > 0 \<and> v' > 2 ^ 63 then None else Some (v', dropWhile unit_char s2)))"

lemma leading_int_rest: "leading_int x s = Some (v, r) \<Longrightarrow> length r \<le> length s"
  by (induction x s rule: leading_int.induct) (fastforce split: option.splits if_splits)+

lemma leading_fraction_rest: "leading_fraction x sc over s = (f, sc', r) \<Longrightarrow> length r \<le> length s"
  by (induction x sc over s rule: leading_fraction.induct) (fastforce split: option.splits if_splits)+

lemma duration_part_rest:
  assumes "duration_part s = Some (v, r)"
  shows "length r < length s"
proof -
  obtain v0 s1 where s1: "leading_int 0 s = Some (v0, s1)"
    using assms by (auto simp: duration_part_def split: option.splits if_splits)
  define x where "x = (if s1 \<noteq> [] \<and> hd s1 = CHR ''.'' then leading_fraction 0 (FVal 1 0) False (tl s1) else (0, FVal 1 0, s1))"
  obtain f sc s2 where x: "x = (f, sc, s2)" by (cases x)
  have "length s2 \<le> length s1"
    using x leading_fraction_rest [of 0 "FVal 1 0" False "tl s1" f sc s2] by (auto simp: x_def split: if_splits)
  moreover have "takeWhile unit_char s2 \<noteq> []" "r = dropWhile unit_char s2"
    using assms x unfolding duration_part_def x_def
    by (auto simp: s1 Let_def split: option.splits if_splits)
  then have "length r < length s2" by (cases s2) (auto simp: length_dropWhile_le le_imp_less_Suc split: if_splits)
  ultimately show ?thesis using leading_int_rest [OF s1] by simp
qed

text \<open>The sum of the parts, at the 64 bits the library adds them with.\<close>

function parse_units :: "nat \<Rightarrow> string \<Rightarrow> nat option" where
  "parse_units d s =
     (if s = [] then Some d
      else case duration_part s of
             None \<Rightarrow> None
           | Some (v, s') \<Rightarrow>
               let d' = (d + v) mod 2 ^ 64 in if d' > 2 ^ 63 then None else parse_units d' s')"
  by pat_completeness auto
termination by (relation "measure (\<lambda>(d, s). length s)") (auto dest: duration_part_rest)

declare parse_units.simps [simp del]

definition parse_duration :: "string \<Rightarrow> duration option" where
  "parse_duration s =
     (let (neg, body) = split_sign s
      in if body = ''0'' then Some 0
         else if body = '''' then None
         else case parse_units 0 body of
                None \<Rightarrow> None
              | Some d \<Rightarrow> if neg then Some (- int d) else if d > 2 ^ 63 - 1 then None else Some (int d))"

subsection \<open>Values are in the range of their type\<close>

lemma parse_int0_range:
  assumes "parse_int0 w s = Some v"
  shows "- (2 ^ (w - 1)) \<le> v \<and> v < 2 ^ (w - 1)"
proof -
  let ?b = "2 ^ (w - 1) :: nat"
  obtain u where u: "v = int u \<and> u < ?b \<or> v = - int u \<and> u \<le> ?b"
    using assms by (auto simp: parse_int0_def Let_def split: option.splits if_splits prod.splits)
  have b: "int ?b = 2 ^ (w - 1)" "0 < int ?b" by simp_all
  from u have "- int ?b \<le> v \<and> v < int ?b" using b(2) by linarith
  with b(1) show ?thesis by simp
qed

lemma parse_units_bound: "parse_units d s = Some v \<Longrightarrow> d \<le> 2 ^ 63 \<Longrightarrow> v \<le> 2 ^ 63"
proof (induction d s rule: parse_units.induct)
  case (1 d s)
  from 1(2) have "parse_units d s = Some v" .
  with 1(3) 1(1) show ?case
    by (subst (asm) parse_units.simps) (auto simp: Let_def split: if_splits option.splits)
qed

lemma parse_duration_range:
  assumes "parse_duration s = Some d"
  shows "- (2 ^ 63) \<le> d \<and> d < 2 ^ 63"
proof -
  obtain neg body where b: "split_sign s = (neg, body)" by (cases "split_sign s")
  consider "d = 0" | v where "parse_units 0 body = Some v" "d = - int v \<or> v \<le> 2 ^ 63 - 1 \<and> d = int v"
    using assms by (auto simp: parse_duration_def b split: if_splits option.splits)
  then show ?thesis
  proof cases
    case 2
    have "v \<le> 2 ^ 63" using parse_units_bound [OF 2(1)] by simp
    then have "int v \<le> 2 ^ 63" by (metis of_nat_le_numeral_power_cancel_iff)
    moreover have "int v < 2 ^ 63" if "v \<le> 2 ^ 63 - 1"
      using that by simp
    ultimately show ?thesis using 2(2) by auto
  qed simp
qed

subsection \<open>Rounding is to nearest\<close>

lemma round_ratio_nearest:
  assumes "0 < b"
  shows "\<bar>2 * int (round_ratio a b * b) - 2 * int a\<bar> \<le> int b"
proof -
  let ?q = "a div b" and ?r = "a mod b"
  have a: "int a = int ?q * int b + int ?r" by (metis div_mult_mod_eq of_nat_add of_nat_mult)
  have r: "int ?r < int b" using assms by simp
  show ?thesis
  proof (cases "2 * ?r > b \<or> 2 * ?r = b \<and> odd ?q")
    case True
    then have "round_ratio a b = Suc ?q" by (simp add: round_ratio_def Let_def)
    then have "2 * int (round_ratio a b * b) - 2 * int a = 2 * (int b - int ?r)"
      by (simp add: a algebra_simps)
    then show ?thesis using True r by auto
  next
    case False
    then have "round_ratio a b = ?q" by (simp add: round_ratio_def Let_def)
    then have "2 * int (round_ratio a b * b) - 2 * int a = - (2 * int ?r)"
      by (simp add: a algebra_simps)
    then show ?thesis using False by auto
  qed
qed

subsection \<open>Integers below 53 bits are exact\<close>

lemma bits_bounds: "0 < n \<Longrightarrow> 2 ^ (bits n - 1) \<le> n \<and> n < 2 ^ bits n \<and> 0 < bits n"
proof (induction n rule: bits.induct)
  case (1 n)
  show ?case
  proof (cases "n div 2 = 0")
    case True
    with 1(2) have "n = 1" by simp
    then show ?thesis by (simp add: bits.simps)
  next
    case False
    with 1 have ih: "2 ^ (bits (n div 2) - 1) \<le> n div 2" "n div 2 < 2 ^ bits (n div 2)" "0 < bits (n div 2)" by auto
    have b: "bits n = Suc (bits (n div 2))" using 1(2) by (simp add: bits.simps [of n])
    have "2 * 2 ^ (bits (n div 2) - 1) = (2 :: nat) ^ bits (n div 2)" using ih(3) by (cases "bits (n div 2)") auto
    with ih b show ?thesis by simp linarith
  qed
qed

lemma bits_le: "n < 2 ^ k \<Longrightarrow> bits n \<le> k"
proof (induction k arbitrary: n)
  case 0
  then show ?case by (simp add: bits.simps)
next
  case (Suc k)
  then have "n div 2 < 2 ^ k" by simp
  with Suc.IH show ?case by (subst bits.simps) auto
qed

lemma reduce_exact: "reduce (n * 2 ^ k) k = (n, 0)"
  by (induction k arbitrary: n) simp_all

lemma float64_of_nat_exact:
  assumes "n < 2 ^ 53"
  shows "float64_of_nat n = FVal (int n) 0"
proof (cases "n = 0")
  case False
  define k where "k = 53 - bits n"
  have b: "bits n \<le> 53" "2 ^ (bits n - 1) \<le> n" "n < 2 ^ bits n" "0 < bits n"
    using bits_le [OF assms] bits_bounds [of n] False by auto
  have one: "bits (Suc 0) = 1" by (simp add: bits.simps)
  have "(2 :: nat) ^ 53 = 2 ^ (bits n - 1) * 2 ^ (54 - bits n)"
    using b by (simp flip: power_add)
  also have "\<dots> \<le> n * 2 ^ (54 - bits n)" using b(2) by (rule mult_right_mono) simp
  finally have big: "(2 :: nat) ^ 53 \<le> n * 2 ^ (54 - bits n)" .
  have u0: "nat (54 - int (bits n)) = 54 - bits n" by simp
  have u: "unit_exponent n (Suc 0) = - int k"
    using big b(1) unfolding unit_exponent_def scale_def one k_def by (auto simp: Let_def u0)
  have k: "nat (int k) = k" by simp
  have "n * 2 ^ k < 2 ^ bits n * 2 ^ k" using b(3) by simp
  also have "\<dots> = 2 ^ 53" using b(1) by (simp add: k_def flip: power_add)
  finally have q: "bits (n * 2 ^ k) \<le> 53" by (rule bits_le)
  have r: "round_ratio a (Suc 0) = a" for a by (simp add: round_ratio_def)
  show ?thesis
  proof (cases "k = 0")
    case True
    then show ?thesis using False u q by (simp add: float64_of_nat_def float64_of_ratio_def Let_def scale_def r float_of_def)
  next
    case k0: False
    then show ?thesis using False u q
      by (simp add: float64_of_nat_def float64_of_ratio_def Let_def scale_def r float_of_def reduce_exact)
  qed
qed (simp add: float64_of_nat_def float64_of_ratio_def)

subsection \<open>What is printed is read back\<close>

lemma digit_char_zero: "digit_char 0 = CHR ''0''"
  by (simp add: digit_char_def char_of_def bit_0)

lemma digit_char_facts:
  assumes "d < 10"
  shows "digit36 (digit_char d) = Some d" "digit_char d \<noteq> CHR ''_''" "digit_char d \<noteq> CHR ''-''"
    "digit_char d \<noteq> CHR ''+''" "digit_char d \<noteq> CHR ''.''" "\<not> unit_char (digit_char d)"
    "digit_char d = CHR ''0'' \<longleftrightarrow> d = 0" "to_lower_char (digit_char d) = digit_char d"
proof -
  have v: "digit_val (digit_char d) = Some d" using assms by (rule digit_val_char)
  then show "digit36 (digit_char d) = Some d" by (simp add: digit36_def)
  show "\<not> unit_char (digit_char d)" using v by (simp add: unit_char_def)
  have c: "of_char (digit_char d) = 48 + d" using assms by (simp add: digit_char_def)
  then show "digit_char d \<noteq> CHR ''_''" "digit_char d \<noteq> CHR ''-''"
    "digit_char d \<noteq> CHR ''+''" "digit_char d \<noteq> CHR ''.''" using assms by auto
  show "digit_char d = CHR ''0'' \<longleftrightarrow> d = 0" using c digit_char_zero by auto
  show "to_lower_char (digit_char d) = digit_char d" using c assms by (simp add: to_lower_char_def)
qed

lemma decimal_head: "\<exists>d ds. decimal n = digit_char d # ds \<and> d < 10 \<and> (d = 0 \<longrightarrow> n = 0 \<and> ds = [])"
proof (induction n rule: decimal.induct)
  case (1 n)
  show ?case
  proof (cases "n < 10")
    case True
    then show ?thesis by (subst decimal.simps) auto
  next
    case False
    with 1 obtain d ds where "decimal (n div 10) = digit_char d # ds" "d < 10" "d = 0 \<longrightarrow> n div 10 = 0 \<and> ds = []" by blast
    with False show ?thesis by (subst decimal.simps) auto
  qed
qed

lemma digits_base_decimal:
  assumes "\<forall>c \<in> set ds. \<exists>d < 10. c = digit_char d"
  shows "digits_base 10 acc ds = digits_val acc ds"
  using assms by (induction acc ds rule: digits_val.induct) (auto simp: digit_char_facts digit_val_char)

definition print_int :: "int \<Rightarrow> string" where
  "print_int v = (if v < 0 then ''-'' @ decimal (nat (- v)) else decimal (nat v))"

lemma split_sign_print: "split_sign (print_int v @ s) = (v < 0, decimal (nat \<bar>v\<bar>) @ s)"
proof -
  obtain d ds where "decimal (nat v) = digit_char d # ds" "d < 10" using decimal_head by blast
  then show ?thesis by (auto simp: split_sign_def print_int_def digit_char_facts)
qed

lemma base_prefix_decimal: "base_prefix (decimal n) = (if n = 0 then (8, []) else (10, decimal n))"
proof -
  obtain d ds where d: "decimal n = digit_char d # ds" "d < 10" "d = 0 \<longrightarrow> n = 0 \<and> ds = []" using decimal_head by blast
  have z: "decimal 0 = [digit_char 0]" "digit_char 0 = CHR ''0''" by (simp_all add: decimal.simps digit_char_zero)
  show ?thesis
  proof (cases "n = 0")
    case True
    then show ?thesis by (simp add: z base_prefix_def)
  next
    case False
    with d have "digit_char d \<noteq> CHR ''0''" by (simp add: digit_char_facts)
    with d False show ?thesis by (auto simp: base_prefix_def split: list.splits)
  qed
qed

lemma parse_int0_print:
  assumes "- (2 ^ (w - 1)) \<le> v" "v < 2 ^ (w - 1)"
  shows "parse_int0 w (print_int v) = Some v"
proof -
  let ?n = "nat \<bar>v\<bar>"
  have ds: "\<forall>c \<in> set (decimal ?n). \<exists>d < 10. c = digit_char d" using decimal_digits by blast
  then have us: "CHR ''_'' \<notin> set (decimal ?n)" using digit_char_facts(2) by metis
  have val: "digits_base 10 0 (decimal ?n) = Some ?n" by (simp add: digits_base_decimal [OF ds] digits_val_decimal)
  have lim: "v < 0 \<longrightarrow> ?n \<le> 2 ^ (w - 1)" "\<not> v < 0 \<longrightarrow> ?n < 2 ^ (w - 1)"
    using assms by (auto simp: nat_le_iff nat_less_iff)
  show ?thesis
    using split_sign_print [of v "''''"] us val lim
    by (auto simp: parse_int0_def base_prefix_decimal)
qed

lemma digits_val_grows: "digits_val acc ds = Some v \<Longrightarrow> acc \<le> v"
  by (induction acc ds rule: digits_val.induct) (auto split: option.splits)

lemma leading_int_digits:
  assumes "digits_val x ds = Some v" "v \<le> 2 ^ 63"
  shows "leading_int x (ds @ r) = leading_int v r"
  using assms
proof (induction x ds rule: digits_val.induct)
  case (2 acc c cs)
  then obtain d where d: "digit_val c = Some d" "digits_val (10 * acc + d) cs = Some v" by (auto split: option.splits)
  have "10 * acc + d \<le> 2 ^ 63" using digits_val_grows [OF d(2)] 2(3) by simp
  with 2 d show ?case by simp
qed simp

definition print_duration :: "duration \<Rightarrow> string" where
  "print_duration d = print_int d @ ''ns''"

lemma parse_duration_print:
  assumes "- (2 ^ 63) \<le> d" "d < 2 ^ 63"
  shows "parse_duration (print_duration d) = Some d"
proof -
  let ?n = "nat \<bar>d\<bar>"
  have n: "?n \<le> 2 ^ 63" using assms by (simp add: nat_le_iff)
  obtain e ds where h: "decimal ?n = digit_char e # ds" "e < 10" using decimal_head by blast
  have li: "leading_int 0 (decimal ?n @ ''ns'') = Some (?n, ''ns'')"
    using leading_int_digits [OF digits_val_decimal n, of "''ns''"] by (simp add: digit_val_def)
  have u: "takeWhile unit_char ''ns'' = ''ns''" "dropWhile unit_char ''ns'' = []"
    by (simp_all add: unit_char_def digit_val_def)
  have "duration_part (decimal ?n @ ''ns'') = Some (?n, [])"
    using li n u h digit_char_facts(6) [OF h(2)]
    by (simp add: duration_part_def Let_def duration_unit_def)
  then have "parse_units 0 (decimal ?n @ ''ns'') = Some ?n"
    using n by (subst parse_units.simps) (simp add: parse_units.simps Let_def)
  moreover have "nat d \<le> 9223372036854775807" using assms(2) by (simp add: nat_le_iff)
  ultimately show ?thesis
    using split_sign_print [of d "''ns''"] by (auto simp: parse_duration_def print_duration_def)
qed

text \<open>Numerals of integers below 53 bits are read as themselves.\<close>

lemma scan_mantissa_decimal:
  assumes "\<forall>c \<in> set ds. \<exists>d < 10. c = digit_char d"
  shows "scan_mantissa 10 False acc 0 some ds = (the (digits_val acc ds), 0, some \<or> ds \<noteq> [], [])"
  using assms
proof (induction ds arbitrary: acc some)
  case (Cons c cs)
  then obtain d where "d < 10" "c = digit_char d" by auto
  with Cons show ?case by (auto simp: digit_char_facts digit_val_char)
qed simp

lemma parse_float64_decimal:
  assumes "n < 2 ^ 53"
  shows "parse_float64 (decimal n) = Some (FVal (int n) 0)"
proof -
  obtain d ds where h: "decimal n = digit_char d # ds" "d < 10" "d = 0 \<longrightarrow> n = 0 \<and> ds = []" using decimal_head by blast
  have all: "\<forall>c \<in> set (decimal n). \<exists>d < 10. c = digit_char d" using decimal_digits by blast
  then have us: "CHR ''_'' \<notin> set (decimal n)" using digit_char_facts(2) by metis
  have sp: "split_sign (decimal n) = (False, decimal n)" by (simp add: h(1) split_sign_def digit_char_facts [OF h(2)])
  have c: "of_char (digit_char d) = 48 + d" using h(2) by (simp add: digit_char_def)
  have low: "to_lower (decimal n) \<notin> {''inf'', ''infinity'', ''nan''}"
    using c h(2) by (auto simp: to_lower_def h(1) digit_char_facts)
  have hex: "(case decimal n of z # x # c # cs \<Rightarrow> z = CHR ''0'' \<and> to_lower_char x = CHR ''x'' | _ \<Rightarrow> False) = False"
    using h by (auto simp: digit_char_facts split: list.splits)
  have "read_float (decimal n) = Some (False, n, 1)"
    using scan_mantissa_decimal [OF all, of 0 False] us
    by (simp add: read_float_def sp hex digits_val_decimal read_exponent_def)
  with low sp float64_of_nat_exact [OF assms] show ?thesis
    by (simp add: parse_float64_def float64_of_nat_def)
qed

text \<open>The parsers on inputs of the documentation of the library.\<close>

lemmas duration_unfold = parse_duration_def split_sign_def parse_units.simps duration_part_def unit_char_def
  duration_unit_def digit_val_def float64_of_nat_exact minute_def second_def
  micro_sign_def greek_mu_def

lemma duration_samples:
  "parse_duration ''1h30m'' = Some (90 * minute)" "parse_duration ''-60s'' = Some (- minute)"
  "parse_duration ''0'' = Some 0" "parse_duration ''60'' = None" "parse_duration ''.s'' = None"
  "parse_duration ''9223372036854775808ns'' = None"
  by (simp_all add: duration_unfold)

lemmas int_unfold = parse_int0_def split_sign_def base_prefix_def base_letter_def to_lower_char_def digit36_def
  digit_val_def underscore_ok_def

lemma int_samples:
  "parse_int0 64 ''0x_1f'' = Some 31" "parse_int0 64 ''017'' = Some 15" "parse_int0 64 ''1__0'' = None"
  "parse_int0 64 ''9223372036854775808'' = None"
  by (simp_all add: int_unfold)

lemmas float_unfold = parse_float64_def read_float_def read_exponent_def split_sign_def to_lower_def to_lower_char_def
  digit36_def digit_val_def float64_of_ratio_def unit_exponent_def scale_def round_ratio_def float_of_def bits.simps

lemma reduce_numeral [simp]:
  "reduce m (numeral k) = (if even m then reduce (m div 2) (pred_numeral k) else (m, numeral k))"
  by (simp add: numeral_eq_Suc)

lemma float_samples:
  "parse_float64 ''2.5'' = Some (FVal 5 (- 1))" "parse_float64 ''1e3'' = Some (FVal 1000 0)"
  "parse_float64 ''-inf'' = Some (FInf True)"
  "parse_float64 ''0x1p-2'' = Some (FVal 1 (- 2))" "parse_duration ''1.5h'' = Some (90 * minute)"
  by (simp_all add: float_unfold duration_unfold split del: if_split)

end
