(* ===== verification/Node_Config.thy ===== *)
theory Node_Config
  imports Create_Pod Self_Signed Go_Numbers
begin

text \<open>
  The node the binary registers and the configuration it runs with (\<^verbatim>\<open>main.go\<close>): the options and their
  defaults, the kubelet port, the node labels, the virtual node's spec and status, the options handed to
  virtual-kubelet with the TLS decision, and the limits of the pod queues; the event filter
  (\<^verbatim>\<open>events.go\<close>) and the kubelet surfaces the provider does not serve (\<^verbatim>\<open>provider/unsupported.go\<close>).
  Constants of client-go and the parser of resource quantities are parameters.
\<close>

subsection \<open>Options\<close>

definition sandboxd_request_timeout :: duration where "sandboxd_request_timeout = 10 * second"
definition sandboxd_max_idle_conns :: int where "sandboxd_max_idle_conns = 64"
definition sandboxd_idle_conn_timeout :: duration where "sandboxd_idle_conn_timeout = 90 * second"
definition claim_verify_interval :: duration where "claim_verify_interval = 15 * second"
definition lease_watch_interval :: duration where "lease_watch_interval = 30 * second"
definition owner_recheck_interval :: duration where "owner_recheck_interval = 10 * second"
definition pod_retry_base_delay :: duration where "pod_retry_base_delay = 5000000"
definition pod_retry_max_delay :: duration where "pod_retry_max_delay = 1000 * second"
definition taint_key :: string where "taint_key = ''virtual-kubelet.io/provider''"

record options =
  op_nodeName :: string
  op_nodeIP :: string
  op_listenAddr :: string
  op_tlsCert :: string
  op_tlsKey :: string
  op_nodeCPU :: string
  op_nodeMem :: string
  op_nodePods :: string
  op_sandboxdURL :: string
  op_sandboxdAddr :: string
  op_tokenFile :: string
  op_statePath :: string
  op_podLabels :: string
  op_orphanInterval :: duration
  op_publishInterval :: duration
  op_publishInventory :: bool
  op_disablePodEvents :: bool
  op_kubeQPS :: gofloat
  op_kubeBurst :: int

definition env_or :: "(string \<Rightarrow> string) \<Rightarrow> string \<Rightarrow> string \<Rightarrow> string" where
  "env_or getenv key def = cmp_or (getenv key) def"

text \<open>The options of a command line without flags, in the environment \<open>getenv\<close>.\<close>

definition flag_defaults :: "(string \<Rightarrow> string) \<Rightarrow> options" where
  "flag_defaults getenv =
     \<lparr>op_nodeName = env_or getenv ''VK_NODE_NAME'' ''vk-sandboxd'',
      op_nodeIP = env_or getenv ''VK_NODE_IP'' '''',
      op_listenAddr = env_or getenv ''VK_LISTEN_ADDR'' '':10260'',
      op_tlsCert = getenv ''VK_TLS_CERT'',
      op_tlsKey = getenv ''VK_TLS_KEY'',
      op_nodeCPU = env_or getenv ''VK_NODE_CPU'' ''4000'',
      op_nodeMem = env_or getenv ''VK_NODE_MEMORY'' ''8Ti'',
      op_nodePods = env_or getenv ''VK_NODE_PODS'' ''2000'',
      op_sandboxdURL = env_or getenv ''SANDBOXD_URL'' ''http://127.0.0.1:7777'',
      op_sandboxdAddr = env_or getenv ''SANDBOXD_ADVERTISE_ADDR'' '''',
      op_tokenFile = getenv ''SANDBOXD_TOKEN_FILE'',
      op_statePath = env_or getenv ''VK_STATE_PATH'' ''/var/lib/vk-sandbox/claims.json'',
      op_podLabels = ''sandbox.cocoonstack.io/runtime=sandboxd'',
      op_orphanInterval = 60 * second,
      op_publishInterval = 30 * second,
      op_publishInventory = False,
      op_disablePodEvents = False,
      op_kubeQPS = FVal 200 0,
      op_kubeBurst = 400\<rparr>"

subsection \<open>The kubelet port and the node labels\<close>

datatype port_error = ErrSplit addr_error | ErrParsePort string | ErrPortRange int

definition listen_port :: "string \<Rightarrow> port_error + int" where
  "listen_port addr =
     (case split_host_port addr of
        Inl e \<Rightarrow> Inl (ErrSplit e)
      | Inr (host, portStr) \<Rightarrow>
          (case parse_int 32 portStr of
             None \<Rightarrow> Inl (ErrParsePort portStr)
           | Some port \<Rightarrow>
               if port < 1 \<or> port > 65535 then Inl (ErrPortRange port) else Inr port))"

definition label_of :: "string \<Rightarrow> (string \<times> string) option" where
  "label_of kv =
     (let (k, v, ok) = cut_at CHR ''='' (trim_space kv) in if ok \<and> k \<noteq> '''' then Some (k, v) else None)"

definition parse_labels :: "string \<Rightarrow> (string \<rightharpoonup> string)" where
  "parse_labels s =
     foldl (\<lambda>out kv. case label_of kv of Some (k, v) \<Rightarrow> out(k \<mapsto> v) | None \<Rightarrow> out) Map.empty
       (split_on CHR '','' s)"

subsection \<open>The virtual node\<close>

datatype address_type = HostName | InternalIP

record taint =
  ta_key :: string
  ta_value :: string
  ta_effect :: string

text \<open>
  The fields of a Node the factory writes and the rest of it. A resource list is the three quantities it
  has an entry for.
\<close>

record 'q resource_list =
  rl_cpu :: 'q
  rl_memory :: 'q
  rl_pods :: 'q

record ('q, 'r) vnode =
  vn_labels :: "string \<rightharpoonup> string"
  vn_taints :: "taint list"
  vn_addresses :: "(address_type \<times> string) list"
  vn_kubeletPort :: int
  vn_capacity :: "'q resource_list option"
  vn_allocatable :: "'q resource_list option"
  vn_rest :: 'r

record 'q node_ext =
  parse_quantity :: "string \<Rightarrow> 'q option"
  taint_no_schedule :: string
  event_type_normal :: string
  default_qps :: gofloat
  default_burst :: int

text \<open>
  \<^verbatim>\<open>providerFactory\<close> reads the quantities, and panics (\<open>None\<close>) on one that does not parse, and the port,
  whose error it ignores; the factory it returns writes the Node it is given.
\<close>

definition factory_node ::
    "'q node_ext \<Rightarrow> options \<Rightarrow> 'q resource_list \<Rightarrow> int \<Rightarrow> ('q, 'r) vnode \<Rightarrow> ('q, 'r) vnode" where
  "factory_node N opt capacity kubeletPort n =
     n\<lparr>vn_labels := vn_labels n ++ parse_labels (op_podLabels opt),
       vn_taints := vn_taints n @ [\<lparr>ta_key = taint_key, ta_value = runtime_sandboxd, ta_effect = taint_no_schedule N\<rparr>],
       vn_addresses := (if op_nodeIP opt \<noteq> '''' then [(InternalIP, op_nodeIP opt)] else [])
         @ [(HostName, op_nodeName opt)],
       vn_kubeletPort := kubeletPort,
       vn_capacity := Some capacity,
       vn_allocatable := Some capacity\<rparr>"

definition provider_factory ::
    "'q node_ext \<Rightarrow> options \<Rightarrow> (('q, 'r) vnode \<Rightarrow> ('q, 'r) vnode) option" where
  "provider_factory N opt =
     (case (parse_quantity N (op_nodeCPU opt), parse_quantity N (op_nodeMem opt), parse_quantity N (op_nodePods opt)) of
        (Some cpu, Some mem, Some pods) \<Rightarrow>
          let port = (case listen_port (op_listenAddr opt) of Inl e \<Rightarrow> 0 | Inr p \<Rightarrow> p)
          in Some (factory_node N opt \<lparr>rl_cpu = cpu, rl_memory = mem, rl_pods = pods\<rparr> port)
      | _ \<Rightarrow> None)"

subsection \<open>The options of the node\<close>

datatype 'c node_opt =
    WithClient
  | AttachProviderRoutes
  | PodControllerOverrides
  | HTTPListenAddr string
  | WarningsOnly string
  | TLSConfig 'c

datatype options_error = ErrListenAddr port_error | ErrLoadCert err | ErrSelfSign cert_error

text \<open>\<^verbatim>\<open>os.Stat\<close> says whether the path is a regular file.\<close>

definition file_readable :: "(string \<Rightarrow> err + bool) \<Rightarrow> string \<Rightarrow> bool" where
  "file_readable stat path = (case stat path of Inl e \<Rightarrow> False | Inr regular \<Rightarrow> regular)"

definition warnings_only :: "options \<Rightarrow> 'c node_opt" where
  "warnings_only opt = WarningsOnly (op_nodeName opt @ ''/pod-controller'')"

definition node_options ::
    "(string \<Rightarrow> err + bool) \<Rightarrow> (string \<Rightarrow> string \<Rightarrow> err + 'c) \<Rightarrow> ('k, 'd, 'm, 'c) crypto \<Rightarrow> options \<Rightarrow>
     options_error + 'c node_opt list" where
  "node_options stat load_key_pair Y opt =
     (case listen_port (op_listenAddr opt) of
        Inl e \<Rightarrow> Inl (ErrListenAddr e)
      | Inr _ \<Rightarrow>
          let opts = [WithClient, AttachProviderRoutes, PodControllerOverrides, HTTPListenAddr (op_listenAddr opt)]
                @ (if op_disablePodEvents opt then [warnings_only opt] else []);
              cert = (if file_readable stat (op_tlsCert opt) \<and> file_readable stat (op_tlsKey opt)
                      then (case load_key_pair (op_tlsCert opt) (op_tlsKey opt) of
                              Inl e \<Rightarrow> Inl (ErrLoadCert e) | Inr c \<Rightarrow> Inr c)
                      else (case self_signed_cert Y [op_nodeName opt, op_nodeIP opt, ''127.0.0.1''] of
                              Inl e \<Rightarrow> Inl (ErrSelfSign e) | Inr c \<Rightarrow> Inr c))
          in (case cert of Inl e \<Rightarrow> Inl e | Inr c \<Rightarrow> Inr (opts @ [TLSConfig c])))"

subsection \<open>The limits of the pod queues\<close>

datatype rate_limiter =
    ItemExponentialFailure duration duration
  | BucketRateLimiter gofloat int
  | MaxOfRateLimiter "rate_limiter list"

record pod_controller_config =
  pc_syncPods :: "rate_limiter option"
  pc_deletePods :: "rate_limiter option"
  pc_syncPodStatus :: "rate_limiter option"

definition queue_limiter :: "gofloat \<Rightarrow> int \<Rightarrow> rate_limiter" where
  "queue_limiter qps burst =
     (let backoff = ItemExponentialFailure pod_retry_base_delay pod_retry_max_delay
      in if float_negative qps then backoff else MaxOfRateLimiter [backoff, BucketRateLimiter qps burst])"

definition pod_queue_limits :: "'q node_ext \<Rightarrow> options \<Rightarrow> pod_controller_config \<Rightarrow> pod_controller_config" where
  "pod_queue_limits N opt c =
     (let q = to_float32 (op_kubeQPS opt);
          qps = (if float_nonzero q then q else default_qps N);
          burst = (if op_kubeBurst opt \<noteq> 0 then op_kubeBurst opt else default_burst N)
      in c\<lparr>pc_syncPods := Some (queue_limiter qps burst), pc_deletePods := Some (queue_limiter qps burst),
           pc_syncPodStatus := Some (queue_limiter qps burst)\<rparr>)"

subsection \<open>The event filter\<close>

text \<open>The calls that reach the recorder behind the filter.\<close>

datatype 'o recorder_call =
    CallEvent 'o string string string
  | CallEventf 'o string string string "string list"
  | CallAnnotatedEventf 'o "string \<rightharpoonup> string" string string string "string list"

definition warning_event :: "'q node_ext \<Rightarrow> 'o \<Rightarrow> string \<Rightarrow> string \<Rightarrow> string \<Rightarrow> 'o recorder_call list" where
  "warning_event N obj eventtype reason message =
     (if eventtype \<noteq> event_type_normal N then [CallEvent obj eventtype reason message] else [])"

definition warning_eventf ::
    "'q node_ext \<Rightarrow> 'o \<Rightarrow> string \<Rightarrow> string \<Rightarrow> string \<Rightarrow> string list \<Rightarrow> 'o recorder_call list" where
  "warning_eventf N obj eventtype reason fmt args =
     (if eventtype \<noteq> event_type_normal N then [CallEventf obj eventtype reason fmt args] else [])"

definition warning_annotated_eventf ::
    "'q node_ext \<Rightarrow> 'o \<Rightarrow> (string \<rightharpoonup> string) \<Rightarrow> string \<Rightarrow> string \<Rightarrow> string \<Rightarrow> string list \<Rightarrow> 'o recorder_call list" where
  "warning_annotated_eventf N obj annotations eventtype reason fmt args =
     (if eventtype \<noteq> event_type_normal N
      then [CallAnnotatedEventf obj annotations eventtype reason fmt args] else [])"

subsection \<open>Kubelet surfaces that are not served\<close>

definition err_not_implemented :: err where
  "err_not_implemented = ''vk-sandbox: not implemented; use the sandbox SDK for interactive access''"

definition get_container_logs :: "string \<Rightarrow> string \<Rightarrow> string \<Rightarrow> (err + 'r) prog" where
  "get_container_logs ns n container = Ret (Inl err_not_implemented)"

definition run_in_container :: "string \<Rightarrow> string \<Rightarrow> string \<Rightarrow> string list \<Rightarrow> err option prog" where
  "run_in_container ns n container cmd = Ret (Some err_not_implemented)"

definition attach_to_container :: "string \<Rightarrow> string \<Rightarrow> string \<Rightarrow> err option prog" where
  "attach_to_container ns n container = Ret (Some err_not_implemented)"

definition port_forward :: "string \<Rightarrow> string \<Rightarrow> int \<Rightarrow> err option prog" where
  "port_forward ns n port = Ret (Some err_not_implemented)"

text \<open>A summary without content is the record's zero value; so is the empty list of metric families.\<close>

definition get_stats_summary :: "'s \<Rightarrow> (err + 's) prog" where
  "get_stats_summary zero_summary = Ret (Inr zero_summary)"

definition get_metrics_resource :: "(err + 'm list) prog" where
  "get_metrics_resource = Ret (Inr [])"

subsection \<open>The label list is read back\<close>

definition label_char :: "char \<Rightarrow> bool" where
  "label_char c = (c \<noteq> CHR '','' \<and> \<not> is_space c)"

definition label_ok :: "string \<times> string \<Rightarrow> bool" where
  "label_ok kv = (fst kv \<noteq> '''' \<and> CHR ''='' \<notin> set (fst kv) \<and> list_all label_char (fst kv @ snd kv))"

definition label_text :: "string \<times> string \<Rightarrow> string" where
  "label_text kv = fst kv @ ''='' @ snd kv"

fun labels_text :: "(string \<times> string) list \<Rightarrow> string" where
  "labels_text [] = ''''"
| "labels_text [kv] = label_text kv"
| "labels_text (kv # kvs) = label_text kv @ '','' @ labels_text kvs"

definition demo_node_ext :: "nat node_ext" where
  "demo_node_ext = \<lparr>parse_quantity = (\<lambda>s. Some (length s)), taint_no_schedule = ''NoSchedule'',
     event_type_normal = ''Normal'', default_qps = FVal 5 0, default_burst = 10\<rparr>"

definition demo_options :: options where
  "demo_options = flag_defaults (\<lambda>key. '''')"

definition demo_vnode :: "(nat, unit) vnode" where
  "demo_vnode = \<lparr>vn_labels = Map.empty, vn_taints = [], vn_addresses = [], vn_kubeletPort = 0,
     vn_capacity = None, vn_allocatable = None, vn_rest = ()\<rparr>"

lemma trim_space_id:
  assumes "s \<noteq> []" "\<not> is_space (hd s)" "\<not> is_space (last s)"
  shows "trim_space s = s"
proof -
  have "dropWhile is_space s = s" using assms(1,2) by (cases s) auto
  moreover have "dropWhile is_space (rev s) = rev s"
    using assms(1,3) by (cases s rule: rev_cases) simp_all
  ultimately show ?thesis by (simp add: trim_space_def trim_right_def)
qed

lemma cut_at_first: "c \<notin> set k \<Longrightarrow> cut_at c (k @ c # v) = (k, v, True)"
  by (simp add: cut_at_def takeWhile_append dropWhile_append)

lemma split_on_none: "c \<notin> set s \<Longrightarrow> split_on c s = [s]"
  by (induction s) auto

lemma split_on_sep: "c \<notin> set s \<Longrightarrow> split_on c (s @ c # t) = s # split_on c t"
  by (induction s) auto

lemma label_of_text:
  assumes "label_ok kv"
  shows "label_of (label_text kv) = Some kv"
proof -
  obtain k v where kv: "kv = (k, v)" by (cases kv)
  have "trim_space (k @ CHR ''='' # v) = k @ CHR ''='' # v"
  proof (rule trim_space_id)
    show "\<not> is_space (hd (k @ CHR ''='' # v))"
      using assms kv by (cases k) (auto simp: label_ok_def label_char_def)
    show "\<not> is_space (last (k @ CHR ''='' # v))"
      using assms kv by (cases v rule: rev_cases) (auto simp: label_ok_def label_char_def is_space_def)
  qed simp
  with assms kv show ?thesis by (simp add: label_of_def label_text_def label_ok_def cut_at_first)
qed

lemma label_text_no_comma: "label_ok kv \<Longrightarrow> CHR '','' \<notin> set (label_text kv)"
  by (auto simp: label_ok_def label_text_def label_char_def list_all_iff)

lemma split_labels:
  "list_all label_ok kvs \<Longrightarrow>
     split_on CHR '','' (labels_text kvs) = (if kvs = [] then [''''] else map label_text kvs)"
  by (induction kvs rule: labels_text.induct)
    (auto simp: split_on_none split_on_sep label_text_no_comma)

lemma fold_labels:
  "list_all label_ok kvs \<Longrightarrow>
     foldl (\<lambda>out kv. case label_of kv of Some (k, v) \<Rightarrow> out(k \<mapsto> v) | None \<Rightarrow> out) m (map label_text kvs)
     = m ++ map_of (rev kvs)"
  by (induction kvs arbitrary: m) (auto simp: label_of_text map_add_assoc [symmetric] split: prod.splits)

text \<open>
  The node labels are the ones that were asked for. A list of labels written as comma-separated
  \<open>key=value\<close> pairs is read back as exactly these labels, the last one for a key that occurs twice.
\<close>

lemma labels_roundtrip:
  assumes "list_all label_ok kvs"
  shows "parse_labels (labels_text kvs) = map_of (rev kvs)"
proof (cases "kvs = []")
  case True
  then show ?thesis
    by (simp add: parse_labels_def label_of_def cut_at_def trim_space_def trim_right_def)
next
  case False
  with fold_labels [OF assms, of Map.empty] show ?thesis
    by (simp add: parse_labels_def split_labels [OF assms])
qed

lemma labels_roundtrip_witness:
  "parse_labels ''a=1,b=x=y,a=2'' ''a'' = Some ''2''"
proof -
  have "list_all label_ok [(''a'', ''1''), (''b'', ''x=y''), (''a'', ''2'')]"
    by (simp add: label_ok_def label_char_def is_space_def)
  from labels_roundtrip [OF this] show ?thesis by (simp add: label_text_def)
qed

subsection \<open>The node that is registered\<close>

lemma listen_port_range: "listen_port addr = Inr p \<Longrightarrow> 1 \<le> p \<and> p \<le> 65535"
  by (auto simp: listen_port_def split: sum.splits option.splits if_splits)

lemma listen_port_decimal:
  assumes "set host \<inter> {CHR '':'', CHR ''['', CHR '']''} = {}"
  shows "listen_port (host @ '':'' @ decimal n) =
    (if n = 0 \<or> 65535 < n then Inl (if n < 2 ^ 31 then ErrPortRange (int n) else ErrParsePort (decimal n))
     else Inr (int n))"
proof -
  have "c \<notin> {CHR '':'', CHR ''['', CHR '']''}" if c: "c \<in> set (decimal n)" for c
  proof -
    obtain d where d: "d < 10" "c = digit_char d" using decimal_digits [OF c] by blast
    then have "of_char c = 48 + d" by (auto dest: digit_char_inj)
    with d(1) show ?thesis by auto
  qed
  then have "CHR '':'' \<notin> set (decimal n)" "CHR ''['' \<notin> set (decimal n)" "CHR '']'' \<notin> set (decimal n)"
    by blast+
  then have "split_host_port (host @ '':'' @ decimal n) = Inr (host, decimal n)"
    using assms by (intro split_host_port_plain) auto
  then show ?thesis by (auto simp: listen_port_def parse_int_decimal)
qed

lemma node_options_listen:
  assumes "node_options stat load_key_pair Y opt = Inr opts"
  shows "\<exists>p c. listen_port (op_listenAddr opt) = Inr p \<and> HTTPListenAddr (op_listenAddr opt) \<in> set opts
    \<and> last opts = TLSConfig c"
  using assms by (auto simp: node_options_def Let_def split: sum.splits if_splits)


lemma demo_port: "listen_port (op_listenAddr demo_options) = Inr 10260"
  by (simp add: demo_options_def flag_defaults_def env_or_def cmp_or_def listen_port_def split_host_port_def
      split_tail_def parse_int_def parse_uint_def digit_val_def)


subsection \<open>The pod queues always drain\<close>

fun bucket_open :: "rate_limiter \<Rightarrow> bool" where
  "bucket_open (BucketRateLimiter q b) = (float_nonzero q \<and> \<not> float_negative q \<and> b \<noteq> 0)"
| "bucket_open (ItemExponentialFailure base cap) = (0 < base \<and> base \<le> cap)"
| "bucket_open (MaxOfRateLimiter ls) = list_all bucket_open ls"

text \<open>
  Each of the three queues has a limiter, and its bucket, where it has one, has a rate that is neither zero
  nor negative and a burst that is not zero: a zero option, or a rate too small for a \<^verbatim>\<open>float32\<close>, means
  the default, and a negative rate means no bucket.
\<close>

lemma queue_limiter_open: "float_nonzero qps \<Longrightarrow> burst \<noteq> 0 \<Longrightarrow> bucket_open (queue_limiter qps burst)"
  by (simp add: queue_limiter_def Let_def pod_retry_base_delay_def pod_retry_max_delay_def second_def)

lemma pod_queues_open:
  assumes "float_nonzero (default_qps N)" "default_burst N \<noteq> 0"
  shows "\<exists>l. bucket_open l \<and> pod_queue_limits N opt c =
    c\<lparr>pc_syncPods := Some l, pc_deletePods := Some l, pc_syncPodStatus := Some l\<rparr>"
  unfolding pod_queue_limits_def Let_def
  by (rule exI, rule conjI [OF queue_limiter_open refl]) (simp_all add: assms)


end
