(* ===== verification/Inventory.thy ===== *)
theory Inventory
  imports Demo_Node "HOL-Library.Multiset"
begin

text \<open>
  The inventory publisher (\<^verbatim>\<open>inventory/publisher.go\<close>, \<^verbatim>\<open>inventory/nodeinfo.go\<close>): reading the
  node's live sandboxes and its capacity, naming the Node as the owner of the published object, and
  applying it, once and on every tick.
  One round of the publisher is a function of the answers the outside gives in it; what it asks, and
  in particular what it applies, is part of the result. The conversions of \<^verbatim>\<open>scale\<close> and its kind are
  parameters. \<^verbatim>\<open>slices.SortFunc\<close> by name is modelled as a sort that keeps the order of entries of equal
  names; where names differ, every sort gives the same list (\<open>sort_unique\<close>).
\<close>

subsection \<open>Data\<close>

text \<open>An entry as the name and the address this code uses and the rest of what the summary gave.\<close>

record 'x inventory_entry =
  ie_name :: string
  ie_address :: string
  ie_rest :: 'x

record ('p, 't) node_info =
  ni_address :: string
  ni_pools :: 'p
  ni_templates :: 't

record kube_node =
  kn_name :: string
  kn_uid :: string

record ('x, 'p, 't) node_inventory =
  nv_kind :: string
  nv_apiVersion :: string
  nv_name :: string
  nv_node :: string
  nv_entries :: "'x inventory_entry list"
  nv_ownerReferences :: "owner_ref list"
  nv_publishedAt :: gtime
  nv_address :: string
  nv_pools :: 'p
  nv_templates :: 't

record ('i, 'x, 'p, 't) inv_ext =
  entry_from_summary :: "sandbox_summary \<Rightarrow> 'x inventory_entry"
  pool_capacity_from_info :: "'i \<Rightarrow> 'p"
  templates_from_info :: "'i \<Rightarrow> 't"
  inventory_kind :: string
  inventory_api_version :: string

datatype publish_error =
    ErrNodeDeleted string
  | ErrReadNode string err
  | ErrLive string err
  | ErrInfo string err
  | ErrApply string err

subsection \<open>The sources\<close>

text \<open>\<^verbatim>\<open>LiveSource.LiveSandboxes\<close>, given what the two calls of it returned.\<close>

definition live_sandboxes ::
    "('i, 'x, 'p, 't) inv_ext \<Rightarrow> err + sandbox_summary list \<Rightarrow> (string \<rightharpoonup> string) \<Rightarrow>
     err + 'x inventory_entry list" where
  "live_sandboxes X reply addrByID =
     (case reply of
        Inl e \<Rightarrow> Inl e
      | Inr listed \<Rightarrow>
          Inr (sort_key ie_name
            (map (\<lambda>row. (entry_from_summary X row)\<lparr>ie_address :=
                    (case addrByID (ss_id row) of Some a \<Rightarrow> a | None \<Rightarrow> '''')\<rparr>) listed)))"

text \<open>\<^verbatim>\<open>sandboxdInfoSource.NodeInfo\<close>.\<close>

definition sandboxd_node_info ::
    "('i, 'x, 'p, 't) inv_ext \<Rightarrow> string \<Rightarrow> err + 'i \<Rightarrow> err + ('p, 't) node_info" where
  "sandboxd_node_info X address reply =
     (case reply of
        Inl e \<Rightarrow> Inl e
      | Inr info \<Rightarrow>
          Inr \<lparr>ni_address = address, ni_pools = pool_capacity_from_info X info,
               ni_templates = templates_from_info X info\<rparr>)"

subsection \<open>The publisher\<close>

text \<open>
  The answer of \<^verbatim>\<open>nodes.Get\<close>: the Node, NotFound, or another error; and the answers of a whole
  round. The publisher holds its two sources as values of interface types; here they are functions of
  the answers \<open>'l\<close> and \<open>'i\<close> they get.
\<close>

datatype node_reply = NodeFound kube_node | NodeNotFound | NodeError err

record ('l, 'i) round =
  rd_node :: node_reply
  rd_live :: 'l
  rd_now :: gtime
  rd_info :: 'i
  rd_apply :: "err option"

record publisher =
  pb_node :: string
  pb_nodeSeen :: bool

definition new_publisher :: "string \<Rightarrow> publisher" where
  "new_publisher node = \<lparr>pb_node = node, pb_nodeSeen = False\<rparr>"

fun owners :: "publisher \<Rightarrow> node_reply \<Rightarrow> publisher \<times> (publish_error + owner_ref list)" where
  "owners p (NodeFound n) =
     (p\<lparr>pb_nodeSeen := True\<rparr>,
      Inr [\<lparr>or_apiVersion = ''v1'', or_kind = ''Node'', or_name = kn_name n, or_uid = kn_uid n\<rparr>])"
| "owners p NodeNotFound =
     (if \<not> pb_nodeSeen p then (p, Inr []) else (p, Inl (ErrNodeDeleted (pb_node p))))"
| "owners p (NodeError e) = (p, Inl (ErrReadNode (pb_node p) e))"

text \<open>The result of a round: the publisher, the object that was applied if one was, and the count.\<close>

definition publish ::
    "('i, 'x, 'p, 't) inv_ext \<Rightarrow> ('l \<Rightarrow> err + 'x inventory_entry list) \<Rightarrow> ('r \<Rightarrow> err + ('p, 't) node_info) \<Rightarrow>
     ('l, 'r) round \<Rightarrow> publisher \<Rightarrow>
     publisher \<times> ('x, 'p, 't) node_inventory option \<times> (publish_error + nat)" where
  "publish X live info rd p =
     (case owners p (rd_node rd) of
        (p', Inl e) \<Rightarrow> (p', None, Inl e)
      | (p', Inr owns) \<Rightarrow>
          (case live (rd_live rd) of
             Inl e \<Rightarrow> (p', None, Inl (ErrLive (pb_node p') e))
           | Inr entries \<Rightarrow>
               (case info (rd_info rd) of
                  Inl e \<Rightarrow> (p', None, Inl (ErrInfo (pb_node p') e))
                | Inr ni \<Rightarrow>
                    let nv = \<lparr>nv_kind = inventory_kind X, nv_apiVersion = inventory_api_version X,
                               nv_name = pb_node p', nv_node = pb_node p', nv_entries = entries,
                               nv_ownerReferences = owns, nv_publishedAt = rd_now rd,
                               nv_address = ni_address ni, nv_pools = ni_pools ni,
                               nv_templates = ni_templates ni\<rparr>
                    in (p', Some nv,
                        (case rd_apply rd of
                           Some e \<Rightarrow> Inl (ErrApply (pb_node p') e)
                         | None \<Rightarrow> Inr (length entries))))))"

text \<open>
  The loop of \<^verbatim>\<open>PublishPeriodically\<close>: a round at once and one per tick, for the rounds that happen
  before the context is done; a failed round is logged and the next one tried.
\<close>

fun publish_rounds ::
    "('i, 'x, 'p, 't) inv_ext \<Rightarrow> ('l \<Rightarrow> err + 'x inventory_entry list) \<Rightarrow> ('r \<Rightarrow> err + ('p, 't) node_info) \<Rightarrow>
     ('l, 'r) round list \<Rightarrow> publisher \<Rightarrow>
     publisher \<times> ('x, 'p, 't) node_inventory option list" where
  "publish_rounds X live info [] p = (p, [])"
| "publish_rounds X live info (rd # rds) p =
     (let (p1, applied, result) = publish X live info rd p;
          (p2, rest) = publish_rounds X live info rds p1
      in (p2, applied # rest))"

text \<open>
  \<^verbatim>\<open>PublishPeriodically\<close>, which makes its ticker first: \<^verbatim>\<open>time.NewTicker\<close> panics on an interval that is
  not positive, which is \<open>None\<close>.
\<close>

definition publish_periodically ::
    "('i, 'x, 'p, 't) inv_ext \<Rightarrow> ('l \<Rightarrow> err + 'x inventory_entry list) \<Rightarrow> ('r \<Rightarrow> err + ('p, 't) node_info) \<Rightarrow>
     int \<Rightarrow> ('l, 'r) round list \<Rightarrow> publisher \<Rightarrow>
     (publisher \<times> ('x, 'p, 't) node_inventory option list) option" where
  "publish_periodically X live info interval rds p =
     (if interval \<le> 0 then None else Some (publish_rounds X live info rds p))"

subsection \<open>A node that registers and is deleted\<close>

text \<open>Answers on which the laws are checked.\<close>

definition demo_inv :: "(nat, unit, nat, nat) inv_ext" where
  "demo_inv = \<lparr>entry_from_summary = (\<lambda>s. \<lparr>ie_name = ss_id s, ie_address = '''', ie_rest = ()\<rparr>),
     pool_capacity_from_info = (\<lambda>n. n), templates_from_info = (\<lambda>n. n),
     inventory_kind = ''NodeInventory'', inventory_api_version = ''v1''\<rparr>"

definition demo_round :: "node_reply \<Rightarrow> ((err + sandbox_summary list) \<times> (string \<rightharpoonup> string), err + nat) round" where
  "demo_round r = \<lparr>rd_node = r,
     rd_live = (Inr [\<lparr>ss_id = ''y'', ss_claimRef = '''', ss_deadline = 0\<rparr>,
                     \<lparr>ss_id = ''x'', ss_claimRef = '''', ss_deadline = 0\<rparr>], [''x'' \<mapsto> ''10.0.0.7:8080'']),
     rd_now = 0, rd_info = Inr 3, rd_apply = None\<rparr>"

subsection \<open>The contracts of the sources\<close>

text \<open>The rows a listing gives, each with the address of the claim the provider holds, if any.\<close>

definition listed_entries ::
    "('i, 'x, 'p, 't) inv_ext \<Rightarrow> (err + sandbox_summary list) \<times> (string \<rightharpoonup> string) \<Rightarrow> 'x inventory_entry list" where
  "listed_entries X r =
     (case fst r of
        Inl e \<Rightarrow> []
      | Inr l \<Rightarrow> map (\<lambda>row. (entry_from_summary X row)\<lparr>ie_address :=
                   (case snd r (ss_id row) of Some a \<Rightarrow> a | None \<Rightarrow> '''')\<rparr>) l)"

lemma filter_key_single:
  "distinct (map f xs) \<Longrightarrow> k \<in> set xs \<Longrightarrow> filter (\<lambda>x. f k = f x) xs = [k]"
proof (induction xs)
  case (Cons x xs)
  show ?case
  proof (cases "k = x")
    case True
    with Cons.prems show ?thesis by (auto simp: filter_empty_conv)
  next
    case False
    with Cons show ?thesis by (auto simp: image_iff)
  qed
qed simp

lemma sort_unique:
  assumes "distinct (map ie_name es)" "mset xs = mset es" "sorted (map ie_name xs)"
  shows "xs = sort_key ie_name es"
proof -
  have eq: "set xs = set es" using assms(2) by (rule mset_eq_setD)
  have "mset (map ie_name xs) = mset (map ie_name es)" using assms(2) by simp
  then have dist: "distinct (map ie_name xs)" using assms(1) mset_eq_imp_distinct_iff by blast
  have "sort_key ie_name es = xs"
    by (rule properties_for_sort_key [OF assms(2) _ assms(3)])
      (use eq in \<open>simp add: filter_key_single [OF dist] filter_key_single [OF assms(1)]\<close>)
  then show ?thesis by simp
qed

text \<open>
  What the publisher relies on: the entries of its live source come in the order of their names, and
  the address its information source reports is the one the node advertises.
\<close>

locale live_source =
  fixes live :: "'l \<Rightarrow> err + 'x inventory_entry list" and rows :: "'l \<Rightarrow> 'x inventory_entry list"
  assumes in_order: "live r = Inr es \<Longrightarrow> sorted (map ie_name es)"
    and all_rows: "live r = Inr es \<Longrightarrow> mset es = mset (rows r)"

locale info_source =
  fixes info :: "'r \<Rightarrow> err + ('p, 't) node_info" and address :: string
  assumes advertised: "info r = Inr ni \<Longrightarrow> ni_address ni = address"

locale publishing = live_source live rows + info_source info address
  for live :: "'l \<Rightarrow> err + 'x inventory_entry list" and rows
    and info :: "'r \<Rightarrow> err + ('p, 't) node_info" and address
begin

lemma published:
  assumes "publish X live info rd p = (p', Some nv, result)"
  shows "sorted (map ie_name (nv_entries nv)) \<and> mset (nv_entries nv) = mset (rows (rd_live rd))
    \<and> nv_address nv = address \<and> nv_name nv = pb_node p \<and> nv_node nv = pb_node p
    \<and> (case rd_apply rd of
         None \<Rightarrow> result = Inr (length (rows (rd_live rd)))
       | Some e \<Rightarrow> result = Inl (ErrApply (pb_node p) e))"
proof -
  obtain p1 owns where o: "owners p (rd_node rd) = (p1, Inr owns)" "p' = p1"
    using assms by (auto simp: publish_def split: prod.splits sum.splits)
  then have node: "pb_node p' = pb_node p" by (cases "rd_node rd") (auto split: if_splits)
  obtain es ni where e: "live (rd_live rd) = Inr es" "info (rd_info rd) = Inr ni"
    using assms o by (auto simp: publish_def split: sum.splits)
  have "length es = length (rows (rd_live rd))" using all_rows [OF e(1)] by (rule mset_eq_length)
  then show ?thesis
    using assms o e node in_order [OF e(1)] all_rows [OF e(1)] advertised [OF e(2)]
    by (auto simp: publish_def Let_def split: option.splits)
qed

end

interpretation node: publishing "\<lambda>(reply, addrs). live_sandboxes X reply addrs" "listed_entries X"
  "sandboxd_node_info X address" address for X address
  by unfold_locales
    (auto simp: live_sandboxes_def listed_entries_def sandboxd_node_info_def split: sum.splits)

subsection \<open>What is published\<close>

text \<open>
  C35: the published inventory is the node's own state. Whenever a round applies an inventory, it is named
  after the node and carries the advertised address, and its entries are exactly the sandboxes the node
  listed in this round, in the order of their names, each with the address of the claim the provider
  holds for it and none otherwise; the count that is reported is their number.
\<close>

theorem inventory_is_node_state:
  assumes "publish X (\<lambda>(reply, addrs). live_sandboxes X reply addrs) (sandboxd_node_info X address) rd p
      = (p', Some nv, result)"
  shows "\<exists>l. fst (rd_live rd) = Inr l \<and> sorted (map ie_name (nv_entries nv))
    \<and> mset (nv_entries nv) = mset (map (\<lambda>row. (entry_from_summary X row)\<lparr>ie_address :=
        (case snd (rd_live rd) (ss_id row) of Some a \<Rightarrow> a | None \<Rightarrow> '''')\<rparr>) l)
    \<and> nv_address nv = address \<and> nv_name nv = pb_node p \<and> nv_node nv = pb_node p
    \<and> (case rd_apply rd of None \<Rightarrow> result = Inr (length l) | Some e \<Rightarrow> result = Inl (ErrApply (pb_node p) e))"
proof -
  obtain l where l: "fst (rd_live rd) = Inr l"
    using assms by (cases "rd_live rd")
      (auto simp: publish_def live_sandboxes_def split: prod.splits sum.splits)
  with node.published [OF assms] show ?thesis by (auto simp: listed_entries_def split: option.splits)
qed

lemma owners_seen: "pb_nodeSeen (fst (owners p r)) = (pb_nodeSeen p \<or> (\<exists>n. r = NodeFound n))"
  by (cases r) auto

lemma publish_fst: "fst (publish X live info rd p) = fst (owners p (rd_node rd))"
  by (auto simp: publish_def Let_def split: prod.splits sum.splits)

lemma publish_owned:
  assumes "publish X live info rd p = (p', Some nv, result)"
  shows "case rd_node rd of
      NodeFound n \<Rightarrow> nv_ownerReferences nv =
        [\<lparr>or_apiVersion = ''v1'', or_kind = ''Node'', or_name = kn_name n, or_uid = kn_uid n\<rparr>]
    | NodeNotFound \<Rightarrow> nv_ownerReferences nv = [] \<and> \<not> pb_nodeSeen p
    | NodeError e \<Rightarrow> False"
  using assms
  by (cases "rd_node rd") (auto simp: publish_def Let_def split: prod.splits sum.splits if_splits)

lemma rounds_owned:
  assumes "publish_rounds X live info rds p = (p', out)" "i < length rds" "out ! i = Some nv"
  shows "case rd_node (rds ! i) of
      NodeFound n \<Rightarrow> nv_ownerReferences nv =
        [\<lparr>or_apiVersion = ''v1'', or_kind = ''Node'', or_name = kn_name n, or_uid = kn_uid n\<rparr>]
    | NodeNotFound \<Rightarrow> nv_ownerReferences nv = [] \<and> \<not> pb_nodeSeen p
        \<and> (\<forall>j < i. \<forall>n. rd_node (rds ! j) \<noteq> NodeFound n)
    | NodeError e \<Rightarrow> False"
  using assms
proof (induction rds arbitrary: p p' out i)
  case (Cons rd rds)
  obtain p1 applied result where one: "publish X live info rd p = (p1, applied, result)"
    by (cases "publish X live info rd p") auto
  obtain p2 rest where more: "publish_rounds X live info rds p1 = (p2, rest)"
    by (cases "publish_rounds X live info rds p1") auto
  have out: "out = applied # rest" using Cons.prems(1) one more by simp
  show ?case
  proof (cases i)
    case 0
    with Cons.prems(3) out one have "publish X live info rd p = (p1, Some nv, result)" by simp
    from publish_owned [OF this] 0 show ?thesis by (auto split: node_reply.splits)
  next
    case (Suc j)
    have seen: "pb_nodeSeen p1 = (pb_nodeSeen p \<or> (\<exists>n. rd_node rd = NodeFound n))"
      using publish_fst [of X live info rd p] one owners_seen [of p "rd_node rd"] by simp
    from Cons.IH [OF more, of j] Cons.prems(2,3) out Suc
    have "case rd_node (rds ! j) of
        NodeFound n \<Rightarrow> nv_ownerReferences nv =
          [\<lparr>or_apiVersion = ''v1'', or_kind = ''Node'', or_name = kn_name n, or_uid = kn_uid n\<rparr>]
      | NodeNotFound \<Rightarrow> nv_ownerReferences nv = [] \<and> \<not> pb_nodeSeen p1
          \<and> (\<forall>j' < j. \<forall>n. rd_node (rds ! j') \<noteq> NodeFound n)
      | NodeError e \<Rightarrow> False" by simp
    then show ?thesis
      using seen Suc by (auto simp: less_Suc_eq_0_disj split: node_reply.splits)
  qed
qed simp

text \<open>
  C36: the inventory lives and dies with its Node. Over any number of rounds, an inventory that is applied
  names as its owner the Node that was read in the same round; one without an owner is applied only while
  the Node has never been seen; and once it was seen and is gone, nothing is published again.
\<close>

theorem inventory_follows_node:
  assumes "publish_periodically X live info interval rds (new_publisher node) = Some (p', out)"
    and "i < length rds" "out ! i = Some nv"
  shows "case rd_node (rds ! i) of
      NodeFound n \<Rightarrow> nv_ownerReferences nv =
        [\<lparr>or_apiVersion = ''v1'', or_kind = ''Node'', or_name = kn_name n, or_uid = kn_uid n\<rparr>]
    | NodeNotFound \<Rightarrow> nv_ownerReferences nv = [] \<and> (\<forall>j < i. \<forall>n. rd_node (rds ! j) \<noteq> NodeFound n)
    | NodeError e \<Rightarrow> False"
proof -
  have "publish_rounds X live info rds (new_publisher node) = (p', out)"
    using assms(1) by (simp add: publish_periodically_def split: if_splits)
  from rounds_owned [OF this assms(2,3)] show ?thesis by (simp split: node_reply.splits)
qed

theorem inventory_is_node_state_witness:
  "\<exists>p' nv result. publish demo_inv (\<lambda>(reply, addrs). live_sandboxes demo_inv reply addrs)
      (sandboxd_node_info demo_inv ''a:1'') (demo_round NodeNotFound) (new_publisher ''n'') = (p', Some nv, result)
    \<and> sorted (map ie_name (nv_entries nv)) \<and> nv_address nv = ''a:1'' \<and> result = Inr 2"
proof -
  obtain p' nv result where run: "publish demo_inv (\<lambda>(reply, addrs). live_sandboxes demo_inv reply addrs)
      (sandboxd_node_info demo_inv ''a:1'') (demo_round NodeNotFound) (new_publisher ''n'') = (p', Some nv, result)"
    by (simp add: publish_def demo_round_def new_publisher_def live_sandboxes_def sandboxd_node_info_def Let_def)
  from inventory_is_node_state [OF run] run show ?thesis by (auto simp: demo_round_def)
qed

theorem inventory_follows_node_witness:
  "\<exists>p' nv0 nv1. publish_periodically demo_inv (\<lambda>(reply, addrs). live_sandboxes demo_inv reply addrs)
      (sandboxd_node_info demo_inv ''a:1'') 30000000000
      [demo_round NodeNotFound, demo_round (NodeFound \<lparr>kn_name = ''n'', kn_uid = ''u''\<rparr>), demo_round NodeNotFound]
      (new_publisher ''n'') = Some (p', [Some nv0, Some nv1, None])
    \<and> nv_ownerReferences nv0 = []
    \<and> nv_ownerReferences nv1 = [\<lparr>or_apiVersion = ''v1'', or_kind = ''Node'', or_name = ''n'', or_uid = ''u''\<rparr>]"
proof -
  let ?rds = "[demo_round NodeNotFound, demo_round (NodeFound \<lparr>kn_name = ''n'', kn_uid = ''u''\<rparr>), demo_round NodeNotFound]"
  obtain p' nv0 nv1 where run: "publish_periodically demo_inv (\<lambda>(reply, addrs). live_sandboxes demo_inv reply addrs)
      (sandboxd_node_info demo_inv ''a:1'') 30000000000 ?rds (new_publisher ''n'') = Some (p', [Some nv0, Some nv1, None])"
    by (simp add: publish_periodically_def publish_def demo_round_def new_publisher_def live_sandboxes_def sandboxd_node_info_def Let_def)
  have rd: "rd_node (demo_round r) = r" for r by (simp add: demo_round_def)
  from inventory_follows_node [OF run, of 0 nv0] inventory_follows_node [OF run, of 1 nv1] run
  show ?thesis by (simp add: rd)
qed

end
