(* ===== verification/Startup.thy ===== *)
theory Startup
  imports Lifecycle Node_Config Inventory
begin

text \<open>
  The start of the process (\<^verbatim>\<open>options.run\<close> of \<^verbatim>\<open>main.go\<close>): the stages in their order with the error each
  ends in, the background loops that are started, and how they are goroutines of the process whose
  invariants the concurrency theories prove. Construction of the provider is the program of
  \<open>Claims_Table\<close>; what the Kubernetes, sandboxd and virtual-kubelet libraries answer is the record
  \<open>startup\<close>.
\<close>

subsection \<open>What the outside answers\<close>

record 'g rest_config =
  rc_qps :: gofloat
  rc_burst :: int
  rc_rest :: 'g

record ('g, 'k, 'd, 'm, 'c, 'q, 'r) startup =
  su_getenv :: "string \<Rightarrow> string"
  su_inCluster :: "err + 'g rest_config"
  su_buildConfig :: "string \<Rightarrow> err + 'g rest_config"
  su_newClientset :: "'g rest_config \<Rightarrow> err option"
  su_newDynamic :: "'g rest_config \<Rightarrow> err option"
  su_tokenFrom :: "string \<Rightarrow> string \<Rightarrow> err + string"
  su_stat :: "string \<Rightarrow> err + bool"
  su_loadKeyPair :: "string \<Rightarrow> string \<Rightarrow> err + 'c"
  su_crypto :: "('k, 'd, 'm, 'c) crypto"
  su_newNode :: "string \<Rightarrow> (('q, 'r) vnode \<Rightarrow> ('q, 'r) vnode) \<Rightarrow> 'c node_opt list \<Rightarrow> err option"
  su_newCtrlClient :: "'g rest_config \<Rightarrow> err option"
  su_urlHost :: "string \<Rightarrow> string option"
  su_nodeRun :: "err option"
  su_ctxDone :: bool

datatype run_error =
    ErrNoStatePath
  | ErrKubeConfig err
  | ErrClientset err
  | ErrDynamicClient err
  | ErrToken err
  | ErrBuildProvider new_error
  | ErrNodeOptions options_error
  | ErrNewNode err
  | ErrCtrlClient err
  | ErrNodeExited err

datatype outcome = Exited "run_error option" | Panicked

datatype background =
    OrphanScanEvery duration
  | ClaimVerificationEvery duration
  | LeaseWatchEvery duration
  | OwnerRecheckEvery duration
  | InventoryEvery string duration

record http_client =
  hc_timeout :: duration
  hc_maxIdleConns :: int
  hc_maxIdleConnsPerHost :: int
  hc_idleConnTimeout :: duration

definition sandboxd_http_client :: http_client where
  "sandboxd_http_client =
     \<lparr>hc_timeout = sandboxd_request_timeout, hc_maxIdleConns = sandboxd_max_idle_conns,
      hc_maxIdleConnsPerHost = sandboxd_max_idle_conns, hc_idleConnTimeout = sandboxd_idle_conn_timeout\<rparr>"

subsection \<open>The stages\<close>

definition kube_config :: "('g, 'k, 'd, 'm, 'c, 'q, 'r) startup \<Rightarrow> err + 'g rest_config" where
  "kube_config A =
     (case su_inCluster A of
        Inr cfg \<Rightarrow> Inr cfg
      | Inl e \<Rightarrow> su_buildConfig A (su_getenv A ''KUBECONFIG''))"

text \<open>\<open>su_urlHost\<close> is the host of a URL that parses.\<close>

definition host_port :: "(string \<Rightarrow> string option) \<Rightarrow> string \<Rightarrow> string" where
  "host_port url_host raw =
     (case url_host raw of
        Some h \<Rightarrow> if h \<noteq> '''' then h else trim_right (\<lambda>c. c = CHR ''/'') raw
      | None \<Rightarrow> trim_right (\<lambda>c. c = CHR ''/'') raw)"

definition start_inventory_publisher ::
    "('g, 'k, 'd, 'm, 'c, 'q, 'r) startup \<Rightarrow> options \<Rightarrow> 'g rest_config \<Rightarrow> run_error + background" where
  "start_inventory_publisher A opt cfg =
     (case su_newCtrlClient A cfg of
        Some e \<Rightarrow> Inl (ErrCtrlClient e)
      | None \<Rightarrow> Inr (InventoryEvery (cmp_or (op_sandboxdAddr opt) (host_port (su_urlHost A) (op_sandboxdURL opt)))
                 (op_publishInterval opt)))"

definition provider_loops :: "options \<Rightarrow> background list" where
  "provider_loops opt =
     (if op_orphanInterval opt > 0 then [OrphanScanEvery (op_orphanInterval opt)] else [])
     @ [ClaimVerificationEvery claim_verify_interval, LeaseWatchEvery lease_watch_interval,
        OwnerRecheckEvery owner_recheck_interval]"

definition run_node :: "('g, 'k, 'd, 'm, 'c, 'q, 'r) startup \<Rightarrow> outcome" where
  "run_node A =
     (case su_nodeRun A of
        Some e \<Rightarrow> if su_ctxDone A then Exited None else Exited (Some (ErrNodeExited e))
      | None \<Rightarrow> Exited None)"

text \<open>What follows the construction of the provider: the outcome and the loops that were started.\<close>

definition serve ::
    "('g, 'k, 'd, 'm, 'c, 'q, 'r) startup \<Rightarrow> 'q node_ext \<Rightarrow> options \<Rightarrow> 'g rest_config \<Rightarrow> outcome \<times> background list" where
  "serve A N opt cfg =
     (case node_options (su_stat A) (su_loadKeyPair A) (su_crypto A) opt of
        Inl e \<Rightarrow> (Exited (Some (ErrNodeOptions e)), [])
      | Inr opts \<Rightarrow>
          (case provider_factory N opt of
             None \<Rightarrow> (Panicked, [])
           | Some f \<Rightarrow>
               (case su_newNode A (op_nodeName opt) f opts of
                  Some e \<Rightarrow> (Exited (Some (ErrNewNode e)), [])
                | None \<Rightarrow>
                    if op_publishInventory opt then
                      (case start_inventory_publisher A opt cfg of
                         Inl e \<Rightarrow> (Exited (Some e), provider_loops opt)
                       | Inr pub \<Rightarrow> (run_node A, provider_loops opt @ [pub]))
                    else (run_node A, provider_loops opt))))"

definition main_run ::
    "('g, 'k, 'd, 'm, 'c, 'q, 'r) startup \<Rightarrow> 'q node_ext \<Rightarrow> options \<Rightarrow> (outcome \<times> background list) prog" where
  "main_run A N opt =
     (if op_statePath opt = '''' then Ret (Exited (Some ErrNoStatePath), [])
      else case kube_config A of
        Inl e \<Rightarrow> Ret (Exited (Some (ErrKubeConfig e)), [])
      | Inr cfg0 \<Rightarrow>
          let cfg = cfg0\<lparr>rc_qps := to_float32 (op_kubeQPS opt), rc_burst := op_kubeBurst opt\<rparr> in
          (case su_newClientset A cfg of
             Some e \<Rightarrow> Ret (Exited (Some (ErrClientset e)), [])
           | None \<Rightarrow>
               (case su_newDynamic A cfg of
                  Some e \<Rightarrow> Ret (Exited (Some (ErrDynamicClient e)), [])
                | None \<Rightarrow>
                    (case su_tokenFrom A '''' (op_tokenFile opt) of
                       Inl e \<Rightarrow> Ret (Exited (Some (ErrToken e)), [])
                     | Inr token \<Rightarrow>
                         bind (new_provider True True (op_statePath opt)) (\<lambda>r.
                           case r of
                             Some e \<Rightarrow> Ret (Exited (Some (ErrBuildProvider e)), [])
                           | None \<Rightarrow> Ret (serve A N opt cfg))))))"

text \<open>
  The loops as goroutines that see \<open>n\<close> ticks. Of the provider, the inventory publisher calls
  \<^verbatim>\<open>ClaimAddresses\<close>, once per round.
\<close>

fun loop_goroutines :: "nat \<Rightarrow> background \<Rightarrow> goroutine list" where
  "loop_goroutines n (OrphanScanEvery d) = [OrphanScanner n]"
| "loop_goroutines n (ClaimVerificationEvery d) = [Verification n]"
| "loop_goroutines n (LeaseWatchEvery d) = [LeaseWatch n]"
| "loop_goroutines n (OwnerRecheckEvery d) = [OwnerRecheck d n]"
| "loop_goroutines n (InventoryEvery addr d) = replicate n AddressRead"

subsection \<open>A start on an empty node\<close>

definition demo_startup :: "(unit, unit, cert_template, unit, cert_template, nat, unit) startup" where
  "demo_startup = \<lparr>su_getenv = (\<lambda>key. ''''), su_inCluster = Inr \<lparr>rc_qps = FVal 0 0, rc_burst = 0, rc_rest = ()\<rparr>,
     su_buildConfig = (\<lambda>path. Inl ''no config''), su_newClientset = (\<lambda>cfg. None), su_newDynamic = (\<lambda>cfg. None),
     su_tokenFrom = (\<lambda>tok file. Inr tok), su_stat = (\<lambda>path. Inl ''no such file''),
     su_loadKeyPair = (\<lambda>cert key. Inl ''no such file''), su_crypto = demo_crypto,
     su_newNode = (\<lambda>name factory opts. None), su_newCtrlClient = (\<lambda>cfg. None), su_urlHost = (\<lambda>raw. None),
     su_nodeRun = None, su_ctxDone = True\<rparr>"

lemma demo_serve: "serve demo_startup demo_node_ext demo_options cfg = (Exited None, provider_loops demo_options)"
  by (simp add: serve_def node_options_def demo_port file_readable_def self_signed_cert_def demo_startup_def
      demo_crypto_def provider_factory_def demo_node_ext_def run_node_def)
    (simp add: demo_options_def flag_defaults_def)

lemma demo_provider:
  "path \<noteq> '''' \<Longrightarrow> \<exists>w'. run demo (new_provider True True path) demo_world = Some (None, w')
     \<and> w_prov w' = init_provider True True path"
  by (simp add: demo_world_def new_provider_def load_state_def verify_claims_against_node_def persist_def
      write_state_def init_provider_def quarantine_loaded_claims_def verify_snapshot_def snapshot_def)

lemma demo_main:
  "\<exists>w'. run demo (main_run demo_startup demo_node_ext demo_options) demo_world
     = Some ((Exited None, provider_loops demo_options), w')
     \<and> w_prov w' = init_provider True True (op_statePath demo_options)"
proof -
  have ne: "op_statePath demo_options \<noteq> ''''" by (simp add: demo_options_def flag_defaults_def env_or_def cmp_or_def)
  from demo_provider [OF this] show ?thesis
    by (auto simp: main_run_def ne kube_config_def demo_serve) (simp_all add: demo_startup_def demo_serve [unfolded demo_startup_def])
qed

subsection \<open>Every start comes to a clear end\<close>

lemma serve_loops:
  assumes "serve A N opt cfg = (out, loops)"
  shows "loops = [] \<and> out \<noteq> Exited None
    \<or> loops \<noteq> [] \<and> out \<noteq> Panicked \<and> (\<exists>p. listen_port (op_listenAddr opt) = Inr p)
        \<and> (\<exists>pub. loops = provider_loops opt @ pub \<and>
            (\<forall>b \<in> set pub. op_publishInventory opt \<and> (\<exists>a. b = InventoryEvery a (op_publishInterval opt))))"
proof -
  have ne: "provider_loops opt \<noteq> []" by (simp add: provider_loops_def)
  have "run_node A \<noteq> Panicked" by (simp add: run_node_def split: option.splits)
  with assms ne show ?thesis
    by (auto simp: serve_def start_inventory_publisher_def dest: node_options_listen
        split: sum.splits option.splits if_splits)
qed

lemma run_main:
  assumes "w_saveMu w = None"
  shows "\<exists>out loops w'. run S (main_run A N opt) w = Some ((out, loops), w')
    \<and> (loops = [] \<and> out \<noteq> Exited None \<and> w' = w
       \<or> op_statePath opt \<noteq> '''' \<and>
         (\<exists>r. run S (new_provider True True (op_statePath opt)) w = Some (r, w')
           \<and> (case r of
                Some e \<Rightarrow> loops = [] \<and> out = Exited (Some (ErrBuildProvider e))
              | None \<Rightarrow> \<exists>cfg. serve A N opt cfg = (out, loops))))"
proof (cases "op_statePath opt = ''''")
  case False
  obtain r w' where "run S (new_provider True True (op_statePath opt)) w = Some (r, w')"
    using run_new_provider [OF assms False] by blast
  with False show ?thesis
    by (cases r) (auto simp: main_run_def Let_def split: sum.splits option.splits, metis surj_pair)
qed (simp add: main_run_def)

lemma loops_started:
  assumes "loops = provider_loops opt @ pub"
    and "\<forall>b \<in> set pub. op_publishInventory opt \<and> (\<exists>a. b = InventoryEvery a (op_publishInterval opt))"
  shows "{ClaimVerificationEvery (15 * second), LeaseWatchEvery (30 * second), OwnerRecheckEvery (10 * second)}
      \<subseteq> set loops"
    and "\<forall>d. (OrphanScanEvery d \<in> set loops) = (d = op_orphanInterval opt \<and> 0 < d)"
    and "\<forall>a d. InventoryEvery a d \<in> set loops \<longrightarrow> op_publishInventory opt \<and> d = op_publishInterval opt"
  using assms
  by (auto simp: provider_loops_def claim_verify_interval_def lease_watch_interval_def owner_recheck_interval_def)



subsection \<open>The process that main starts\<close>

lemma main_started:
  assumes "run S (main_run A N opt) w = Some ((out, b # bs), w')"
  shows "op_statePath opt \<noteq> '''' \<and> run S (new_provider True True (op_statePath opt)) w = Some (None, w')"
proof -
  have ne: "op_statePath opt \<noteq> ''''" using assms by (auto simp: main_run_def)
  then obtain cfg where "run S (bind (new_provider True True (op_statePath opt)) (\<lambda>r.
      case r of Some e \<Rightarrow> Ret (Exited (Some (ErrBuildProvider e)), []) | None \<Rightarrow> Ret (serve A N opt cfg))) w
      = Some ((out, b # bs), w')"
    using assms by (auto simp: main_run_def Let_def split: sum.splits option.splits if_splits)
  with ne show ?thesis by (auto simp: split: option.splits)
qed

lemma loop_workers:
  "List.map_filter worker_key (loop_goroutines n b) = [] \<and> list_all worker_ops_ok (loop_goroutines n b)"
  by (cases b) (auto simp: List.map_filter_def list_all_iff filter_empty_conv)

lemma with_loops:
  assumes "one_worker_per_key gs"
  shows "one_worker_per_key (gs @ concat (map (loop_goroutines n) bs))"
proof -
  have mf: "List.map_filter f (xs @ ys) = List.map_filter f xs @ List.map_filter f ys"
    for f :: "goroutine \<Rightarrow> string option" and xs ys
    by (simp add: List.map_filter_def)
  have "List.map_filter worker_key (concat (map (loop_goroutines n) bs)) = []
      \<and> list_all worker_ops_ok (concat (map (loop_goroutines n) bs))"
    by (induction bs) (simp_all add: mf loop_workers List.map_filter_simps)
  with assms show ?thesis by (simp add: one_worker_per_key_def mf)
qed

text \<open>
  The publisher is started with whatever interval was configured. With one that is not positive it
  panics on making its ticker, before its first round.
\<close>

lemma publisher_needs_interval:
  assumes "start_inventory_publisher A opt cfg = Inr (InventoryEvery a d)" "op_publishInterval opt \<le> 0"
  shows "publish_periodically X live info d rds p = None"
  using assms
  by (simp add: start_inventory_publisher_def publish_periodically_def split: option.splits)

end
