(* ===== verification/Command_Line.thy ===== *)
theory Command_Line
  imports Startup
begin

text \<open>
  The command line (\<^verbatim>\<open>func main\<close> of \<^verbatim>\<open>main.go\<close>): the flags it declares, the \<^verbatim>\<open>flag\<close> package that parses
  them, and what the binary does with the result: print its version, set up its log, run.
  A package the binary imports may declare flags of its own; they are the parameter \<open>foreign\<close>, which tells
  whether such a flag is boolean and which values it takes.
\<close>

subsection \<open>Flags\<close>

record command =
  cm_options :: options
  cm_showVersion :: bool

text \<open>What a flag parses its value as, and the variable it sets.\<close>

datatype flag_value =
    StringVar "string \<Rightarrow> options \<Rightarrow> options"
  | BoolVar "bool \<Rightarrow> command \<Rightarrow> command"
  | IntVar "int \<Rightarrow> options \<Rightarrow> options"
  | Float64Var "gofloat \<Rightarrow> options \<Rightarrow> options"
  | DurationVar "duration \<Rightarrow> options \<Rightarrow> options"
  | ForeignVar bool "string \<Rightarrow> bool"

abbreviation on_options :: "(options \<Rightarrow> options) \<Rightarrow> command \<Rightarrow> command" where
  "on_options f c \<equiv> c\<lparr>cm_options := f (cm_options c)\<rparr>"

definition flags :: "(string \<times> flag_value) list" where
  "flags =
    [(''node-name'', StringVar (\<lambda>v opt. opt\<lparr>op_nodeName := v\<rparr>)),
     (''node-ip'', StringVar (\<lambda>v opt. opt\<lparr>op_nodeIP := v\<rparr>)),
     (''listen-addr'', StringVar (\<lambda>v opt. opt\<lparr>op_listenAddr := v\<rparr>)),
     (''tls-cert'', StringVar (\<lambda>v opt. opt\<lparr>op_tlsCert := v\<rparr>)),
     (''tls-key'', StringVar (\<lambda>v opt. opt\<lparr>op_tlsKey := v\<rparr>)),
     (''node-cpu'', StringVar (\<lambda>v opt. opt\<lparr>op_nodeCPU := v\<rparr>)),
     (''node-memory'', StringVar (\<lambda>v opt. opt\<lparr>op_nodeMem := v\<rparr>)),
     (''node-pods'', StringVar (\<lambda>v opt. opt\<lparr>op_nodePods := v\<rparr>)),
     (''kube-api-qps'', Float64Var (\<lambda>v opt. opt\<lparr>op_kubeQPS := v\<rparr>)),
     (''kube-api-burst'', IntVar (\<lambda>v opt. opt\<lparr>op_kubeBurst := v\<rparr>)),
     (''sandboxd-url'', StringVar (\<lambda>v opt. opt\<lparr>op_sandboxdURL := v\<rparr>)),
     (''sandboxd-advertise-addr'', StringVar (\<lambda>v opt. opt\<lparr>op_sandboxdAddr := v\<rparr>)),
     (''sandboxd-token-file'', StringVar (\<lambda>v opt. opt\<lparr>op_tokenFile := v\<rparr>)),
     (''state-path'', StringVar (\<lambda>v opt. opt\<lparr>op_statePath := v\<rparr>)),
     (''orphan-scan-interval'', DurationVar (\<lambda>v opt. opt\<lparr>op_orphanInterval := v\<rparr>)),
     (''publish-inventory'', BoolVar (\<lambda>v. on_options (\<lambda>opt. opt\<lparr>op_publishInventory := v\<rparr>))),
     (''publish-interval'', DurationVar (\<lambda>v opt. opt\<lparr>op_publishInterval := v\<rparr>)),
     (''node-labels'', StringVar (\<lambda>v opt. opt\<lparr>op_podLabels := v\<rparr>)),
     (''disable-pod-events'', BoolVar (\<lambda>v. on_options (\<lambda>opt. opt\<lparr>op_disablePodEvents := v\<rparr>))),
     (''version'', BoolVar (\<lambda>v c. c\<lparr>cm_showVersion := v\<rparr>))]"

definition lookup_flag :: "(string \<rightharpoonup> bool \<times> (string \<Rightarrow> bool)) \<Rightarrow> string \<Rightarrow> flag_value option" where
  "lookup_flag foreign name =
     (case map_of flags name of
        Some f \<Rightarrow> Some f
      | None \<Rightarrow> map_option (\<lambda>(b, ok). ForeignVar b ok) (foreign name))"

fun is_bool_flag :: "flag_value \<Rightarrow> bool" where
  "is_bool_flag (BoolVar f) = True"
| "is_bool_flag (ForeignVar b ok) = b"
| "is_bool_flag f = False"

fun set_flag :: "flag_value \<Rightarrow> string \<Rightarrow> command \<Rightarrow> command option" where
  "set_flag (StringVar f) s c = Some (on_options (f s) c)"
| "set_flag (BoolVar f) s c = map_option (\<lambda>v. f v c) (parse_bool s)"
| "set_flag (IntVar f) s c = map_option (\<lambda>v. on_options (f v) c) (parse_int0 64 s)"
| "set_flag (Float64Var f) s c = map_option (\<lambda>v. on_options (f v) c) (parse_float64 s)"
| "set_flag (DurationVar f) s c = map_option (\<lambda>v. on_options (f v) c) (parse_duration s)"
| "set_flag (ForeignVar b ok) s c = (if ok s then Some c else None)"

subsection \<open>flag.Parse\<close>

datatype flag_error =
    BadSyntax string
  | NotDefined string
  | InvalidBool string string
  | NeedsArgument string
  | InvalidValue string string
  | HelpRequested

text \<open>One flag: the flags are over, an error, or the remaining arguments and the command so far.\<close>

datatype flag_step = FlagsOver | FlagFails flag_error | FlagSet "string list" command

definition flag_name :: "string \<Rightarrow> string option" where
  "flag_name s =
     (if length s < 2 \<or> hd s \<noteq> CHR ''-'' then None
      else if s ! 1 = CHR ''-'' then (if length s = 2 then None else Some (drop 2 s))
      else Some (drop 1 s))"

text \<open>The value after the first \<^verbatim>\<open>=\<close> that is not the first byte.\<close>

definition flag_parts :: "string \<Rightarrow> string \<times> string option" where
  "flag_parts name =
     (if CHR ''='' \<in> set (tl name)
      then (hd name # takeWhile (\<lambda>c. c \<noteq> CHR ''='') (tl name), Some (tl (dropWhile (\<lambda>c. c \<noteq> CHR ''='') (tl name))))
      else (name, None))"

definition parse_one ::
    "(string \<rightharpoonup> bool \<times> (string \<Rightarrow> bool)) \<Rightarrow> string \<Rightarrow> string list \<Rightarrow> command \<Rightarrow> flag_step" where
  "parse_one foreign s args c =
     (case flag_name s of
        None \<Rightarrow> FlagsOver
      | Some n \<Rightarrow>
          if n = [] \<or> hd n = CHR ''-'' \<or> hd n = CHR ''='' then FlagFails (BadSyntax s)
          else
            (let (name, val) = flag_parts n in
             case lookup_flag foreign name of
               None \<Rightarrow> FlagFails (if name = ''help'' \<or> name = ''h'' then HelpRequested else NotDefined name)
             | Some f \<Rightarrow>
                 if is_bool_flag f then
                   (case set_flag f (case val of Some v \<Rightarrow> v | None \<Rightarrow> ''true'') c of
                      None \<Rightarrow> FlagFails (InvalidBool (case val of Some v \<Rightarrow> v | None \<Rightarrow> ''true'') name)
                    | Some c' \<Rightarrow> FlagSet args c')
                 else
                   (case (val, args) of
                      (Some v, _) \<Rightarrow>
                        (case set_flag f v c of None \<Rightarrow> FlagFails (InvalidValue v name) | Some c' \<Rightarrow> FlagSet args c')
                    | (None, v # args') \<Rightarrow>
                        (case set_flag f v c of None \<Rightarrow> FlagFails (InvalidValue v name) | Some c' \<Rightarrow> FlagSet args' c')
                    | (None, []) \<Rightarrow> FlagFails (NeedsArgument name))))"

lemma parse_one_rest: "parse_one foreign s args c = FlagSet args' c' \<Longrightarrow> length args' \<le> length args"
  by (auto simp: parse_one_def split: option.splits prod.splits if_splits list.splits)

function parse_flags ::
    "(string \<rightharpoonup> bool \<times> (string \<Rightarrow> bool)) \<Rightarrow> string list \<Rightarrow> command \<Rightarrow> flag_error + command" where
  "parse_flags foreign [] c = Inr c"
| "parse_flags foreign (s # args) c =
     (case parse_one foreign s args c of
        FlagsOver \<Rightarrow> Inr c
      | FlagFails e \<Rightarrow> Inl e
      | FlagSet args' c' \<Rightarrow> parse_flags foreign args' c')"
  by pat_completeness auto
termination by (relation "measure (\<lambda>(foreign, args, c). length args)") (auto dest: parse_one_rest)

subsection \<open>func main\<close>

record build_info =
  bi_version :: string
  bi_revision :: string
  bi_builtAt :: string

definition dev_build :: build_info where
  "dev_build = \<lparr>bi_version = ''dev'', bi_revision = ''unknown'', bi_builtAt = ''unknown''\<rparr>"

definition version_text :: "build_info \<Rightarrow> string" where
  "version_text B =
     ''vk-sandbox '' @ bi_version B @ '' (rev='' @ bi_revision B @ '' built='' @ bi_builtAt B @ '')'' @ [CHR 0x0A]"

text \<open>The mode of standard error, or that it cannot be told; bit 21 marks a character device.\<close>

definition stderr_is_terminal :: "err + 32 word \<Rightarrow> bool" where
  "stderr_is_terminal fi = (case fi of Inl e \<Rightarrow> False | Inr mode \<Rightarrow> bit mode 21)"

datatype main_end =
    UsageExit flag_error
  | VersionPrinted string
  | LogSetupFailed err
  | RunEnded outcome

definition start_command :: "(string \<Rightarrow> string) \<Rightarrow> command" where
  "start_command getenv = \<lparr>cm_options = flag_defaults getenv, cm_showVersion = False\<rparr>"

text \<open>\<open>setup\<close> is the log library, given the level and whether to write JSON.\<close>

definition go_main ::
    "('g, 'k, 'd, 'm, 'c, 'q, 'r) startup \<Rightarrow> 'q node_ext \<Rightarrow> build_info \<Rightarrow> (string \<rightharpoonup> bool \<times> (string \<Rightarrow> bool))
     \<Rightarrow> err + 32 word \<Rightarrow> (string \<Rightarrow> bool \<Rightarrow> err option) \<Rightarrow> string list \<Rightarrow> (main_end \<times> background list) prog" where
  "go_main A N B foreign fi setup args =
     (case parse_flags foreign args (start_command (su_getenv A)) of
        Inl e \<Rightarrow> Ret (UsageExit e, [])
      | Inr c \<Rightarrow>
          if cm_showVersion c then Ret (VersionPrinted (version_text B), [])
          else (case setup (env_or (su_getenv A) ''VK_LOG_LEVEL'' ''info'') (\<not> stderr_is_terminal fi) of
                  Some e \<Rightarrow> Ret (LogSetupFailed e, [])
                | None \<Rightarrow>
                    bind (main_run A N (cm_options c)) (\<lambda>(out, loops). Ret (RunEnded out, loops))))"

text \<open>
  The exit status: \<^verbatim>\<open>flag.ExitOnError\<close>, \<^verbatim>\<open>os.Exit(1)\<close>, the status of a panic; the status after
  \<^verbatim>\<open>logger.Fatalf\<close> is the log library's, \<open>fatal\<close>.
\<close>

fun exit_code :: "int \<Rightarrow> main_end \<Rightarrow> int" where
  "exit_code fatal (UsageExit e) = (if e = HelpRequested then 0 else 2)"
| "exit_code fatal (VersionPrinted s) = 0"
| "exit_code fatal (LogSetupFailed e) = 1"
| "exit_code fatal (RunEnded (Exited None)) = 0"
| "exit_code fatal (RunEnded (Exited (Some e))) = fatal"
| "exit_code fatal (RunEnded Panicked) = 2"

subsection \<open>Flags as they are written\<close>

lemma flag_assignment:
  assumes "name \<noteq> []" "hd name \<noteq> CHR ''-''" "CHR ''='' \<notin> set name"
    and "map_of flags name = Some f" "set_flag f v c = Some c'"
  shows "parse_one foreign (''--'' @ name @ ''='' @ v) args c = FlagSet args c'"
proof -
  obtain a as where a: "name = a # as" using assms(1) by (cases name) auto
  have n: "flag_name (''--'' @ name @ ''='' @ v) = Some (name @ ''='' @ v)" by (simp add: flag_name_def)
  have h: "hd (name @ ''='' @ v) \<noteq> CHR ''-''" "hd (name @ ''='' @ v) \<noteq> CHR ''=''"
    using assms(2,3) by (auto simp: a)
  have p: "flag_parts (name @ ''='' @ v) = (name, Some v)"
    using assms(3) by (auto simp: a flag_parts_def takeWhile_append dropWhile_append)
  show ?thesis
    unfolding parse_one_def n option.case p prod.case Let_def
    using h assms(4,5) by (simp add: lookup_flag_def)
qed

text \<open>A command line that sets every flag but \<^verbatim>\<open>--version\<close>.\<close>

definition print_bool :: "bool \<Rightarrow> string" where
  "print_bool b = (if b then ''true'' else ''false'')"

definition option_values :: "options \<Rightarrow> nat \<Rightarrow> (string \<times> string) list" where
  "option_values opt qps =
     [(''node-name'', op_nodeName opt), (''node-ip'', op_nodeIP opt), (''listen-addr'', op_listenAddr opt),
      (''tls-cert'', op_tlsCert opt), (''tls-key'', op_tlsKey opt), (''node-cpu'', op_nodeCPU opt),
      (''node-memory'', op_nodeMem opt), (''node-pods'', op_nodePods opt), (''kube-api-qps'', decimal qps),
      (''kube-api-burst'', print_int (op_kubeBurst opt)), (''sandboxd-url'', op_sandboxdURL opt),
      (''sandboxd-advertise-addr'', op_sandboxdAddr opt), (''sandboxd-token-file'', op_tokenFile opt),
      (''state-path'', op_statePath opt), (''orphan-scan-interval'', print_duration (op_orphanInterval opt)),
      (''publish-inventory'', print_bool (op_publishInventory opt)),
      (''publish-interval'', print_duration (op_publishInterval opt)), (''node-labels'', op_podLabels opt),
      (''disable-pod-events'', print_bool (op_disablePodEvents opt))]"

definition option_args :: "options \<Rightarrow> nat \<Rightarrow> string list" where
  "option_args opt qps = map (\<lambda>(name, v). ''--'' @ name @ ''='' @ v) (option_values opt qps)"

fun assign_flags :: "(string \<times> string) list \<Rightarrow> command \<Rightarrow> command option" where
  "assign_flags [] c = Some c"
| "assign_flags ((name, v) # rest) c =
     (case map_of flags name of
        None \<Rightarrow> None
      | Some f \<Rightarrow> (case set_flag f v c of None \<Rightarrow> None | Some c' \<Rightarrow> assign_flags rest c'))"

lemma parse_assignments:
  assumes "assign_flags nvs c = Some c'"
    and "\<forall>(name, v) \<in> set nvs. name \<noteq> [] \<and> hd name \<noteq> CHR ''-'' \<and> CHR ''='' \<notin> set name"
  shows "parse_flags foreign (map (\<lambda>(name, v). ''--'' @ name @ ''='' @ v) nvs) c = Inr c'"
  using assms
proof (induction nvs c rule: assign_flags.induct)
  case (2 name v rest c)
  then obtain f c1 where f: "map_of flags name = Some f" "set_flag f v c = Some c1" "assign_flags rest c1 = Some c'"
    by (auto split: option.splits)
  have "parse_one foreign (''--'' @ name @ ''='' @ v) args c = FlagSet args c1" for args
    by (rule flag_assignment [OF _ _ _ f(1,2)]) (use 2(3) in auto)
  with 2 f show ?case by simp
qed simp

lemma parse_bool_print: "parse_bool (print_bool b) = Some b"
  by (simp add: parse_bool_def print_bool_def)

text \<open>The integers of the options are values of the 64-bit types the program declares them with.\<close>

definition int64 :: "int \<Rightarrow> bool" where
  "int64 v \<longleftrightarrow> - (2 ^ 63) \<le> v \<and> v < 2 ^ 63"

definition options_typed :: "options \<Rightarrow> bool" where
  "options_typed opt \<longleftrightarrow>
     int64 (op_kubeBurst opt) \<and> int64 (op_orphanInterval opt) \<and> int64 (op_publishInterval opt)"

lemma assign_options:
  assumes "options_typed opt" "op_kubeQPS opt = FVal (int qps) 0" "qps < 2 ^ 53"
  shows "assign_flags (option_values opt qps) c = Some (c\<lparr>cm_options := opt\<rparr>)"
proof -
  have "parse_int0 64 (print_int (op_kubeBurst opt)) = Some (op_kubeBurst opt)"
    "parse_duration (print_duration (op_orphanInterval opt)) = Some (op_orphanInterval opt)"
    "parse_duration (print_duration (op_publishInterval opt)) = Some (op_publishInterval opt)"
    using assms(1) by (auto simp: options_typed_def int64_def intro!: parse_int0_print parse_duration_print)
  with parse_float64_decimal [OF assms(3)] assms(2) show ?thesis
    by (cases opt) (simp add: option_values_def flags_def parse_bool_print)
qed

text \<open>
  C39: every configuration can be given on the command line. For any options, with any strings whatever, any
  64-bit intervals and burst, and a rate below \<open>2 ^ 53\<close>, the command line that sets each flag to its printed
  value is parsed to exactly these options, whatever the environment had set before.
\<close>

theorem command_line_roundtrip:
  assumes "options_typed opt" "op_kubeQPS opt = FVal (int qps) 0" "qps < 2 ^ 53"
  shows "parse_flags foreign (option_args opt qps) c = Inr (c\<lparr>cm_options := opt\<rparr>)"
  unfolding option_args_def by (rule parse_assignments [OF assign_options [OF assms]]) (simp add: option_values_def)

theorem command_line_roundtrip_witness:
  "parse_flags Map.empty (option_args (demo_options\<lparr>op_podLabels := ''a=b'', op_publishInterval := - 5\<rparr>) 200)
      (start_command (\<lambda>_. ''env''))
    = Inr ((start_command (\<lambda>_. ''env''))\<lparr>cm_options := demo_options\<lparr>op_podLabels := ''a=b'', op_publishInterval := - 5\<rparr>\<rparr>)"
  by (rule command_line_roundtrip) (simp_all add: options_typed_def int64_def demo_options_def flag_defaults_def second_def)

subsection \<open>Parsed options have their types\<close>

fun var_typed :: "flag_value \<Rightarrow> bool" where
  "var_typed (StringVar f) = (\<forall>v opt. options_typed opt \<longrightarrow> options_typed (f v opt))"
| "var_typed (BoolVar f) = (\<forall>v c. options_typed (cm_options c) \<longrightarrow> options_typed (cm_options (f v c)))"
| "var_typed (IntVar f) = (\<forall>v opt. int64 v \<longrightarrow> options_typed opt \<longrightarrow> options_typed (f v opt))"
| "var_typed (Float64Var f) = (\<forall>v opt. options_typed opt \<longrightarrow> options_typed (f v opt))"
| "var_typed (DurationVar f) = (\<forall>v opt. int64 v \<longrightarrow> options_typed opt \<longrightarrow> options_typed (f v opt))"
| "var_typed (ForeignVar b ok) = True"

lemma flags_typed: "list_all (\<lambda>(name, f). var_typed f) flags"
  by (simp add: flags_def options_typed_def)

lemma flag_keeps_types:
  assumes "lookup_flag foreign name = Some f" "set_flag f s c = Some c'" "options_typed (cm_options c)"
  shows "options_typed (cm_options c')"
proof -
  have "var_typed f"
    using assms(1) flags_typed
    by (auto simp: lookup_flag_def list_all_iff split: option.splits dest!: map_of_SomeD)
  with assms(2,3) show ?thesis
    using parse_int0_range [of 64 s] parse_duration_range [of s]
    by (cases f) (auto simp: int64_def split: if_splits)
qed



text \<open>The parser accepts a publish interval of zero, the value with which the publisher panics.\<close>

lemma zero_interval_accepted:
  "\<exists>c. parse_flags foreign [''--publish-inventory'', ''--publish-interval=0''] (start_command getenv) = Inr c
    \<and> op_publishInventory (cm_options c) \<and> op_publishInterval (cm_options c) = 0"
  by (simp add: parse_one_def flag_name_def flag_parts_def lookup_flag_def flags_def parse_bool_def
      parse_duration_def split_sign_def start_command_def)

subsection \<open>The process that the binary starts\<close>

lemma go_main_started:
  assumes "run S (go_main A N B foreign fi setup args) w = Some ((out, b # bs), w')"
  shows "\<exists>c r. parse_flags foreign args (start_command (su_getenv A)) = Inr c \<and> out = RunEnded r
    \<and> run S (main_run A N (cm_options c)) w = Some ((r, b # bs), w')"
proof -
  obtain c where c: "parse_flags foreign args (start_command (su_getenv A)) = Inr c" "\<not> cm_showVersion c"
    "run S (bind (main_run A N (cm_options c)) (\<lambda>(out, loops). Ret (RunEnded out, loops))) w = Some ((out, b # bs), w')"
    using assms by (auto simp: go_main_def split: sum.splits if_splits option.splits)
  then show ?thesis by (auto simp: split: option.splits prod.splits)
qed

lemma go_main_runs:
  assumes "parse_flags foreign args (start_command (su_getenv A)) = Inr c" "\<not> cm_showVersion c"
    and "setup (env_or (su_getenv A) ''VK_LOG_LEVEL'' ''info'') (\<not> stderr_is_terminal fi) = None"
    and "run S (main_run A N (cm_options c)) w = Some ((r, loops), w')"
  shows "run S (go_main A N B foreign fi setup args) w = Some ((RunEnded r, loops), w')"
  using assms by (simp add: go_main_def)

end
