(* ===== verification/Spec2Isabelle.thy ===== *)
theory Spec2Isabelle
  imports Ledger Authority Command_Line
begin

text \<open>
  vk-sandbox is a virtual kubelet: one process per node registers a virtual Kubernetes node and turns every
  Pod bound to it into a sandbox that the node's sandboxd hands out. The process keeps one table of claims
  and a state file with the release credential of every claim. Its one duty is never to lose a credential
  and never to give back a sandbox without authority, whatever fails and whenever it dies.

  \<^bold>\<open>Parts of the program and the theories that model them.\<close>

  \<^item> \<^verbatim>\<open>VK_Prelude\<close>: what the program uses of Go and its standard library (byte strings, \<^verbatim>\<open>strconv\<close>,
    \<^verbatim>\<open>net.SplitHostPort\<close> and \<^verbatim>\<open>JoinHostPort\<close>, 64-bit durations) and lemmas on maps and lists.
    \<^verbatim>\<open>Kube_Model\<close>: the data, with the fields the program reads: Pods, owners, sandboxd messages, \<^verbatim>\<open>Claim\<close>,
    \<^verbatim>\<open>Provider\<close> (record \<open>provider\<close>), every error a handler returns, and every call to the outside, as an
    \<open>event\<close> of a trace.
  \<^item> \<^verbatim>\<open>Handler_Prog\<close>: a handler is a tree of actions (\<open>prog\<close>). A section under \<^verbatim>\<open>mu\<close> is one action, a call
    is one action, and \<^verbatim>\<open>saveMu\<close>, which is held across file-system calls, is a lock that blocks. The answer
    of a service is a function of the history of all calls (\<open>services\<close>), so it is arbitrary and may change
    over time. \<open>run\<close> executes a handler alone, \<open>par_step\<close> one action of any goroutine.
  \<^item> \<^verbatim>\<open>Claims_Table\<close> and \<^verbatim>\<open>State_File\<close>, for \<^verbatim>\<open>provider/provider.go\<close>: \<^verbatim>\<open>New\<close>, \<^verbatim>\<open>load\<close>, \<^verbatim>\<open>persist\<close>, \<^verbatim>\<open>write\<close>,
    \<^verbatim>\<open>commitClaim\<close>, \<^verbatim>\<open>verifyClaims\<close> and the sections under \<^verbatim>\<open>mu\<close>; the JSON document by its struct tags.
  \<^item> \<^verbatim>\<open>Create_Pod\<close> (\<^verbatim>\<open>create.go\<close>), \<^verbatim>\<open>Delete_Pod\<close> (\<^verbatim>\<open>delete.go\<close>), \<^verbatim>\<open>Ownership\<close> (\<^verbatim>\<open>ownership.go\<close>), \<^verbatim>\<open>Owner_Recheck\<close>
    (\<^verbatim>\<open>recheck.go\<close>), \<^verbatim>\<open>Orphan_Scan\<close> (\<^verbatim>\<open>orphan.go\<close>), \<^verbatim>\<open>Pod_Status\<close> (\<^verbatim>\<open>status.go\<close>), all of \<^verbatim>\<open>provider/\<close>: every
    function of these files, with each early return and each error.
  \<^item> \<^verbatim>\<open>Inventory\<close>, for \<^verbatim>\<open>inventory/publisher.go\<close> and \<^verbatim>\<open>nodeinfo.go\<close>: the published NodeInventory, one round and
    the loop over rounds.
  \<^item> \<^verbatim>\<open>Self_Signed\<close> (\<^verbatim>\<open>selfsigned.go\<close>), \<^verbatim>\<open>Node_Config\<close> (\<^verbatim>\<open>main.go\<close>: the options, the node, its labels, the queue
    limits; \<^verbatim>\<open>events.go\<close>; \<^verbatim>\<open>provider/unsupported.go\<close>) and \<^verbatim>\<open>Startup\<close> (\<^verbatim>\<open>options.run\<close>, stage by stage, and
    the loops it starts).
  \<^item> \<^verbatim>\<open>Command_Line\<close>: \<^verbatim>\<open>func main\<close> of \<^verbatim>\<open>main.go\<close> with the flags it declares and the \<^verbatim>\<open>flag\<close> package that reads them,
    and \<^verbatim>\<open>version/version.go\<close>. \<^verbatim>\<open>Go_Numbers\<close>: the number syntax of the flags (\<^verbatim>\<open>ParseBool\<close>, \<^verbatim>\<open>ParseInt\<close>, \<^verbatim>\<open>ParseFloat\<close>,
    \<^verbatim>\<open>ParseDuration\<close>, with the rounding to 64-bit and 32-bit floats).

  \<^bold>\<open>How they interact.\<close> \<^verbatim>\<open>run\<close> constructs the provider, which loads the file, quarantines what it cannot
  verify against sandboxd's listing and rewrites the file. It then starts the background loops and
  virtual-kubelet, whose workers call CreatePod, UpdatePod and DeletePod, one worker per Pod key. The
  processes of \<^verbatim>\<open>Concurrency\<close> and \<^verbatim>\<open>Lifecycle\<close> are that composition: \<open>process E gs\<close> is a pool of workers, loops
  and status reads, and \<open>sys_step\<close> adds boot, crash at any action, and restart from the file that is left.

  \<^bold>\<open>The proofs about the whole process.\<close>

  \<^item> \<^verbatim>\<open>Rely_Guarantee\<close>: the calculus for interleaved goroutines. \<^verbatim>\<open>Credentials\<close>: the invariant \<open>table_inv\<close> and
    what a goroutine may rely on. \<^verbatim>\<open>Goroutines\<close>, \<^verbatim>\<open>Conc_Store\<close>, \<^verbatim>\<open>Conc_Sections\<close>, \<^verbatim>\<open>Conc_Handlers\<close>,
    \<^verbatim>\<open>Conc_Background\<close>: one triple per program. \<^verbatim>\<open>Concurrency\<close> and \<^verbatim>\<open>Lifecycle\<close>: the invariant in every state
    that a process can reach.
  \<^item> \<^verbatim>\<open>Progress\<close>: lock discipline, absence of deadlock, termination of every schedule.
  \<^item> \<^verbatim>\<open>Ledger\<close>: the contract of the table as a ledger of row states (free, tentative, unverified, bound), its
    own two theorems (what a process commits to is on disk; nothing that is held is dropped unless the node
    gave it up), and the simulation: every atomic step of a process is a step of the ledger, or none.
  \<^item> \<^verbatim>\<open>Action_Log\<close>: a schedule as a log of who did what (sections under \<^verbatim>\<open>mu\<close>, owner look-ups, releases), and a
    weakest-precondition calculus over the log of one goroutine, which needs no assumption about the others.
    \<^verbatim>\<open>Authority\<close>: the licence that each release and each entry of the release queue needs, and that every
    goroutine of a process keeps to it.
  \<^item> \<^verbatim>\<open>Demo_Node\<close> and \<^verbatim>\<open>Examples\<close>: a concrete node that meets every hypothesis, with evaluated runs.

  \<^bold>\<open>Interfaces.\<close> Each is a locale, interpreted on the definitions of the model: \<open>release_authority\<close> (what a
  release needs, \<^verbatim>\<open>Ownership\<close>), \<open>table_codec\<close> (encode and decode, \<^verbatim>\<open>State_File\<close>), \<open>keyed_section\<close> and
  \<open>guarded_section\<close> (a section under \<^verbatim>\<open>mu\<close> touches its own key only, \<^verbatim>\<open>Claims_Table\<close>), \<open>live_source\<close>, \<open>info_source\<close>
  and \<open>publishing\<close> (the sources of the publisher, \<^verbatim>\<open>Inventory\<close>), \<open>section_relation\<close> (what a relation on
  providers needs so that every section keeps to it, \<^verbatim>\<open>Ledger\<close>).

  \<^bold>\<open>What the theorems show.\<close> Here: credentials are on disk in every reachable state and survive a restart; no
  sandbox is lost; Running is reported only for a durable claim; the table is well formed and every release
  presents the token that was issued; every schedule completes; the process that \<^verbatim>\<open>main\<close> starts is the one
  these theorems are about. In \<^verbatim>\<open>Authority\<close>: no sandbox is given back without authority, in any interleaving.
  In \<^verbatim>\<open>Command_Line\<close>: every configuration can be given on the command line, and a number that is accepted
  is within its 64-bit type. In the component theories: every branch of CreatePod and DeletePod, the evidence
  each release needs, the verdict table, the startup quarantine and how it is lifted, the backoff at 64-bit
  width, the round trip of the state file, the phases a Pod is reported in, the orphan scan, the published
  inventory, the registered node, its labels, its certificate.

  \<^bold>\<open>Hypotheses.\<close> \<open>map_ranges\<close>: a Go map iteration visits every key once, in any order. \<open>fresh_ids\<close>: sandboxd does
  not hand out an id that it handed out before. \<open>creds_known\<close>: the credentials in the first state file are the
  issued ones. \<open>one_worker_per_key\<close>: virtual-kubelet's queue never runs two operations of a key at once. Each
  is met by the concrete node of \<^verbatim>\<open>Demo_Node\<close>.

  \<^bold>\<open>Bounds.\<close> No definition uses fuel; all programs are finite trees. A context that ends a loop is the number of
  ticks before it is done: a natural number that every theorem leaves arbitrary. Durations are
  integers with the 64-bit wrap-around written out where the code computes with them (\<open>wrap64\<close>: the backoff of the
  re-check, the validity of the certificate), bytes of an address are 8-bit words, times are nanoseconds since
  Go's zero time.

  \<^bold>\<open>Not modelled.\<close>

  \<^item> Log lines, except the verdicts of the orphan scan, which are logged when they change and are what the scan is
    for. The log library is the parameter \<open>setup\<close> of \<open>go_main\<close>, flags that imported packages declare are its parameter
    \<open>foreign\<close>, the texts of usage and help are left out.
  \<^item> Code of other modules (client-go, virtual-kubelet, the sandbox API packages), the \<^verbatim>\<open>crypto\<close> packages and
    \<^verbatim>\<open>url.Parse\<close>: their answers are fields of \<open>services\<close>, \<open>ext\<close>, \<open>inv_ext\<close>, \<open>node_ext\<close>, \<open>startup\<close> and \<open>crypto\<close>.
  \<^item> The text level of JSON: the state file is a JSON value.
  \<^item> The file system below its calls: a write of the temporary file succeeds, or fails and leaves no complete
    document there; rename replaces the state file in one step. A page cache lost with the machine is not
    part of a crash.
\<close>

section \<open>The process as a whole\<close>

text \<open>
  C1: a crash never loses a release credential. In every state a process can reach, under any
  schedule of its goroutines, any behaviour of sandboxd, the apiserver and the file system, and any
  number of earlier crashes and restarts, every credential that the table holds and does not mark
  tentative is in the state file.
\<close>

theorem credentials_on_disk:
  assumes "map_ranges S" "fresh_ids S T" "path \<noteq> ''''"
    and "w_trace w0 = []" "creds_known T (disk_creds w0)"
    and "(sys_step S E dyn path)\<^sup>*\<^sup>* (Down w0) (Up w ts)"
  shows "durable (w_prov w) \<subseteq> disk_creds w"
  by (rule up_inv [OF assms(6,1,2,3,4,5)]) (simp add: table_inv_def)

theorem credentials_on_disk_witness:
  "(''x'', ''t'') \<in> disk_creds demo_served"
proof -
  have "durable (w_prov demo_served) \<subseteq> disk_creds demo_served"
    by (rule credentials_on_disk [OF demo_ranges demo_fresh _ demo_start demo_reach]) simp
  moreover have "(''x'', ''t'') \<in> durable (w_prov demo_served)"
    by (auto simp: durable_iff demo_create demo_claimed_def cred_def)
  ultimately show ?thesis by blast
qed

text \<open>
  C2: a restart finds every credential again. If the process dies at an arbitrary point and the next
  one starts, each credential the dead process held for good is held for good by the new one, unless
  the sandbox was released or a listing taken after it was handed out no longer shows it.
\<close>

theorem restart_keeps_credentials:
  assumes "map_ranges S" "fresh_ids S T" "path \<noteq> ''''"
    and "w_trace w0 = []" "creds_known T (disk_creds w0)"
    and "(sys_step S E dyn path)\<^sup>*\<^sup>* (Down w0) (Up w ts)"
    and "run S (new_provider True dyn path) (crash w) = Some (None, w')"
    and "(x, t) \<in> durable (w_prov w)"
  shows "(x, t) \<in> durable (w_prov w') \<or> x \<in> released (w_trace w') \<or> x \<in> gone T (w_trace w')"
proof -
  obtain g where inv: "table_inv T (w, g)" by (rule up_inv [OF assms(6,1,2,3,4,5)])
  have disk: "disk_creds (crash w) = disk_creds w" by (simp add: crash_def disk_creds_def)
  have xt: "(x, t) \<in> disk_creds w" using inv assms(8) by (auto simp: table_inv_def)
  from rg_run [OF alone_new_provider [OF assms(1,3)] boot_ok_crash [OF table_boot_ok [OF inv]] _ assms(7),
      of "disk_creds w" "{}"] disk
  obtain g' where inv': "table_inv T (w', g')" and acc: "accounts T (disk_creds w) (w', g')"
    by (auto simp: boot_post_def)
  show ?thesis by (rule durable_again [OF inv' acc new_provider_no_tentative [OF assms(7)] xt])
qed

theorem restart_keeps_credentials_witness:
  "(''x'', ''t'') \<in> durable (w_prov demo_again) \<or> ''x'' \<in> released (w_trace demo_again)
     \<or> ''x'' \<in> gone Map.empty (w_trace demo_again)"
proof (rule restart_keeps_credentials [OF demo_ranges demo_fresh _ demo_start demo_reach demo_reboot])
  show "(''x'', ''t'') \<in> durable (w_prov demo_served)"
    by (auto simp: durable_iff demo_create demo_claimed_def cred_def)
qed simp

text \<open>
  C3: no sandbox is lost. A process that started on a fresh history is given any mix of Pod
  operations, one worker per key, next to its background loops, in any interleaving. When all of
  them have returned, every sandbox the node ever handed out is still held by the table or its
  release queue, or was released, or a later listing showed that the node no longer has it.
\<close>

theorem no_sandbox_lost:
  assumes "map_ranges S" "fresh_ids S T" "path \<noteq> ''''"
    and "w_trace w0 = []" "creds_known T (disk_creds w0)"
    and "run S (new_provider True dyn path) w0 = Some (None, w1)" "one_worker_per_key gs"
    and "(par_step S)\<^sup>*\<^sup>* (w1, process E gs) (w2, ts)" "\<forall>m \<in> set ts. \<exists>a. m = Ret a"
    and "EvClaim sp (Inr res) \<in> set (w_trace w2)"
  shows "cr_id res \<in> held_ids (w_prov w2) \<union> released (w_trace w2) \<union> gone T (w_trace w2)"
proof -
  obtain g where inv: "table_inv T (w1, g)" by (rule started_inv [OF assms(1,3-6)])
  note none = started_obtained [OF assms(4,6)]
  have "cr_id res \<in> obtained (w_trace w2) (sp_claimRef sp)" using assms(10) by (auto simp: obtained_def)
  with finished_account [OF assms(1,2,7) inv none assms(8,9)]
  show ?thesis by (auto simp: accounted_def)
qed

theorem no_sandbox_lost_witness:
  "''x'' \<in> held_ids (w_prov demo_served) \<union> released (w_trace demo_served)
     \<union> gone Map.empty (w_trace demo_served)"
  using no_sandbox_lost [OF demo_ranges demo_fresh _ demo_start demo_boot(1) demo_workers demo_pool _
      demo_create(6)] by simp

text \<open>
  C4: Kubernetes is told Running only about a sandbox whose credential is safe. In every state a
  process can reach, for each Pod that was ever reported Running, with the claim id its annotation
  carries: as long as the table still binds that id to the Pod's key, the release credential is in
  the state file.
\<close>

theorem running_only_when_durable:
  assumes "map_ranges S" "fresh_ids S T" "path \<noteq> ''''"
    and "w_trace w0 = []" "creds_known T (disk_creds w0)"
    and "(sys_step S E dyn path)\<^sup>*\<^sup>* (Down w0) (Up w ts)"
    and "EvNotify pd \<in> set (w_trace w)" "ps_phase (pod_status pd) = PodRunning"
  shows "\<exists>x. pod_annotations pd ann_claim_id = Some x
    \<and> (\<forall>c. pv_claims (w_prov w) (pod_key (pod_namespace pd) (pod_name pd)) = Some c \<longrightarrow> cl_id c = x \<longrightarrow>
          (cl_id c, cl_token c) \<in> disk_creds w)"
proof -
  obtain g where inv: "table_inv T (w, g)" by (rule up_inv [OF assms(6,1,2,3,4,5)])
  then have "notified_ok g w" "durable (w_prov w) \<subseteq> disk_creds w" by (simp_all add: table_inv_def)
  with assms(7,8) obtain x where x: "pod_annotations pd ann_claim_id = Some x"
    "nontent (w_prov w) (pod_key (pod_namespace pd) (pod_name pd)) x"
    by (auto simp: notified_ok_def)
  have "(cl_id c, cl_token c) \<in> disk_creds w"
    if c: "pv_claims (w_prov w) (pod_key (pod_namespace pd) (pod_name pd)) = Some c" "cl_id c = x" for c
  proof -
    have "(cl_id c, cl_token c) \<in> durable (w_prov w)"
      using c x(2) unfolding durable_iff nontent_def cred_def by blast
    with \<open>durable (w_prov w) \<subseteq> disk_creds w\<close> show ?thesis by blast
  qed
  with x(1) show ?thesis by blast
qed

theorem running_only_when_durable_witness:
  "\<exists>x. pod_annotations (pod_with_claim demo_pod ''x'') ann_claim_id = Some x
    \<and> (\<forall>c. pv_claims (w_prov demo_served) ''ns/a'' = Some c \<longrightarrow> cl_id c = x \<longrightarrow>
          (cl_id c, cl_token c) \<in> disk_creds demo_served)"
  using running_only_when_durable [OF demo_ranges demo_fresh _ demo_start demo_reach demo_create(5)]
  by (simp add: running_status_def Let_def pod_with_claim_def pod_key_def)



text \<open>
  Every operation returns. Whatever sandboxd, the apiserver and the file system answer, CreatePod,
  UpdatePod, DeletePod, one round of the owner re-check and the construction of a provider come to a
  result and leave \<open>saveMu\<close> free.
\<close>

lemma operations_return:
  assumes "w_saveMu w = None"
  shows "(\<exists>r w'. run S (create_pod E pd) w = Some (r, w') \<and> w_saveMu w' = None)
    \<and> (\<exists>r w'. run S (update_pod E pd) w = Some (r, w') \<and> w_saveMu w' = None)
    \<and> (\<exists>r w'. run S (delete_pod E pd) w = Some (r, w') \<and> w_saveMu w' = None)
    \<and> (\<exists>w'. run S (recheck_owners E t base) w = Some ((), w') \<and> w_saveMu w' = None)
    \<and> (\<exists>r w'. run S (new_provider lister dyn path) w = Some (r, w') \<and> w_saveMu w' = None)"
  using run_handler [OF locks_create(2) assms] run_handler [OF locks_create(3) assms]
    run_handler [OF locks_delete(3) assms] run_handler [OF locks_recheck(4) assms]
    run_handler [OF locks_new_provider assms]
  by (metis (full_types) old.unit.exhaust)

lemma operations_return_witness:
  "\<exists>r w'. run demo_down (create_pod demo_ext demo_pod) demo_loaded = Some (r, w') \<and> w_saveMu w' = None"
  using operations_return [of demo_loaded demo_down demo_ext demo_pod] by (simp add: demo_loaded_def)

text \<open>
  C6: the table is always well formed and every release presents the right credential. In every state a
  process can reach, the tentative and the quarantine marker are on rows only and never on the same row, the
  table is finite, every row and every queued claim carries the token that sandboxd handed out with its id,
  and so does every release request that was ever sent.
\<close>

theorem table_well_formed:
  assumes "map_ranges S" "fresh_ids S T" "path \<noteq> ''''"
    and "w_trace w0 = []" "creds_known T (disk_creds w0)"
    and "(sys_step S E dyn path)\<^sup>*\<^sup>* (Down w0) (Up w ts)"
  shows "pv_tentative (w_prov w) \<union> pv_quarantined (w_prov w) \<subseteq> dom (pv_claims (w_prov w))
    \<and> pv_tentative (w_prov w) \<inter> pv_quarantined (w_prov w) = {} \<and> finite (dom (pv_claims (w_prov w)))
    \<and> (\<forall>c \<in> ran (pv_claims (w_prov w)) \<union> set (pv_releasing (w_prov w)).
          known T (w_trace w) (cl_id c) = Some (cl_token c))
    \<and> (\<forall>cc x t r. EvRelease cc x t r \<in> set (w_trace w) \<longrightarrow> known T (w_trace w) x = Some t)"
proof -
  obtain g where "table_inv T (w, g)" by (rule up_inv [OF assms(6,1,2,3,4,5)])
  then show ?thesis by (auto simp: table_inv_def table_ok_def tokens_ok_def ran_def presented_def)
qed

theorem table_well_formed_witness:
  "known Map.empty (w_trace demo_served) ''x'' = Some ''t''"
proof -
  have "demo_claimed \<in> ran (pv_claims (w_prov demo_served))" by (simp add: demo_create)
  with table_well_formed [OF demo_ranges demo_fresh _ demo_start demo_reach]
  have "known Map.empty (w_trace demo_served) (cl_id demo_claimed) = Some (cl_token demo_claimed)" by auto
  then show ?thesis by (simp add: demo_claimed_def)
qed

text \<open>
  C5: the process that the binary starts is the one these properties are about. Whatever the command line and
  the environment: when \<^verbatim>\<open>main\<close> on a fresh history has started its background loops, then with any pod workers
  beside them, under any schedule and with any number of ticks, every credential held for good is in the state
  file, and when everything has returned no sandbox is lost. That there is a state file is not assumed: \<^verbatim>\<open>run\<close>
  refuses to start without.
\<close>

theorem main_process_safe:
  assumes "map_ranges S" "fresh_ids S T" "w_trace w0 = []" "creds_known T (disk_creds w0)"
    and "run S (go_main A N B foreign fi setup args) w0 = Some ((out, b # bs), w1)" "one_worker_per_key gs"
    and "(par_step S)\<^sup>*\<^sup>* (w1, process E (gs @ concat (map (loop_goroutines n) (b # bs)))) (w2, ts)"
  shows "durable (w_prov w2) \<subseteq> disk_creds w2
    \<and> ((\<forall>m \<in> set ts. \<exists>a. m = Ret a) \<longrightarrow>
        (\<forall>sp res. EvClaim sp (Inr res) \<in> set (w_trace w2) \<longrightarrow>
           cr_id res \<in> held_ids (w_prov w2) \<union> released (w_trace w2) \<union> gone T (w_trace w2)))"
proof -
  obtain c :: command and r where c: "run S (main_run A N (cm_options c)) w0 = Some ((r, b # bs), w1)"
    using go_main_started [OF assms(5)] by auto
  let ?path = "op_statePath (cm_options c)"
  have np: "?path \<noteq> ''''" "run S (new_provider True True ?path) w0 = Some (None, w1)"
    using main_started [OF c] by simp_all
  obtain g where inv: "table_inv T (w1, g)" by (rule started_inv [OF assms(1) np(1) assms(3,4) np(2)])
  note none = started_obtained [OF assms(3) np(2)]
  note workers = with_loops [OF assms(6)]
  obtain g' where "table_inv T (w2, g')" using started_pool_inv [OF assms(1,2) workers inv assms(7)] by blast
  then have "durable (w_prov w2) \<subseteq> disk_creds w2" by (simp add: table_inv_def)
  moreover have "cr_id res \<in> held_ids (w_prov w2) \<union> released (w_trace w2) \<union> gone T (w_trace w2)"
    if "\<forall>m \<in> set ts. \<exists>a. m = Ret a" "EvClaim sp (Inr res) \<in> set (w_trace w2)" for sp res
  proof -
    have "cr_id res \<in> obtained (w_trace w2) (sp_claimRef sp)" using that(2) by (auto simp: obtained_def)
    with finished_account [OF assms(1,2) workers inv none assms(7) that(1)]
    show ?thesis by (auto simp: accounted_def)
  qed
  ultimately show ?thesis by blast
qed

text \<open>The binary without arguments on an empty node: the process starts and its worker creates a Pod.\<close>

lemma demo_go_main:
  "\<exists>w1. run demo (go_main demo_startup demo_node_ext dev_build Map.empty (Inl '''') (\<lambda>_ _. None) []) demo_world
      = Some ((RunEnded (Exited None), provider_loops demo_options), w1)
    \<and> run demo (new_provider True True (op_statePath demo_options)) demo_world = Some (None, w1)"
proof -
  obtain w1 where w1: "run demo (main_run demo_startup demo_node_ext demo_options) demo_world
      = Some ((Exited None, provider_loops demo_options), w1)" using demo_main by blast
  have "su_getenv demo_startup = (\<lambda>key. '''')" by (simp add: demo_startup_def)
  then have "parse_flags Map.empty [] (start_command (su_getenv demo_startup)) = Inr \<lparr>cm_options = demo_options, cm_showVersion = False\<rparr>"
    by (simp add: start_command_def demo_options_def)
  from go_main_runs [OF this] w1 have "run demo (go_main demo_startup demo_node_ext dev_build Map.empty (Inl '''') (\<lambda>_ _. None) []) demo_world
      = Some ((RunEnded (Exited None), provider_loops demo_options), w1)" by simp
  moreover obtain b bs where "provider_loops demo_options = b # bs"
    by (cases "provider_loops demo_options") (simp_all add: provider_loops_def)
  with main_started [of demo demo_startup demo_node_ext demo_options] w1
  have "run demo (new_provider True True (op_statePath demo_options)) demo_world = Some (None, w1)" by simp
  ultimately show ?thesis by blast
qed

theorem main_process_safe_witness:
  "\<exists>w1 w2 ts. run demo (go_main demo_startup demo_node_ext dev_build Map.empty (Inl '''') (\<lambda>_ _. None) []) demo_world
      = Some ((RunEnded (Exited None), provider_loops demo_options), w1)
    \<and> (par_step demo)\<^sup>*\<^sup>* (w1, process demo_ext ([demo_worker]
        @ concat (map (loop_goroutines 0) (provider_loops demo_options)))) (w2, ts)
    \<and> durable (w_prov w2) \<subseteq> disk_creds w2"
proof -
  obtain w1 where w1: "run demo (go_main demo_startup demo_node_ext dev_build Map.empty (Inl '''') (\<lambda>_ _. None) []) demo_world
      = Some ((RunEnded (Exited None), provider_loops demo_options), w1)"
    "run demo (new_provider True True (op_statePath demo_options)) demo_world = Some (None, w1)"
    using demo_go_main by blast
  obtain b bs where loops: "provider_loops demo_options = b # bs"
    by (cases "provider_loops demo_options") (simp_all add: provider_loops_def)
  let ?rest = "process demo_ext (concat (map (loop_goroutines 0) (b # bs)))"
  have wk: "one_worker_per_key [demo_worker]"
    by (simp add: one_worker_per_key_def demo_worker_def List.map_filter_simps pod_key_def)
  have "w_saveMu w1 = None" using run_handler [OF locks_new_provider, of demo_world] w1(2)
    by (metis demo_world_sel(2) option.inject prod.inject)
  then obtain w2 where "run demo (goroutine_prog demo_ext demo_worker) w1 = Some ((), w2)"
    using run_handler [OF locks_goroutine, of w1 demo demo_ext demo_worker] by (metis (full_types) old.unit.exhaust)
  from solo_pool [OF run_solo [OF this], of ?rest]
  have steps: "(par_step demo)\<^sup>*\<^sup>* (w1, process demo_ext ([demo_worker] @ concat (map (loop_goroutines 0) (b # bs))))
      (w2, Ret () # ?rest)" by (simp add: process_def)
  have "durable (w_prov w2) \<subseteq> disk_creds w2"
    using main_process_safe [OF demo_ranges demo_fresh demo_start w1(1) [unfolded loops] wk steps] by simp
  with w1(1) steps loops show ?thesis by metis
qed

end
